(* ===== verification/Prelude.thy ===== *)
theory Prelude
  imports Main "HOL-Library.Word" "HOL-Library.AList" "HOL-Library.Multiset"
begin

text \<open>
  The prelude of the development: the types every component shares and the generic lemmas
  the component proofs rest on.

  \<^item> Machine integers are words of their width; instants of \<open>time.Time\<close> are \<open>int\<close>
    nanoseconds from the Unix epoch, so that comparison and \<open>Add\<close> are exact.
  \<^item> A Go map is an association list with distinct keys (\<open>gomap_ok\<close>): \<open>map_of\<close> reads it,
    \<open>AList.update\<close> and \<open>AList.delete\<close> write it, its \<open>length\<close> is Go's \<open>len\<close>. Go leaves
    the order of \<open>range\<close> over a map open, so an operation that ranges over a map takes the
    order as an argument, a list of keys that \<open>range_order\<close> relates to the map, and its
    theorems hold for every such order.
  \<^item> Errors are values of one datatype; a Go result \<open>(T, error)\<close> is \<open>error + T\<close> and a
    plain \<open>error\<close> is \<open>error option\<close>, \<open>None\<close> being nil.
\<close>

named_theorems go_maps \<open>reads after writes of a Go map\<close>
named_theorems go_bytes \<open>lengths and round trips of the byte encodings\<close>

section \<open>Types\<close>

type_synonym byte = "8 word"
type_synonym u32 = "32 word"
type_synonym u64 = "64 word"
type_synonym bytes = "byte list"
type_synonym time = int
type_synonym duration = int
type_synonym ('k, 'v) gomap = "('k \<times> 'v) list"

text \<open>
  The error values of the engine: the context errors, the package's error variables, the
  messages \<open>fmt.Errorf\<close> builds (one constructor per format string, carrying its arguments)
  and the errors that user code returns.
\<close>

datatype error =
    Canceled
  | DeadlineExceeded
  | ErrBufferClosed
  | SnapshotCorrupt
  | UserError string
  | NodeExists string
  | SourceNotFound string
  | DestinationNotFound string
  | NoNodes string
  | DanglingNode string
  | SourceHasIncoming string
  | SinkHasOutgoing string
  | OperatorNoIncoming string
  | OperatorNoOutgoing string
  | GraphCycle string
  | OSError string
  | Wrapped string error
  | CannotStop string
  | CannotPause string
  | CannotResume string
  | CannotTerminate string

section \<open>Go maps\<close>

abbreviation gomap_ok :: "('k, 'v) gomap \<Rightarrow> bool" where
  "gomap_ok m \<equiv> distinct (map fst m)"

text \<open>The orders in which \<open>range\<close> may visit the keys of a map.\<close>

definition range_order :: "'k list \<Rightarrow> ('k, 'v) gomap \<Rightarrow> bool" where
  "range_order ks m \<longleftrightarrow> distinct ks \<and> set ks = set (map fst m)"

lemma range_order_self [simp]: "gomap_ok m \<Longrightarrow> range_order (map fst m) m"
  by (simp add: range_order_def)

lemma range_order_length: "gomap_ok m \<Longrightarrow> range_order ks m \<Longrightarrow> length ks = length m"
  unfolding range_order_def by (metis distinct_card length_map)

lemma range_order_mem: "range_order ks m \<Longrightarrow> k \<in> set ks \<longleftrightarrow> map_of m k \<noteq> None"
  by (auto simp: range_order_def map_of_eq_None_iff)

lemma range_order_Nil [simp]: "range_order [] m \<longleftrightarrow> m = []"
  by (auto simp: range_order_def)

lemma map_of_update [go_maps]: "map_of (AList.update k v m) = (map_of m)(k \<mapsto> v)"
  by (simp add: update_conv')

lemma map_of_delete [go_maps]: "map_of (AList.delete k m) = (map_of m)(k := None)"
  by (simp add: delete_conv')

lemma gomap_ok_update [simp]: "gomap_ok m \<Longrightarrow> gomap_ok (AList.update k v m)"
  by (simp add: distinct_update)

lemma gomap_ok_delete [simp]: "gomap_ok m \<Longrightarrow> gomap_ok (AList.delete k m)"
  by (simp add: distinct_delete)

lemma keys_update [go_maps]: "set (map fst (AList.update k v m)) = insert k (set (map fst m))"
  by (induction m) auto

lemma keys_delete [go_maps]: "set (map fst (AList.delete k m)) = set (map fst m) - {k}"
  by (induction m) auto

lemma length_update [go_maps]:
  "length (AList.update k v m) = (if k \<in> set (map fst m) then length m else Suc (length m))"
  by (induction m) auto

lemma length_gomap_card: "gomap_ok m \<Longrightarrow> length m = card (set (map fst m))"
  by (metis distinct_card length_map)

lemma map_of_dom_keys: "dom (map_of m) = set (map fst m)"
  by (simp add: dom_map_of_conv_image_fst)

lemma map_of_rev_distinct: "distinct (map fst xs) \<Longrightarrow> map_of (rev xs) = map_of xs"
  using map_of_inject_set [of "rev xs" xs] by (simp flip: rev_map)

text \<open>A fold of updates over keys listed once reads back what each key was given.\<close>

lemma map_of_fold_update:
  "distinct ks \<Longrightarrow>
   map_of (fold (\<lambda>k m. AList.update k (f k) m) ks m0) k
     = (if k \<in> set ks then Some (f k) else map_of m0 k)"
  by (induction ks arbitrary: m0) (auto simp: go_maps)

lemma gomap_ok_fold_update:
  "gomap_ok m0 \<Longrightarrow> gomap_ok (fold (\<lambda>k m. AList.update k (f k) m) ks m0)"
  by (induction ks arbitrary: m0) auto

section \<open>Lists\<close>

lemma takeWhile_sorted_filter:
  fixes t :: "'b::linorder"
  shows "sorted (map f xs) \<Longrightarrow> takeWhile (\<lambda>x. f x \<le> t) xs = filter (\<lambda>x. f x \<le> t) xs"
  by (induction xs) (auto 4 4 intro!: filter_False [symmetric] dest: order_trans)

lemma dropWhile_sorted_filter:
  fixes t :: "'b::linorder"
  shows "sorted (map f xs) \<Longrightarrow> dropWhile (\<lambda>x. f x \<le> t) xs = filter (\<lambda>x. \<not> f x \<le> t) xs"
  by (induction xs) (auto 4 4 intro!: filter_True [symmetric] dest: order_trans)

lemma sorted_map_append_single:
  "sorted (map f (xs @ [x])) \<longleftrightarrow> sorted (map f xs) \<and> (\<forall>y \<in> set xs. f y \<le> f x)"
  by (auto simp: sorted_append)

lemma sum_list_map_remove_zero:
  "(\<And>x. x \<in> set xs \<Longrightarrow> f x = (0::nat)) \<Longrightarrow> sum_list (map f xs) = 0"
  by (induction xs) auto

lemma sum_list_update_plus:
  fixes f :: "'a \<Rightarrow> nat"
  shows "i < length xs \<Longrightarrow> sum_list (map f (xs[i := x])) + f (xs ! i) = sum_list (map f xs) + f x"
  by (induction xs arbitrary: i) (auto split: nat.split)

end
