(* ===== verification/Go_Std.thy ===== *)
theory Go_Std
  imports Prelude
begin

text \<open>
  What the engine uses of Go's standard library, written out: big-endian integers
  (\<open>encoding/binary\<close> and the package's own \<open>appendUint32\<close>/\<open>readUint32\<close> build on the
  same bytes), \<open>strconv\<close>'s decimal numbers (also \<open>fmt\<close>'s \<open>%d\<close>), \<open>sort.Search\<close>,
  strings as byte sequences and the Unix-nanosecond view of an instant.
\<close>

unbundle bit_operations_syntax

section \<open>Strings and bytes\<close>

text \<open>Conversions \<open>[]byte(s)\<close> and \<open>string(b)\<close>: a Go string is a byte sequence.\<close>

definition byte_of_char :: "char \<Rightarrow> byte" where
  "byte_of_char c = of_char c"

definition char_of_byte :: "byte \<Rightarrow> char" where
  "char_of_byte b = char_of (unat b)"

definition to_bytes :: "string \<Rightarrow> bytes" where
  "to_bytes s = map byte_of_char s"

definition of_bytes :: "bytes \<Rightarrow> string" where
  "of_bytes bs = map char_of_byte bs"

lemma char_of_byte_of_char [simp]: "char_of_byte (byte_of_char c) = c"
proof -
  have "unat (of_char c :: byte) = of_char c"
  proof -
    have "(of_char c :: byte) = word_of_nat (of_char c)"
      by (rule of_nat_of_char [symmetric])
    moreover have "of_char c < (256::nat)"
      using of_char_mod_256 [of c, where ?'a = nat] mod_less_divisor [of 256 "of_char c :: nat"] by simp
    ultimately show ?thesis
      by (simp add: unat_of_nat)
  qed
  then show ?thesis
    by (simp add: char_of_byte_def byte_of_char_def)
qed

lemma of_bytes_to_bytes [go_bytes, simp]: "of_bytes (to_bytes s) = s"
  by (simp add: of_bytes_def to_bytes_def o_def)

lemma length_to_bytes [go_bytes, simp]: "length (to_bytes s) = length s"
  by (simp add: to_bytes_def)

section \<open>Big-endian integers\<close>

text \<open>\<open>binary.BigEndian.PutUint64\<close> and \<open>binary.BigEndian.Uint64\<close>.\<close>

definition PutUint64 :: "u64 \<Rightarrow> bytes" where
  "PutUint64 v = [ucast (drop_bit 56 v), ucast (drop_bit 48 v), ucast (drop_bit 40 v),
     ucast (drop_bit 32 v), ucast (drop_bit 24 v), ucast (drop_bit 16 v),
     ucast (drop_bit 8 v), ucast v]"

definition Uint64 :: "bytes \<Rightarrow> u64" where
  "Uint64 b = ucast (b ! 7) OR push_bit 8 (ucast (b ! 6)) OR push_bit 16 (ucast (b ! 5))
     OR push_bit 24 (ucast (b ! 4)) OR push_bit 32 (ucast (b ! 3)) OR push_bit 40 (ucast (b ! 2))
     OR push_bit 48 (ucast (b ! 1)) OR push_bit 56 (ucast (b ! 0))"

lemma length_PutUint64 [go_bytes, simp]: "length (PutUint64 v) = 8"
  by (simp add: PutUint64_def)

lemma bit_byte_at:
  "bit (push_bit k (ucast (ucast (drop_bit k v) :: byte) :: u64)) n
     \<longleftrightarrow> k \<le> n \<and> n < k + 8 \<and> n < 64 \<and> bit (v :: u64) n"
  by (auto simp: bit_simps)

lemma bit_low_byte: "bit (ucast (ucast v :: byte) :: u64) n \<longleftrightarrow> n < 8 \<and> bit (v :: u64) n"
  by (auto simp: bit_simps)

lemma Uint64_PutUint64 [go_bytes, simp]: "Uint64 (PutUint64 v @ rest) = v"
proof (rule bit_word_eqI)
  fix n assume "n < LENGTH(64)"
  then have n: "n < 64" by simp
  then have "n < 8 \<or> \<not> n < 8 \<and> n < 16 \<or> \<not> n < 16 \<and> n < 24 \<or> \<not> n < 24 \<and> n < 32
    \<or> \<not> n < 32 \<and> n < 40 \<or> \<not> n < 40 \<and> n < 48 \<or> \<not> n < 48 \<and> n < 56 \<or> \<not> n < 56 \<and> n < 64"
    by blast
  with n show "bit (Uint64 (PutUint64 v @ rest)) n \<longleftrightarrow> bit v n"
    by (cases "bit v n")
      (simp_all add: Uint64_def PutUint64_def bit_or_iff bit_byte_at bit_low_byte not_less)
qed

section \<open>Instants and Unix nanoseconds\<close>

text \<open>
  \<open>t.UnixNano()\<close> computes in \<open>int64\<close>, so it wraps outside the years 1678 to 2262;
  \<open>uint64(t.UnixNano())\<close> is the same bits. \<open>time.Unix(0, int64(ns))\<close> reads them back as a
  signed number. The zero \<open>time.Time\<close> is the start of year 1.
\<close>

definition UnixNano :: "time \<Rightarrow> u64" where
  "UnixNano t = word_of_int t"

definition Unix :: "u64 \<Rightarrow> time" where
  "Unix ns = sint ns"

definition zero_time :: time where
  "zero_time = - 62135596800 * 1000000000"

definition unix_nano_ok :: "time \<Rightarrow> bool" where
  "unix_nano_ok t \<longleftrightarrow> - (2 ^ 63) \<le> t \<and> t < 2 ^ 63"

lemma Unix_UnixNano [simp]: "unix_nano_ok t \<Longrightarrow> Unix (UnixNano t) = t"
  by (simp add: Unix_def UnixNano_def unix_nano_ok_def sint_sbintrunc' signed_take_bit_int_eq_self)

section \<open>Decimal numbers\<close>

definition digit :: "nat \<Rightarrow> char" where
  "digit d = char_of (48 + d)"

text \<open>\<open>strconv.FormatUint(n, 10)\<close>, which is also what \<open>%d\<close> prints for an unsigned number.\<close>

fun FormatUint :: "nat \<Rightarrow> string" where
  "FormatUint n = (if n < 10 then [digit n] else FormatUint (n div 10) @ [digit (n mod 10)])"

declare FormatUint.simps [simp del]

text \<open>
  \<open>strconv.ParseUint(s, 10, 64)\<close>: every character a digit, at least one of them, and the
  value below \<open>2\<^sup>6\<^sup>4\<close>; anything else is an error (\<open>None\<close>). With the base given as 10 no
  underscore, sign or prefix is accepted.
\<close>

definition is_digit :: "char \<Rightarrow> bool" where
  "is_digit c \<longleftrightarrow> (of_char c :: nat) \<ge> 48 \<and> (of_char c :: nat) \<le> 57"

definition digit_value :: "char \<Rightarrow> nat" where
  "digit_value c = of_char c - 48"

definition ParseUint :: "string \<Rightarrow> nat option" where
  "ParseUint s =
     (if s = [] \<or> \<not> list_all is_digit s then None
      else let v = fold (\<lambda>c acc. 10 * acc + digit_value c) s 0
           in if v < 2 ^ 64 then Some v else None)"

lemma of_char_digit: "d < 10 \<Longrightarrow> (of_char (digit d) :: nat) = 48 + d"
  by (simp add: digit_def)

lemma is_digit_digit [simp]: "d < 10 \<Longrightarrow> is_digit (digit d)"
  by (simp add: is_digit_def of_char_digit)

lemma digit_value_digit [simp]: "d < 10 \<Longrightarrow> digit_value (digit d) = d"
  by (simp add: digit_value_def of_char_digit)

lemma FormatUint_digits: "list_all is_digit (FormatUint n)"
proof (induction n rule: FormatUint.induct)
  case (1 n)
  then show ?case by (subst FormatUint.simps) (auto simp: list_all_iff)
qed

lemma FormatUint_nonempty [simp]: "FormatUint n \<noteq> []"
  by (subst FormatUint.simps) simp

lemma FormatUint_value: "fold (\<lambda>c acc. 10 * acc + digit_value c) (FormatUint n) 0 = n"
proof (induction n rule: FormatUint.induct)
  case (1 n)
  then show ?case by (subst FormatUint.simps) auto
qed

lemma ParseUint_FormatUint [simp]: "n < 2 ^ 64 \<Longrightarrow> ParseUint (FormatUint n) = Some n"
  by (simp add: ParseUint_def FormatUint_digits FormatUint_value Let_def)

lemma FormatUint_inject [simp]: "FormatUint m = FormatUint n \<longleftrightarrow> m = n"
  by (metis FormatUint_value)

lemma FormatUint_no_char: "\<not> is_digit c \<Longrightarrow> c \<notin> set (FormatUint n)"
  using FormatUint_digits [of n] by (auto simp: list_all_iff)

section \<open>sort.Search\<close>

text \<open>The binary search of the \<open>sort\<close> package, loop for loop.\<close>

function Search_loop :: "(nat \<Rightarrow> bool) \<Rightarrow> nat \<Rightarrow> nat \<Rightarrow> nat" where
  "Search_loop f i j =
     (if i < j then
        let h = (i + j) div 2
        in if \<not> f h then Search_loop f (h + 1) j else Search_loop f i h
      else i)"
  by pat_completeness auto
termination
  by (relation "measure (\<lambda>(f, i, j). j - i)") auto

declare Search_loop.simps [simp del]

definition sort_Search :: "nat \<Rightarrow> (nat \<Rightarrow> bool) \<Rightarrow> nat" where
  "sort_Search n f = Search_loop f 0 n"

text \<open>For a predicate that stays true once it is true, the search finds where it turns.\<close>

lemma Search_loop_correct:
  assumes "i \<le> j" "j \<le> n"
    and "\<And>a b. a \<le> b \<Longrightarrow> b < n \<Longrightarrow> f a \<Longrightarrow> f b"
    and "\<And>k. k < i \<Longrightarrow> \<not> f k" "\<And>k. j \<le> k \<Longrightarrow> k < n \<Longrightarrow> f k"
  shows "Search_loop f i j \<le> n \<and> (\<forall>k < Search_loop f i j. \<not> f k)
    \<and> (\<forall>k. Search_loop f i j \<le> k \<longrightarrow> k < n \<longrightarrow> f k)"
  using assms
proof (induction f i j rule: Search_loop.induct)
  case (1 f i j)
  show ?case
  proof (cases "i < j")
    case False
    with "1.prems" have "i = j" by simp
    with "1.prems"(2,4,5) False show ?thesis
      by (simp add: Search_loop.simps [of f j j])
  next
    case True
    define h where "h = (i + j) div 2"
    have h: "i \<le> h" "h < j" using True by (auto simp: h_def)
    show ?thesis
    proof (cases "f h")
      case True
      have "Search_loop f i h \<le> n \<and> (\<forall>k < Search_loop f i h. \<not> f k)
        \<and> (\<forall>k. Search_loop f i h \<le> k \<longrightarrow> k < n \<longrightarrow> f k)"
      proof (rule "1.IH"(2) [OF \<open>i < j\<close> h_def])
        show "f k" if "h \<le> k" "k < n" for k
          using that True "1.prems"(3) by blast
      qed (use "1.prems" h True in auto)
      with True \<open>i < j\<close> show ?thesis by (simp add: Search_loop.simps [of f i j] h_def)
    next
      case False
      have "Search_loop f (h + 1) j \<le> n \<and> (\<forall>k < Search_loop f (h + 1) j. \<not> f k)
        \<and> (\<forall>k. Search_loop f (h + 1) j \<le> k \<longrightarrow> k < n \<longrightarrow> f k)"
      proof (rule "1.IH"(1) [OF \<open>i < j\<close> h_def False])
        show "\<not> f k" if "k < h + 1" for k
          using that False "1.prems"(2) "1.prems"(3) [of k h] h by auto
      qed (use "1.prems" h in auto)
      with False \<open>i < j\<close> show ?thesis by (simp add: Search_loop.simps [of f i j] h_def)
    qed
  qed
qed

lemma sort_Search_correct:
  assumes "\<And>a b. a \<le> b \<Longrightarrow> b < n \<Longrightarrow> f a \<Longrightarrow> f b"
  shows "sort_Search n f \<le> n \<and> (\<forall>k < sort_Search n f. \<not> f k)
    \<and> (\<forall>k. sort_Search n f \<le> k \<longrightarrow> k < n \<longrightarrow> f k)"
  unfolding sort_Search_def by (rule Search_loop_correct) (use assms in auto)

text \<open>Searching a list sorted by \<open>g\<close> for the first entry after \<open>t\<close> counts the entries up to \<open>t\<close>.\<close>

lemma sort_Search_sorted:
  fixes t :: "'b::linorder"
  assumes "sorted (map g xs)"
  shows "sort_Search (length xs) (\<lambda>i. t < g (xs ! i)) = length (takeWhile (\<lambda>x. g x \<le> t) xs)"
    (is "?k = ?m")
proof -
  have mono: "t < g (xs ! b)" if "a \<le> b" "b < length xs" "t < g (xs ! a)" for a b
    using that assms sorted_nth_mono [of "map g xs" a b] by fastforce
  have k: "?k \<le> length xs" "\<And>i. i < ?k \<Longrightarrow> \<not> t < g (xs ! i)"
      "\<And>i. ?k \<le> i \<Longrightarrow> i < length xs \<Longrightarrow> t < g (xs ! i)"
    using sort_Search_correct [of "length xs" "\<lambda>i. t < g (xs ! i)"] mono by blast+
  have m: "?m \<le> length xs" by (rule length_takeWhile_le)
  have below: "g (xs ! i) \<le> t" if "i < ?m" for i
    using that takeWhile_nth [of i "\<lambda>x. g x \<le> t" xs] nth_mem [of i "takeWhile (\<lambda>x. g x \<le> t) xs"]
      set_takeWhileD by fastforce
  have at: "\<not> g (xs ! ?m) \<le> t" if "?m < length xs"
    using that by (rule nth_length_takeWhile)
  show ?thesis
  proof (rule linorder_cases [of ?k ?m])
    assume "?k < ?m"
    with k(3) [of ?k] m below [of ?k] show ?thesis by fastforce
  next
    assume "?m < ?k"
    with k(1) k(2) [of ?m] at show ?thesis by fastforce
  qed
qed

end
