(* ===== verification/Message.thy ===== *)
theory Message
  imports Go_Std
begin

text \<open>
  The units that travel through a pipeline: \<open>internal/engine/message.go\<close> (data messages and
  the in-band signals) and \<open>internal/engine/control.go\<close> (the out-of-band control messages).
  Go's tagged structs with pointers are records whose pointers are options. A payload has the
  type \<open>any\<close>: a user value of the type parameter, a dead letter (the one payload the engine
  itself makes, \<open>internal/engine/errors.go\<close>) or nil.
\<close>

section \<open>Data messages\<close>

datatype MessageType = MessageTypeData | MessageTypeSignal

datatype 'u any = AnyNil | AnyValue 'u | AnyDeadLetter "'u DeadLetterMessage"
  and 'u DataMessage =
    DataMessage (dm_Key: string) (dm_Value: "'u any") (dm_EventTime: time)
  and 'u DeadLetterMessage =
    DeadLetterMessage (dl_OriginalMsg: "'u DataMessage") (dl_Err: error) (dl_NodeID: string)

section \<open>Signals\<close>

datatype SignalType = SignalTypeBarrier | SignalTypeWatermark | SignalTypeStop

record BarrierSignal =
  bs_Epoch :: u64
  bs_MinEpoch :: u64
  bs_Timestamp :: time
  bs_ThenStop :: bool

record WatermarkSignal =
  ws_EventTime :: time
  ws_Idle :: bool

record SignalMessage =
  sm_SignalType :: SignalType
  sm_Barrier :: "BarrierSignal option"
  sm_Watermark :: "WatermarkSignal option"

record 'u Message =
  m_Type :: MessageType
  m_Data :: "'u DataMessage option"
  m_Signal :: "SignalMessage option"

definition NewDataMessage :: "string \<Rightarrow> 'u any \<Rightarrow> time \<Rightarrow> 'u Message" where
  "NewDataMessage key value eventTime =
     \<lparr>m_Type = MessageTypeData, m_Data = Some (DataMessage key value eventTime), m_Signal = None\<rparr>"

definition NewSignalMessage :: "SignalMessage \<Rightarrow> 'u Message" where
  "NewSignalMessage signal =
     \<lparr>m_Type = MessageTypeSignal, m_Data = None, m_Signal = Some signal\<rparr>"

definition IsData :: "'u Message \<Rightarrow> bool" where
  "IsData m \<longleftrightarrow> m_Type m = MessageTypeData"

definition IsSignal :: "'u Message \<Rightarrow> bool" where
  "IsSignal m \<longleftrightarrow> m_Type m = MessageTypeSignal"

text \<open>The argument \<open>now\<close> is what \<open>time.Now()\<close> returns.\<close>

definition NewBarrierSignal :: "time \<Rightarrow> u64 \<Rightarrow> u64 \<Rightarrow> bool \<Rightarrow> SignalMessage" where
  "NewBarrierSignal now epoch minEpoch thenStop =
     \<lparr>sm_SignalType = SignalTypeBarrier,
      sm_Barrier = Some \<lparr>bs_Epoch = epoch, bs_MinEpoch = minEpoch, bs_Timestamp = now,
                         bs_ThenStop = thenStop\<rparr>,
      sm_Watermark = None\<rparr>"

definition NewWatermarkSignal :: "time \<Rightarrow> SignalMessage" where
  "NewWatermarkSignal eventTime =
     \<lparr>sm_SignalType = SignalTypeWatermark, sm_Barrier = None,
      sm_Watermark = Some \<lparr>ws_EventTime = eventTime, ws_Idle = False\<rparr>\<rparr>"

definition NewIdleWatermarkSignal :: SignalMessage where
  "NewIdleWatermarkSignal =
     \<lparr>sm_SignalType = SignalTypeWatermark, sm_Barrier = None,
      sm_Watermark = Some \<lparr>ws_EventTime = zero_time, ws_Idle = True\<rparr>\<rparr>"

definition NewStopSignal :: SignalMessage where
  "NewStopSignal = \<lparr>sm_SignalType = SignalTypeStop, sm_Barrier = None, sm_Watermark = None\<rparr>"

section \<open>Control messages\<close>

datatype ControlType =
    ControlTypeCheckpointRequest
  | ControlTypePause
  | ControlTypeResume
  | ControlTypeTerminate

record CheckpointRequest =
  cr_Epoch :: u64
  cr_MinEpoch :: u64
  cr_ThenStop :: bool

record ControlMessage =
  cm_Type :: ControlType
  cm_Checkpoint :: "CheckpointRequest option"

definition NewCheckpointRequestControl :: "u64 \<Rightarrow> u64 \<Rightarrow> bool \<Rightarrow> ControlMessage" where
  "NewCheckpointRequestControl epoch minEpoch thenStop =
     \<lparr>cm_Type = ControlTypeCheckpointRequest,
      cm_Checkpoint = Some \<lparr>cr_Epoch = epoch, cr_MinEpoch = minEpoch, cr_ThenStop = thenStop\<rparr>\<rparr>"

definition NewPauseControl :: ControlMessage where
  "NewPauseControl = \<lparr>cm_Type = ControlTypePause, cm_Checkpoint = None\<rparr>"

definition NewResumeControl :: ControlMessage where
  "NewResumeControl = \<lparr>cm_Type = ControlTypeResume, cm_Checkpoint = None\<rparr>"

definition NewTerminateControl :: ControlMessage where
  "NewTerminateControl = \<lparr>cm_Type = ControlTypeTerminate, cm_Checkpoint = None\<rparr>"

section \<open>Well-formed messages\<close>

text \<open>
  The comments on the Go types as a predicate: exactly one of \<open>Data\<close> and \<open>Signal\<close> is set,
  the one the tag names, and of a signal the detail that its tag names and no other.
\<close>

definition signal_ok :: "SignalMessage \<Rightarrow> bool" where
  "signal_ok s \<longleftrightarrow>
     (sm_Barrier s \<noteq> None \<longleftrightarrow> sm_SignalType s = SignalTypeBarrier) \<and>
     (sm_Watermark s \<noteq> None \<longleftrightarrow> sm_SignalType s = SignalTypeWatermark)"

definition message_ok :: "'u Message \<Rightarrow> bool" where
  "message_ok m \<longleftrightarrow>
     (m_Data m \<noteq> None \<longleftrightarrow> IsData m) \<and> (m_Signal m \<noteq> None \<longleftrightarrow> IsSignal m) \<and>
     (case m_Signal m of None \<Rightarrow> True | Some s \<Rightarrow> signal_ok s)"

lemma signal_ok_new [simp]:
  "signal_ok (NewBarrierSignal now e me ts)" "signal_ok (NewWatermarkSignal t)"
  "signal_ok NewIdleWatermarkSignal" "signal_ok NewStopSignal"
  by (simp_all add: signal_ok_def NewBarrierSignal_def NewWatermarkSignal_def
      NewIdleWatermarkSignal_def NewStopSignal_def)

lemma message_ok_data [simp]: "message_ok (NewDataMessage k v t)"
  by (simp add: message_ok_def NewDataMessage_def IsData_def IsSignal_def)

lemma message_ok_signal [simp]: "message_ok (NewSignalMessage s) \<longleftrightarrow> signal_ok s"
  by (simp add: message_ok_def NewSignalMessage_def IsData_def IsSignal_def)

lemma IsData_IsSignal: "IsSignal m \<longleftrightarrow> \<not> IsData m"
  by (cases "m_Type m") (simp_all add: IsData_def IsSignal_def)

lemma Is_new [simp]:
  "IsData (NewDataMessage k v t)" "\<not> IsSignal (NewDataMessage k v t)"
  "IsSignal (NewSignalMessage s)" "\<not> IsData (NewSignalMessage s)"
  by (simp_all add: IsData_def IsSignal_def NewDataMessage_def NewSignalMessage_def)

text \<open>The messages the runtime recognises as barriers, watermarks and stop signals.\<close>

definition barrier_of :: "'u Message \<Rightarrow> BarrierSignal option" where
  "barrier_of m =
     (if IsSignal m then
        (case m_Signal m of None \<Rightarrow> None
         | Some s \<Rightarrow> if sm_SignalType s = SignalTypeBarrier then sm_Barrier s else None)
      else None)"

definition watermark_of :: "'u Message \<Rightarrow> WatermarkSignal option" where
  "watermark_of m =
     (if IsSignal m then
        (case m_Signal m of None \<Rightarrow> None
         | Some s \<Rightarrow> if sm_SignalType s = SignalTypeWatermark then sm_Watermark s else None)
      else None)"

lemma barrier_of_new [simp]:
  "barrier_of (NewDataMessage k v t) = None"
  "barrier_of (NewSignalMessage \<lparr>sm_SignalType = SignalTypeBarrier, sm_Barrier = b, sm_Watermark = w\<rparr>) = b"
  "barrier_of (NewSignalMessage NewStopSignal) = None"
  by (simp_all add: barrier_of_def NewDataMessage_def NewSignalMessage_def NewStopSignal_def
      IsSignal_def)

lemma watermark_of_new [simp]:
  "watermark_of (NewDataMessage k v t) = None"
  "watermark_of (NewSignalMessage \<lparr>sm_SignalType = SignalTypeWatermark, sm_Barrier = b, sm_Watermark = w\<rparr>) = w"
  "watermark_of (NewSignalMessage \<lparr>sm_SignalType = SignalTypeBarrier, sm_Barrier = b, sm_Watermark = w\<rparr>) = None"
  "watermark_of (NewSignalMessage NewStopSignal) = None"
  by (simp_all add: watermark_of_def NewDataMessage_def NewSignalMessage_def NewStopSignal_def
      IsSignal_def)

end
