(* ===== verification/State_Store.thy ===== *)
theory State_Store
  imports Message
begin

text \<open>
  The keyed state store of \<open>internal/engine/state_store.go\<close>: the interface \<open>StateStore\<close> as a
  locale with the laws its users rely on, the in-memory implementation, the snapshot format
  and its parser. \<open>Restore\<close> is characterised completely: it accepts exactly the
  concatenations of well-formed records and answers with the store those records spell out.
\<close>

unbundle bit_operations_syntax

section \<open>Big-endian lengths\<close>

definition appendUint32 :: "bytes \<Rightarrow> u32 \<Rightarrow> bytes" where
  "appendUint32 buf v =
     buf @ [ucast (drop_bit 24 v), ucast (drop_bit 16 v), ucast (drop_bit 8 v), ucast v]"

definition readUint32 :: "bytes \<Rightarrow> u32" where
  "readUint32 b =
     push_bit 24 (ucast (b ! 0)) OR push_bit 16 (ucast (b ! 1)) OR push_bit 8 (ucast (b ! 2))
       OR ucast (b ! 3)"

lemma length_appendUint32 [go_bytes, simp]: "length (appendUint32 buf v) = length buf + 4"
  by (simp add: appendUint32_def)

lemma appendUint32_append: "appendUint32 buf v = buf @ appendUint32 [] v"
  by (simp add: appendUint32_def)

lemma bit_byte_at32:
  "bit (push_bit k (ucast (ucast (drop_bit k v) :: byte) :: u32)) n
     \<longleftrightarrow> k \<le> n \<and> n < k + 8 \<and> n < 32 \<and> bit (v :: u32) n"
  by (auto simp: bit_simps)

lemma bit_low_byte32: "bit (ucast (ucast v :: byte) :: u32) n \<longleftrightarrow> n < 8 \<and> bit (v :: u32) n"
  by (auto simp: bit_simps)

lemma readUint32_append [go_bytes, simp]: "readUint32 (appendUint32 [] v @ rest) = v"
proof (rule bit_word_eqI)
  fix n assume "n < LENGTH(32)"
  then have n: "n < 32" by simp
  then have "n < 8 \<or> \<not> n < 8 \<and> n < 16 \<or> \<not> n < 16 \<and> n < 24 \<or> \<not> n < 24 \<and> n < 32"
    by blast
  with n show "bit (readUint32 (appendUint32 [] v @ rest)) n \<longleftrightarrow> bit v n"
    by (cases "bit v n")
      (auto simp add: readUint32_def appendUint32_def bit_or_iff bit_byte_at32 bit_low_byte32 not_less)
qed

text \<open>Conversely four bytes are what their value encodes to.\<close>

lemma bit_of_byte: "8 \<le> n \<Longrightarrow> \<not> bit (b :: byte) n"
  using bit_imp_le_length [of b n] by auto

lemma appendUint32_readUint32:
  assumes "4 \<le> length data"
  shows "appendUint32 [] (readUint32 data) = take 4 data"
proof -
  obtain a b c d rest where data: "data = a # b # c # d # rest"
    using assms by (auto simp: numeral_eq_Suc Suc_le_length_iff)
  have "ucast (drop_bit 24 (readUint32 data)) = a" "ucast (drop_bit 16 (readUint32 data)) = b"
    "ucast (drop_bit 8 (readUint32 data)) = c" "ucast (readUint32 data) = d"
    by (rule bit_word_eqI; auto simp: data readUint32_def bit_simps bit_of_byte)+
  then show ?thesis
    by (simp add: appendUint32_def data)
qed

text \<open>\<open>int(n)\<close> of a \<open>uint32\<close> is its value; \<open>uint32(len)\<close> keeps the low 32 bits.\<close>

definition u32_of_len :: "nat \<Rightarrow> u32" where
  "u32_of_len n = word_of_nat n"

lemma unat_u32_of_len [simp]: "n < 2 ^ 32 \<Longrightarrow> unat (u32_of_len n) = n"
  by (simp add: u32_of_len_def unat_of_nat)

lemma u32_of_len_unat [simp]: "u32_of_len (unat v) = v"
  by (simp add: u32_of_len_def)

lemma to_bytes_of_bytes [go_bytes, simp]: "to_bytes (of_bytes bs) = bs"
proof -
  have "byte_of_char (char_of_byte b) = b" for b
  proof -
    have "unat b < 256"
      using unsigned_less [of b, where ?'a = nat] by simp
    then have "(of_char (char_of (unat b)) :: nat) = unat b"
      by simp
    then show ?thesis
      unfolding byte_of_char_def char_of_byte_def by (metis of_nat_of_char of_nat_unat ucast_id)
  qed
  then show ?thesis
    by (simp add: to_bytes_def of_bytes_def o_def)
qed

section \<open>The interface\<close>

text \<open>
  What the users of a \<open>StateStore\<close> rely on. \<open>is_snapshot s b\<close> says that \<open>b\<close> is a possible
  result of \<open>Snapshot\<close> (the order of its records is open), \<open>fits s\<close> that keys and values are
  within the limits of the snapshot format.
\<close>

locale state_store =
  fixes get :: "'s \<Rightarrow> string \<Rightarrow> bytes option"
    and put :: "string \<Rightarrow> bytes \<Rightarrow> 's \<Rightarrow> 's"
    and del :: "string \<Rightarrow> 's \<Rightarrow> 's"
    and is_snapshot :: "'s \<Rightarrow> bytes \<Rightarrow> bool"
    and restore :: "bytes \<Rightarrow> 's \<Rightarrow> 's \<times> error option"
    and invar :: "'s \<Rightarrow> bool"
    and fits :: "'s \<Rightarrow> bool"
  assumes get_put: "invar s \<Longrightarrow> get (put k v s) = (get s)(k \<mapsto> v)"
    and get_del: "invar s \<Longrightarrow> get (del k s) = (get s)(k := None)"
    and invar_put: "invar s \<Longrightarrow> invar (put k v s)"
    and invar_del: "invar s \<Longrightarrow> invar (del k s)"
    and restore_snapshot:
      "invar s \<Longrightarrow> fits s \<Longrightarrow> is_snapshot s b \<Longrightarrow>
         invar (fst (restore b s0)) \<and> get (fst (restore b s0)) = get s \<and> snd (restore b s0) = None"
begin

text \<open>
  Recovery: a store restored from a snapshot answers every later read as the original would
  after the same writes.
\<close>

fun apply_writes :: "(string \<times> bytes option) list \<Rightarrow> 's \<Rightarrow> 's" where
  "apply_writes [] s = s"
| "apply_writes ((k, Some v) # ws) s = apply_writes ws (put k v s)"
| "apply_writes ((k, None) # ws) s = apply_writes ws (del k s)"

lemma apply_writes_cong:
  "invar s \<Longrightarrow> invar t \<Longrightarrow> get s = get t \<Longrightarrow> get (apply_writes ws s) = get (apply_writes ws t)"
  by (induction ws s arbitrary: t rule: apply_writes.induct)
    (simp_all add: get_put get_del invar_put invar_del)

lemma recovered_writes:
  assumes "invar s" "fits s" "is_snapshot s b"
  shows "get (apply_writes ws (fst (restore b s0))) = get (apply_writes ws s)"
  using assms restore_snapshot [OF assms, of s0] by (auto intro: apply_writes_cong)

end

section \<open>The in-memory store\<close>

record InMemoryStateStore =
  ims_data :: "(string, bytes) gomap"

definition NewInMemoryStateStore :: InMemoryStateStore where
  "NewInMemoryStateStore = \<lparr>ims_data = []\<rparr>"

text \<open>\<open>Get\<close> answers nil (\<open>None\<close>) for an absent key and a copy of the value otherwise.\<close>

definition Store_Get :: "InMemoryStateStore \<Rightarrow> string \<Rightarrow> bytes option" where
  "Store_Get s key = map_of (ims_data s) key"

definition Store_Put :: "string \<Rightarrow> bytes \<Rightarrow> InMemoryStateStore \<Rightarrow> InMemoryStateStore" where
  "Store_Put key value s = s\<lparr>ims_data := AList.update key value (ims_data s)\<rparr>"

definition Store_Delete :: "string \<Rightarrow> InMemoryStateStore \<Rightarrow> InMemoryStateStore" where
  "Store_Delete key s = s\<lparr>ims_data := AList.delete key (ims_data s)\<rparr>"

text \<open>One record \<open>[keyLen:4][key][valLen:4][val]\<close> appended to the buffer, as the loop body does.\<close>

definition append_record :: "bytes \<Rightarrow> string \<times> bytes \<Rightarrow> bytes" where
  "append_record buf kv =
     (let buf = appendUint32 buf (u32_of_len (length (fst kv)));
          buf = buf @ to_bytes (fst kv);
          buf = appendUint32 buf (u32_of_len (length (snd kv)))
      in buf @ snd kv)"

text \<open>
  \<open>Snapshot\<close>; \<open>ks\<close> is the order in which \<open>range\<close> visits the map. An empty store gives nil,
  which is the empty list here: a reader of a snapshot only looks at its length and bytes.
\<close>

definition Store_Snapshot :: "string list \<Rightarrow> InMemoryStateStore \<Rightarrow> bytes" where
  "Store_Snapshot ks s =
     (if length (ims_data s) = 0 then []
      else foldl append_record [] (map (\<lambda>k. (k, the (map_of (ims_data s) k))) ks))"

text \<open>
  The loop of \<open>Restore\<close>. It writes into the fresh map as it goes, so an error leaves the
  records read before it in the store.
\<close>

function restore_loop ::
  "bytes \<Rightarrow> nat \<Rightarrow> (string, bytes) gomap \<Rightarrow> (string, bytes) gomap \<times> error option" where
  "restore_loop data offset m =
     (if offset < length data then
        if offset + 4 > length data then (m, Some SnapshotCorrupt)
        else let keyLen = unat (readUint32 (drop offset data)); offset = offset + 4
        in if offset + keyLen > length data then (m, Some SnapshotCorrupt)
        else let key = of_bytes (take keyLen (drop offset data)); offset = offset + keyLen
        in if offset + 4 > length data then (m, Some SnapshotCorrupt)
        else let valLen = unat (readUint32 (drop offset data)); offset = offset + 4
        in if offset + valLen > length data then (m, Some SnapshotCorrupt)
        else let val = take valLen (drop offset data); offset = offset + valLen
        in restore_loop data offset (AList.update key val m)
      else (m, None))"
  by pat_completeness auto
termination
proof (relation "measure (\<lambda>(data, offset, m). length data - offset)", goal_cases)
  case 1
  show ?case by simp
next
  case 2
  from 2(1) 2(4) 2(7) 2(10) 2(13) show ?case by simp
qed

declare restore_loop.simps [simp del]

definition Store_Restore ::
  "bytes \<Rightarrow> InMemoryStateStore \<Rightarrow> InMemoryStateStore \<times> error option" where
  "Store_Restore data s =
     (if length data = 0 then (s\<lparr>ims_data := []\<rparr>, None)
      else let r = restore_loop data 0 [] in (s\<lparr>ims_data := fst r\<rparr>, snd r))"

section \<open>The format\<close>

definition record_bytes :: "string \<times> bytes \<Rightarrow> bytes" where
  "record_bytes kv = appendUint32 [] (u32_of_len (length (fst kv))) @ to_bytes (fst kv)
     @ appendUint32 [] (u32_of_len (length (snd kv))) @ snd kv"

definition record_fits :: "string \<times> bytes \<Rightarrow> bool" where
  "record_fits kv \<longleftrightarrow> length (fst kv) < 2 ^ 32 \<and> length (snd kv) < 2 ^ 32"

lemma append_record_bytes: "append_record buf kv = buf @ record_bytes kv"
  by (simp add: append_record_def record_bytes_def Let_def appendUint32_def)

lemma foldl_append_record: "foldl append_record buf kvs = buf @ concat (map record_bytes kvs)"
  by (induction kvs arbitrary: buf) (simp_all add: append_record_bytes)

lemma length_record_bytes: "length (record_bytes kv) = length (fst kv) + length (snd kv) + 8"
  by (simp add: record_bytes_def)

lemma record_bytes_nonempty [simp]: "record_bytes kv \<noteq> []"
  using length_record_bytes [of kv] by (metis add_is_0 length_0_conv zero_neq_numeral)

text \<open>One turn of the loop over a well-formed record.\<close>

lemma restore_loop_record:
  assumes "record_fits kv"
  shows "restore_loop (pre @ record_bytes kv @ rest) (length pre) m =
    restore_loop (pre @ record_bytes kv @ rest) (length (pre @ record_bytes kv))
      (AList.update (fst kv) (snd kv) m)"
proof -
  let ?d = "pre @ record_bytes kv @ rest" and ?kl = "length (fst kv)" and ?vl = "length (snd kv)"
  have d1: "drop (length pre) ?d = record_bytes kv @ rest"
    by simp
  have r1: "readUint32 (record_bytes kv @ rest) = u32_of_len ?kl"
    by (simp add: record_bytes_def)
  have d2: "drop (length pre + 4) ?d
      = to_bytes (fst kv) @ appendUint32 [] (u32_of_len ?vl) @ snd kv @ rest"
    by (simp add: record_bytes_def)
  have d3: "drop (length pre + 4 + ?kl) ?d = appendUint32 [] (u32_of_len ?vl) @ snd kv @ rest"
    by (simp add: record_bytes_def)
  have d4: "drop (length pre + 4 + ?kl + 4) ?d = snd kv @ rest"
    by (simp add: record_bytes_def)
  have len: "length ?d = length pre + 4 + ?kl + 4 + ?vl + length rest"
    by (simp add: length_record_bytes)
  have kl: "unat (u32_of_len ?kl) = ?kl" and vl: "unat (u32_of_len ?vl) = ?vl"
    using assms by (simp_all add: record_fits_def)
  show ?thesis
    unfolding restore_loop.simps [of ?d "length pre"] Let_def d1 r1 kl d2 d3 readUint32_append vl d4 len
    by (simp add: length_record_bytes ac_simps)
qed

lemma restore_loop_records:
  assumes "list_all record_fits kvs"
  shows "restore_loop (pre @ concat (map record_bytes kvs)) (length pre) m =
    (fold (\<lambda>kv. AList.update (fst kv) (snd kv)) kvs m, None)"
  using assms
proof (induction kvs arbitrary: pre m)
  case Nil
  then show ?case by (simp add: restore_loop.simps [of pre])
next
  case (Cons kv kvs)
  from Cons.prems have "record_fits kv" by simp
  from restore_loop_record [OF this, of pre "concat (map record_bytes kvs)" m]
    Cons.IH [of "pre @ record_bytes kv" "AList.update (fst kv) (snd kv) m"] Cons.prems
  show ?case by simp
qed

text \<open>Conversely, a turn of the loop that does not fail has read a well-formed record.\<close>

lemma restore_loop_inv:
  assumes "restore_loop data offset m = (m', None)" "offset < length data"
  obtains kv where "record_fits kv"
    "drop offset data = record_bytes kv @ drop (offset + length (record_bytes kv)) data"
    "restore_loop data (offset + length (record_bytes kv)) (AList.update (fst kv) (snd kv) m) = (m', None)"
proof -
  define kl where "kl = unat (readUint32 (drop offset data))"
  define vl where "vl = unat (readUint32 (drop (offset + 4 + kl) data))"
  define key where "key = of_bytes (take kl (drop (offset + 4) data))"
  define val where "val = take vl (drop (offset + 4 + kl + 4) data)"
  note unfold = assms(1) [unfolded restore_loop.simps [of data offset] Let_def, folded kl_def,
      folded vl_def, folded key_def, folded val_def]
  from unfold assms(2) have b: "offset + 4 + kl + 4 + vl \<le> length data"
    and rec: "restore_loop data (offset + 4 + kl + 4 + vl) (AList.update key val m) = (m', None)"
    by (auto split: if_splits)
  have len: "length key = kl" "length val = vl"
    using b by (auto simp: key_def val_def of_bytes_def)
  have lim: "kl < 2 ^ 32" "vl < 2 ^ 32"
    unfolding kl_def vl_def using unsigned_less [where ?'a = nat and ?'b = 32] by auto
  have e1: "appendUint32 [] (u32_of_len kl) = take 4 (drop offset data)"
    unfolding kl_def using b by (simp add: appendUint32_readUint32)
  have e2: "appendUint32 [] (u32_of_len vl) = take 4 (drop (offset + 4 + kl) data)"
    unfolding vl_def using b by (simp add: appendUint32_readUint32)
  have rb: "record_bytes (key, val) = take 4 (drop offset data) @ take kl (drop (offset + 4) data)
      @ take 4 (drop (offset + 4 + kl) data) @ take vl (drop (offset + 4 + kl + 4) data)"
    by (simp add: record_bytes_def len e1 e2) (simp add: key_def val_def)
  have lrb: "length (record_bytes (key, val)) = 4 + kl + 4 + vl"
    by (simp add: length_record_bytes len)
  have split: "drop o1 data = take n (drop o1 data) @ drop (o1 + n) data" for o1 n
    by (metis add.commute append_take_drop_id drop_drop)
  have "drop offset data = record_bytes (key, val) @ drop (offset + 4 + kl + 4 + vl) data"
    unfolding rb append_assoc using split [of offset 4] split [of "offset + 4" kl]
      split [of "offset + 4 + kl" 4] split [of "offset + 4 + kl + 4" vl] by metis
  then show ?thesis
    using that [of "(key, val)"] lim rec len by (simp add: lrb record_fits_def add.assoc)
qed

lemma restore_loop_sound:
  assumes "restore_loop data offset m = (m', None)" "offset \<le> length data"
  shows "\<exists>kvs. list_all record_fits kvs \<and> drop offset data = concat (map record_bytes kvs)"
  using assms
proof (induction "length data - offset" arbitrary: offset m rule: less_induct)
  case less
  show ?case
  proof (cases "offset < length data")
    case False
    with less.prems(2) show ?thesis by (intro exI [of _ "[]"]) simp
  next
    case True
    from less.prems(1) True obtain kv where kv: "record_fits kv"
      and d: "drop offset data = record_bytes kv @ drop (offset + length (record_bytes kv)) data"
      and rec: "restore_loop data (offset + length (record_bytes kv)) (AList.update (fst kv) (snd kv) m) = (m', None)"
      by (rule restore_loop_inv)
    let ?o = "offset + length (record_bytes kv)"
    have "length (drop offset data) \<ge> length (record_bytes kv)"
      by (metis d le_add1 length_append)
    then have o: "?o \<le> length data" using True by simp
    have "length data - ?o < length data - offset"
      using True length_record_bytes [of kv] by simp
    from less.hyps [OF this rec o] obtain kvs where "list_all record_fits kvs"
      "drop ?o data = concat (map record_bytes kvs)" by blast
    with kv d show ?thesis by (intro exI [of _ "kv # kvs"]) simp
  qed
qed

lemma restore_loop_error:
  "restore_loop data offset m = (m', Some e) \<Longrightarrow> e = SnapshotCorrupt"
proof (induction "length data - offset" arbitrary: offset m rule: less_induct)
  case less
  from less.prems show ?case
    unfolding restore_loop.simps [of data offset m] Let_def
    by (auto split: if_splits intro: less.hyps [rotated])
qed

section \<open>The store implements the interface\<close>

definition Store_ok :: "InMemoryStateStore \<Rightarrow> bool" where
  "Store_ok s \<longleftrightarrow> gomap_ok (ims_data s)"

definition Store_fits :: "InMemoryStateStore \<Rightarrow> bool" where
  "Store_fits s \<longleftrightarrow> list_all record_fits (ims_data s)"

definition Store_is_snapshot :: "InMemoryStateStore \<Rightarrow> bytes \<Rightarrow> bool" where
  "Store_is_snapshot s b \<longleftrightarrow> (\<exists>ks. range_order ks (ims_data s) \<and> b = Store_Snapshot ks s)"

lemma Store_Restore_records:
  assumes "list_all record_fits kvs"
  shows "Store_Restore (concat (map record_bytes kvs)) s =
    (s\<lparr>ims_data := fold (\<lambda>kv. AList.update (fst kv) (snd kv)) kvs []\<rparr>, None)"
proof (cases kvs)
  case Nil
  then show ?thesis by (simp add: Store_Restore_def)
next
  case (Cons kv kvs')
  then show ?thesis
    using restore_loop_records [OF assms, of "[]" "[]"] by (simp add: Store_Restore_def Let_def)
qed

lemma map_of_fold_records:
  "map_of (fold (\<lambda>kv. AList.update (fst kv) (snd kv)) kvs m0) = map_of m0 ++ map_of (rev kvs)"
  by (induction kvs arbitrary: m0) (auto simp: go_maps map_add_def split: option.splits)

lemma gomap_ok_fold_records:
  "gomap_ok m0 \<Longrightarrow> gomap_ok (fold (\<lambda>kv. AList.update (fst kv) (snd kv)) kvs m0)"
  by (induction kvs arbitrary: m0) auto

lemma map_of_range_order:
  assumes "range_order ks m"
  shows "map_of (map (\<lambda>k. (k, the (map_of m k))) ks) = map_of m"
proof
  fix k
  show "map_of (map (\<lambda>k. (k, the (map_of m k))) ks) k = map_of m k"
    using range_order_mem [OF assms, of k] by (auto simp: map_of_map_restrict restrict_map_def)
qed

lemma Store_snapshot_records:
  assumes "Store_ok s" "range_order ks (ims_data s)"
  shows "Store_Snapshot ks s = concat (map record_bytes (map (\<lambda>k. (k, the (map_of (ims_data s) k))) ks))"
  using assms by (auto simp: Store_Snapshot_def foldl_append_record range_order_def)

lemma Store_Restore_Snapshot:
  assumes "Store_ok s" "Store_fits s" "range_order ks (ims_data s)"
  shows "Store_ok (fst (Store_Restore (Store_Snapshot ks s) s0))"
    and "Store_Get (fst (Store_Restore (Store_Snapshot ks s) s0)) = Store_Get s"
    and "snd (Store_Restore (Store_Snapshot ks s) s0) = None"
proof -
  let ?kvs = "map (\<lambda>k. (k, the (map_of (ims_data s) k))) ks"
  have fits: "list_all record_fits ?kvs"
    unfolding list_all_iff
  proof
    fix kv assume "kv \<in> set ?kvs"
    then obtain k where k: "k \<in> set ks" "kv = (k, the (map_of (ims_data s) k))" by auto
    then obtain v where "map_of (ims_data s) k = Some v"
      using range_order_mem [OF assms(3)] by auto
    with k have "kv \<in> set (ims_data s)" by (simp add: map_of_SomeD)
    with assms(2) show "record_fits kv" by (simp add: Store_fits_def list_all_iff)
  qed
  have d: "distinct (map fst ?kvs)"
    using assms(3) by (simp add: range_order_def o_def)
  have eq: "map_of (rev ?kvs) = map_of ?kvs"
    using d by (rule map_of_rev_distinct)
  note r = Store_Restore_records [OF fits, of s0, folded Store_snapshot_records [OF assms(1,3)]]
  show "Store_ok (fst (Store_Restore (Store_Snapshot ks s) s0))"
    by (simp add: r Store_ok_def gomap_ok_fold_records)
  show "snd (Store_Restore (Store_Snapshot ks s) s0) = None"
    by (simp add: r)
  show "Store_Get (fst (Store_Restore (Store_Snapshot ks s) s0)) = Store_Get s"
    by (rule ext) (simp only: r Store_Get_def, simp add: map_of_fold_records eq map_of_range_order [OF assms(3)])
qed

interpretation mem: state_store Store_Get Store_Put Store_Delete Store_is_snapshot Store_Restore
  Store_ok Store_fits
proof unfold_locales
  fix s :: InMemoryStateStore and b s0
  assume "Store_ok s" "Store_fits s" "Store_is_snapshot s b"
  then show "Store_ok (fst (Store_Restore b s0)) \<and>
      Store_Get (fst (Store_Restore b s0)) = Store_Get s \<and> snd (Store_Restore b s0) = None"
    by (auto simp: Store_is_snapshot_def Store_Restore_Snapshot)
qed (auto simp: Store_Get_def Store_Put_def Store_Delete_def Store_ok_def go_maps)

section \<open>Properties\<close>

text \<open>
  C13. A store restored from a snapshot, whatever the order in which the map was visited, reports
  no error and answers every read, also after any further sequence of writes and deletions,
  exactly as the snapshotted store does. Keys and values are shorter than 4 GiB, the limit of
  the four-byte length fields.
\<close>

theorem Store_recovery:
  assumes "Store_ok s" "Store_fits s" "range_order ks (ims_data s)"
  shows "snd (Store_Restore (Store_Snapshot ks s) s0) = None \<and>
    Store_Get (mem.apply_writes ws (fst (Store_Restore (Store_Snapshot ks s) s0)))
      = Store_Get (mem.apply_writes ws s)"
proof -
  have "Store_is_snapshot s (Store_Snapshot ks s)"
    using assms(3) by (auto simp: Store_is_snapshot_def)
  then show ?thesis
    using mem.restore_snapshot mem.recovered_writes assms(1,2) by blast
qed

theorem Store_recovery_witness:
  "snd (Store_Restore (Store_Snapshot [''b'', ''a''] \<lparr>ims_data = [(''a'', [1, 2]), (''b'', [])]\<rparr>)
       NewInMemoryStateStore) = None \<and>
   Store_Get (mem.apply_writes [(''a'', None)]
     (fst (Store_Restore (Store_Snapshot [''b'', ''a''] \<lparr>ims_data = [(''a'', [1, 2]), (''b'', [])]\<rparr>)
       NewInMemoryStateStore)))
     = Store_Get (mem.apply_writes [(''a'', None)] \<lparr>ims_data = [(''a'', [1, 2]), (''b'', [])]\<rparr>)"
proof (rule Store_recovery)
  show "Store_ok \<lparr>ims_data = [(''a'', [1, 2]), (''b'', [])]\<rparr>"
    by (simp add: Store_ok_def)
  show "Store_fits \<lparr>ims_data = [(''a'', [1, 2]), (''b'', [])]\<rparr>"
    by (simp add: Store_fits_def record_fits_def)
  show "range_order [''b'', ''a''] (ims_data \<lparr>ims_data = [(''a'', [1, 2]), (''b'', [])]\<rparr>)"
    by (auto simp: range_order_def)
qed

text \<open>
  C14. \<open>Restore\<close> accepts a byte sequence exactly when it is a concatenation of well-formed
  records \<open>[keyLen:4][key][valLen:4][val]\<close>, and then the store holds for each key the value of
  its last record; every other byte sequence is reported as a corrupt snapshot. No input makes
  it read out of range.
\<close>

theorem Store_Restore_accepts:
  "(\<exists>kvs. list_all record_fits kvs \<and> data = concat (map record_bytes kvs) \<and>
      snd (Store_Restore data s) = None \<and>
      Store_Get (fst (Store_Restore data s)) = map_of (rev kvs)) \<or>
   (\<nexists>kvs. list_all record_fits kvs \<and> data = concat (map record_bytes kvs)) \<and>
      snd (Store_Restore data s) = Some SnapshotCorrupt"
proof (cases "\<exists>kvs. list_all record_fits kvs \<and> data = concat (map record_bytes kvs)")
  case True
  then obtain kvs where "list_all record_fits kvs" "data = concat (map record_bytes kvs)" by blast
  then show ?thesis
    using Store_Restore_records [of kvs s]
    by (intro disjI1 exI [of _ kvs]) (auto simp: Store_Get_def map_of_fold_records)
next
  case False
  have "data \<noteq> []"
  proof
    assume "data = []"
    then have "list_all record_fits [] \<and> data = concat (map record_bytes [])" by simp
    with False show False by blast
  qed
  moreover have "snd (restore_loop data 0 []) \<noteq> None"
    using False restore_loop_sound [of data 0 "[]"] by (metis drop_0 le0 prod.collapse)
  moreover have "e = SnapshotCorrupt" if "snd (restore_loop data 0 []) = Some e" for e
    using restore_loop_error [of data 0 "[]"] that by (metis prod.collapse)
  ultimately show ?thesis
    using False by (auto simp: Store_Restore_def Let_def)
qed

end
