(* ===== verification/Timer.thy ===== *)
theory Timer
  imports State_Store
begin

text \<open>
  The timer manager of \<open>internal/engine/timer.go\<close>: timers kept sorted by fire time with
  \<open>sort.Search\<close>, the expired prefix popped in one slice, the snapshot format and the envelope
  that joins an operator's state with its timers. The locale \<open>timer_queue\<close> is what the node
  runtime relies on.
\<close>

record timerEntry =
  te_Name :: string
  te_FireAt :: time

record timerManager =
  tm_timers :: "timerEntry list"

definition newTimerManager :: timerManager where
  "newTimerManager = \<lparr>tm_timers = []\<rparr>"

section \<open>Registering and popping\<close>

text \<open>
  The slice surgery of \<open>Register\<close>: grow the slice by one zero entry, shift the tail with
  \<open>copy(s[idx+1:], s[idx:])\<close>, which moves as many entries as fit, and write the entry.
\<close>

definition insert_at :: "nat \<Rightarrow> timerEntry \<Rightarrow> timerEntry list \<Rightarrow> timerEntry list" where
  "insert_at idx entry timers =
     (let grown = timers @ [\<lparr>te_Name = [], te_FireAt = zero_time\<rparr>];
          shifted = take (idx + 1) grown @ take (length grown - (idx + 1)) (drop idx grown)
      in shifted[idx := entry])"

definition timer_Register :: "string \<Rightarrow> time \<Rightarrow> timerManager \<Rightarrow> timerManager" where
  "timer_Register name fireAt tm =
     (let entry = \<lparr>te_Name = name, te_FireAt = fireAt\<rparr>;
          idx = sort_Search (length (tm_timers tm)) (\<lambda>i. fireAt < te_FireAt (tm_timers tm ! i))
      in tm\<lparr>tm_timers := insert_at idx entry (tm_timers tm)\<rparr>)"

definition timer_PopExpired :: "time \<Rightarrow> timerManager \<Rightarrow> timerEntry list \<times> timerManager" where
  "timer_PopExpired now tm =
     (if length (tm_timers tm) = 0 then ([], tm)
      else let idx = sort_Search (length (tm_timers tm)) (\<lambda>i. now < te_FireAt (tm_timers tm ! i))
           in if idx = 0 then ([], tm)
              else (take idx (tm_timers tm), tm\<lparr>tm_timers := drop idx (tm_timers tm)\<rparr>))"

definition timer_Peek :: "timerManager \<Rightarrow> timerEntry option" where
  "timer_Peek tm = (if length (tm_timers tm) = 0 then None else Some (tm_timers tm ! 0))"

definition timer_Len :: "timerManager \<Rightarrow> nat" where
  "timer_Len tm = length (tm_timers tm)"

definition timers_ok :: "timerManager \<Rightarrow> bool" where
  "timers_ok tm \<longleftrightarrow> sorted (map te_FireAt (tm_timers tm))"

lemma insert_at_eq:
  assumes "idx \<le> length xs"
  shows "insert_at idx e xs = take idx xs @ e # drop idx xs"
proof (cases "idx = length xs")
  case True
  then show ?thesis by (simp add: insert_at_def)
next
  case False
  let ?g = "xs @ [\<lparr>te_Name = [], te_FireAt = zero_time\<rparr>]"
  from False assms have lt: "idx < length xs" by simp
  then have "take (idx + 1) ?g = take idx xs @ [xs ! idx]"
    by (simp add: take_Suc_conv_app_nth)
  moreover have "take (length ?g - (idx + 1)) (drop idx ?g) = drop idx xs"
    using lt by simp
  ultimately show ?thesis
    using lt unfolding insert_at_def Let_def by (simp only: list_update_append) simp
qed

text \<open>On a sorted manager the new entry goes after all entries with an equal or earlier time.\<close>

lemma timer_Register_eq:
  assumes "timers_ok tm"
  shows "tm_timers (timer_Register name fireAt tm) =
    takeWhile (\<lambda>t. te_FireAt t \<le> fireAt) (tm_timers tm)
      @ \<lparr>te_Name = name, te_FireAt = fireAt\<rparr> # dropWhile (\<lambda>t. te_FireAt t \<le> fireAt) (tm_timers tm)"
proof -
  let ?tw = "takeWhile (\<lambda>t. te_FireAt t \<le> fireAt) (tm_timers tm)"
  have idx: "sort_Search (length (tm_timers tm)) (\<lambda>i. fireAt < te_FireAt (tm_timers tm ! i)) = length ?tw"
    using assms by (auto simp: timers_ok_def intro: sort_Search_sorted)
  show ?thesis
    by (simp add: timer_Register_def idx Let_def insert_at_eq length_takeWhile_le
        takeWhile_eq_take [symmetric] dropWhile_eq_drop [symmetric])
qed

lemma timer_Register_filter:
  assumes "timers_ok tm"
  shows "tm_timers (timer_Register name fireAt tm) =
    filter (\<lambda>t. te_FireAt t \<le> fireAt) (tm_timers tm)
      @ \<lparr>te_Name = name, te_FireAt = fireAt\<rparr> # filter (\<lambda>t. \<not> te_FireAt t \<le> fireAt) (tm_timers tm)"
  using assms unfolding timer_Register_eq [OF assms] timers_ok_def
  by (simp only: takeWhile_sorted_filter dropWhile_sorted_filter)

lemma timer_Register_ok: "timers_ok tm \<Longrightarrow> timers_ok (timer_Register name fireAt tm)"
  by (auto simp: timers_ok_def timer_Register_filter sorted_append sorted_filter)

lemma timer_Register_mset:
  "timers_ok tm \<Longrightarrow> mset (tm_timers (timer_Register name fireAt tm))
     = add_mset \<lparr>te_Name = name, te_FireAt = fireAt\<rparr> (mset (tm_timers tm))"
  by (metis timer_Register_eq mset.simps(2) mset_append takeWhile_dropWhile_id union_mset_add_mset_right)

lemma timer_PopExpired_eq:
  assumes "timers_ok tm"
  shows "timer_PopExpired now tm =
    (filter (\<lambda>t. te_FireAt t \<le> now) (tm_timers tm),
     tm\<lparr>tm_timers := filter (\<lambda>t. \<not> te_FireAt t \<le> now) (tm_timers tm)\<rparr>)"
proof -
  let ?tw = "takeWhile (\<lambda>t. te_FireAt t \<le> now) (tm_timers tm)"
  have idx: "sort_Search (length (tm_timers tm)) (\<lambda>i. now < te_FireAt (tm_timers tm ! i)) = length ?tw"
    using assms by (auto simp: timers_ok_def intro: sort_Search_sorted)
  have s: "sorted (map te_FireAt (tm_timers tm))"
    using assms by (simp add: timers_ok_def)
  have split: "take (length ?tw) (tm_timers tm) = filter (\<lambda>t. te_FireAt t \<le> now) (tm_timers tm)"
    "drop (length ?tw) (tm_timers tm) = filter (\<lambda>t. \<not> te_FireAt t \<le> now) (tm_timers tm)"
    by (metis takeWhile_eq_take takeWhile_sorted_filter [OF s],
        metis dropWhile_eq_drop dropWhile_sorted_filter [OF s])
  show ?thesis
  proof (cases "length ?tw = 0")
    case True
    then show ?thesis
      using split by (auto simp: timer_PopExpired_def idx Let_def)
  next
    case False
    then show ?thesis
      using split by (auto simp: timer_PopExpired_def idx Let_def)
  qed
qed

lemma timer_PopExpired_ok: "timers_ok tm \<Longrightarrow> timers_ok (snd (timer_PopExpired now tm))"
  by (simp add: timer_PopExpired_eq timers_ok_def sorted_filter)

section \<open>The interface of the runtime\<close>

text \<open>
  A timer queue as the runtime sees it: \<open>pending\<close> lists the timers in the order in which they
  fire. Whatever was registered fires, exactly once, not before its time, in order of time.
\<close>

locale timer_queue =
  fixes reg :: "string \<Rightarrow> time \<Rightarrow> 'q \<Rightarrow> 'q"
    and pop :: "time \<Rightarrow> 'q \<Rightarrow> timerEntry list \<times> 'q"
    and peek :: "'q \<Rightarrow> timerEntry option"
    and pending :: "'q \<Rightarrow> timerEntry list"
    and invar :: "'q \<Rightarrow> bool"
  assumes invar_sorted: "invar q \<Longrightarrow> sorted (map te_FireAt (pending q))"
    and invar_reg: "invar q \<Longrightarrow> invar (reg n t q)"
    and invar_pop: "invar q \<Longrightarrow> invar (snd (pop now q))"
    and pending_reg:
      "invar q \<Longrightarrow> mset (pending (reg n t q)) = add_mset \<lparr>te_Name = n, te_FireAt = t\<rparr> (mset (pending q))"
    and pop_expired: "invar q \<Longrightarrow> fst (pop now q) = filter (\<lambda>e. te_FireAt e \<le> now) (pending q)"
    and pop_rest: "invar q \<Longrightarrow> pending (snd (pop now q)) = filter (\<lambda>e. \<not> te_FireAt e \<le> now) (pending q)"
    and peek_eq: "invar q \<Longrightarrow> peek q = (case pending q of [] \<Rightarrow> None | e # _ \<Rightarrow> Some e)"
begin

lemma peek_earliest: "invar q \<Longrightarrow> peek q = Some e \<Longrightarrow> \<forall>e' \<in> set (pending q). te_FireAt e \<le> te_FireAt e'"
  using invar_sorted [of q] by (auto simp: peek_eq split: list.splits)

text \<open>Popping empties what has expired: a second pop at the same time finds nothing.\<close>

lemma pop_again: "invar q \<Longrightarrow> fst (pop now (snd (pop now q))) = []"
  by (simp add: pop_expired pop_rest invar_pop filter_empty_conv)

lemma pop_empty_iff: "invar q \<Longrightarrow> fst (pop now q) = [] \<longleftrightarrow> (\<forall>e. peek q = Some e \<longrightarrow> now < te_FireAt e)"
  using invar_sorted [of q]
  by (cases "pending q") (auto simp: pop_expired peek_eq filter_empty_conv)

text \<open>
  A history of registrations and pops: \<open>fired\<close> collects what the pops returned. Nothing is lost
  and nothing fires twice: the fired timers and the pending ones are together the registered ones.
\<close>

fun timer_history :: "(string \<times> time) option list \<Rightarrow> time list \<Rightarrow> 'q \<Rightarrow> timerEntry list \<times> 'q" where
  "timer_history [] clock q = ([], q)"
| "timer_history (Some (n, t) # es) clock q = timer_history es clock (reg n t q)"
| "timer_history (None # es) [] q = timer_history es [] q"
| "timer_history (None # es) (now # clock) q =
     (let p = pop now q; r = timer_history es clock (snd p) in (fst p @ fst r, snd r))"

lemma timer_history_invar: "invar q \<Longrightarrow> invar (snd (timer_history es clock q))"
  by (induction es clock q rule: timer_history.induct) (simp_all add: Let_def invar_reg invar_pop)

lemma timer_history_conserves:
  "invar q \<Longrightarrow>
   mset (fst (timer_history es clock q)) + mset (pending (snd (timer_history es clock q)))
     = mset (pending q) + mset (map (\<lambda>(n, t). \<lparr>te_Name = n, te_FireAt = t\<rparr>) (map the (filter (\<lambda>e. e \<noteq> None) es)))"
proof (induction es clock q rule: timer_history.induct)
  case (4 es now clock q)
  have "mset (pending q) = mset (fst (pop now q)) + mset (pending (snd (pop now q)))"
    using 4(2) by (simp add: pop_expired pop_rest)
  with 4 show ?case by (simp add: Let_def invar_pop)
qed (simp_all add: invar_reg pending_reg)

end

interpretation tq: timer_queue timer_Register timer_PopExpired timer_Peek tm_timers timers_ok
proof (unfold_locales, goal_cases)
  case 1
  then show ?case by (simp only: timers_ok_def)
next
  case 7
  then show ?case by (simp add: timer_Peek_def split: list.splits)
next
  case (3 q now)
  then show ?case by (rule timer_PopExpired_ok)
qed (simp_all add: timer_Register_ok timer_Register_mset timer_PopExpired_eq)

section \<open>Snapshots\<close>

definition append_timer :: "bytes \<Rightarrow> timerEntry \<Rightarrow> bytes" where
  "append_timer buf t =
     (let buf = appendUint32 buf (u32_of_len (length (te_Name t)));
          buf = buf @ to_bytes (te_Name t);
          ns = PutUint64 (UnixNano (te_FireAt t))
      in buf @ ns)"

definition timer_Snapshot :: "timerManager \<Rightarrow> bytes" where
  "timer_Snapshot tm =
     (if length (tm_timers tm) = 0 then []
      else foldl append_timer (appendUint32 [] (u32_of_len (length (tm_timers tm)))) (tm_timers tm))"

text \<open>The loop of \<open>Restore\<close>: \<open>n\<close> entries are still to be read at \<open>offset\<close>.\<close>

primrec timer_restore_loop :: "bytes \<Rightarrow> nat \<Rightarrow> nat \<Rightarrow> timerEntry list \<Rightarrow> timerEntry list \<times> error option" where
  "timer_restore_loop data 0 offset timers = (timers, None)"
| "timer_restore_loop data (Suc n) offset timers =
     (if offset + 4 > length data then (timers, Some SnapshotCorrupt)
      else let nameLen = unat (readUint32 (drop offset data)); offset = offset + 4
      in if offset + nameLen > length data then (timers, Some SnapshotCorrupt)
      else let name = of_bytes (take nameLen (drop offset data)); offset = offset + nameLen
      in if offset + 8 > length data then (timers, Some SnapshotCorrupt)
      else let ns = Uint64 (drop offset data); offset = offset + 8
      in timer_restore_loop data n offset (timers @ [\<lparr>te_Name = name, te_FireAt = Unix ns\<rparr>]))"

definition timer_Restore :: "bytes \<Rightarrow> timerManager \<Rightarrow> timerManager \<times> error option" where
  "timer_Restore data tm =
     (if length data = 0 then (tm\<lparr>tm_timers := []\<rparr>, None)
      else if length data < 4 then (tm\<lparr>tm_timers := []\<rparr>, Some SnapshotCorrupt)
      else let count = unat (readUint32 (take 4 data));
               r = timer_restore_loop data count 4 []
           in (tm\<lparr>tm_timers := fst r\<rparr>, snd r))"

definition timer_bytes :: "timerEntry \<Rightarrow> bytes" where
  "timer_bytes t = appendUint32 [] (u32_of_len (length (te_Name t))) @ to_bytes (te_Name t)
     @ PutUint64 (UnixNano (te_FireAt t))"

text \<open>What the format can carry: short names and instants within the range of \<open>UnixNano\<close>.\<close>

definition timer_fits :: "timerEntry \<Rightarrow> bool" where
  "timer_fits t \<longleftrightarrow> length (te_Name t) < 2 ^ 32 \<and> unix_nano_ok (te_FireAt t)"

lemma append_timer_bytes: "append_timer buf t = buf @ timer_bytes t"
  by (simp add: append_timer_def timer_bytes_def Let_def appendUint32_def)

lemma foldl_append_timer: "foldl append_timer buf ts = buf @ concat (map timer_bytes ts)"
  by (induction ts arbitrary: buf) (simp_all add: append_timer_bytes)

lemma length_timer_bytes: "length (timer_bytes t) = length (te_Name t) + 12"
  by (simp add: timer_bytes_def)

lemma timer_restore_step:
  assumes "timer_fits t"
  shows "timer_restore_loop (pre @ timer_bytes t @ rest) (Suc n) (length pre) acc =
    timer_restore_loop (pre @ timer_bytes t @ rest) n (length (pre @ timer_bytes t)) (acc @ [t])"
proof -
  let ?d = "pre @ timer_bytes t @ rest" and ?nl = "length (te_Name t)"
  have r1: "readUint32 (drop (length pre) ?d) = u32_of_len ?nl"
    by (simp add: timer_bytes_def)
  have d2: "drop (length pre + 4) ?d = to_bytes (te_Name t) @ PutUint64 (UnixNano (te_FireAt t)) @ rest"
    by (simp add: timer_bytes_def)
  have d3: "drop (length pre + 4 + ?nl) ?d = PutUint64 (UnixNano (te_FireAt t)) @ rest"
    by (simp add: timer_bytes_def)
  have len: "length ?d = length pre + 4 + ?nl + 8 + length rest"
    by (simp add: length_timer_bytes)
  have nl: "unat (u32_of_len ?nl) = ?nl" and ns: "Unix (UnixNano (te_FireAt t)) = te_FireAt t"
    using assms by (simp_all add: timer_fits_def)
  show ?thesis
    unfolding timer_restore_loop.simps(2) Let_def r1 nl d2 d3 Uint64_PutUint64 ns len
    by (cases t) (simp add: length_timer_bytes ac_simps)
qed

lemma timer_restore_entries:
  assumes "list_all timer_fits ts"
  shows "timer_restore_loop (pre @ concat (map timer_bytes ts) @ rest) (length ts) (length pre) acc
    = (acc @ ts, None)"
  using assms
proof (induction ts arbitrary: pre acc)
  case Nil
  then show ?case by simp
next
  case (Cons t ts)
  from Cons.prems have "timer_fits t" by simp
  from timer_restore_step [OF this, of pre "concat (map timer_bytes ts) @ rest" "length ts" acc]
    Cons.IH [of "pre @ timer_bytes t" "acc @ [t]"] Cons.prems
  show ?case by simp
qed

lemma timer_Restore_Snapshot:
  assumes "list_all timer_fits (tm_timers tm)" "length (tm_timers tm) < 2 ^ 32"
  shows "timer_Restore (timer_Snapshot tm) tm0 = (tm0\<lparr>tm_timers := tm_timers tm\<rparr>, None)"
proof (cases "tm_timers tm = []")
  case True
  then show ?thesis by (simp add: timer_Restore_def timer_Snapshot_def)
next
  case False
  let ?c = "appendUint32 [] (u32_of_len (length (tm_timers tm)))"
  have snap: "timer_Snapshot tm = ?c @ concat (map timer_bytes (tm_timers tm))"
    using False by (simp add: timer_Snapshot_def foldl_append_timer)
  have count: "unat (readUint32 (take 4 (timer_Snapshot tm))) = length (tm_timers tm)"
    using assms(2) readUint32_append [of _ "[]"] by (simp add: snap)
  show ?thesis
    using timer_restore_entries [OF assms(1), of ?c "[]" "[]"]
    by (simp add: timer_Restore_def count Let_def) (simp add: snap appendUint32_def)
qed

lemma timer_restore_loop_error:
  "timer_restore_loop data n offset acc = (ts, Some e) \<Longrightarrow> e = SnapshotCorrupt"
  by (induction n arbitrary: offset acc) (auto simp: Let_def split: if_splits)

section \<open>The checkpoint envelope\<close>

text \<open>
  \<open>encodeTimerCheckpoint\<close> writes \<open>[timerStateLen:4][timerState][operatorState]\<close>.
  \<open>decodeTimerCheckpoint\<close> compares in \<open>int\<close> but slices with \<open>4 + timerLen\<close> computed in
  \<open>uint32\<close>; a slice whose bounds are out of order panics, which is the outcome \<open>None\<close> here.
\<close>

definition encodeTimerCheckpoint :: "bytes \<Rightarrow> bytes \<Rightarrow> bytes" where
  "encodeTimerCheckpoint opState timerState =
     appendUint32 [] (u32_of_len (length timerState)) @ timerState @ opState"

definition decodeTimerCheckpoint :: "bytes \<Rightarrow> (error + bytes \<times> bytes) option" where
  "decodeTimerCheckpoint data =
     (if length data < 4 then Some (Inl SnapshotCorrupt)
      else let timerLen = readUint32 (take 4 data)
      in if 4 + unat timerLen > length data then Some (Inl SnapshotCorrupt)
      else let hi = unat (4 + timerLen)
      in if hi < 4 then None
      else Some (Inr (drop hi data, take (hi - 4) (drop 4 data))))"

lemma decode_encode:
  assumes "length timerState < 2 ^ 32 - 4"
  shows "decodeTimerCheckpoint (encodeTimerCheckpoint opState timerState) = Some (Inr (opState, timerState))"
proof -
  let ?e = "encodeTimerCheckpoint opState timerState"
  have lim: "length timerState < 2 ^ 32" using assms by simp
  have r: "readUint32 (take 4 ?e) = u32_of_len (length timerState)"
    using readUint32_append [of _ "[]"] by (simp add: encodeTimerCheckpoint_def)
  have hi: "unat (4 + u32_of_len (length timerState)) = 4 + length timerState"
    using assms lim by (simp add: unat_word_ariths)
  show ?thesis
    unfolding decodeTimerCheckpoint_def r Let_def hi using lim
    by (simp add: encodeTimerCheckpoint_def)
qed

section \<open>Properties\<close>

text \<open>
  C15. Timers fire exactly once. Over any history of registrations and pops at any clock readings,
  started from a new manager, the timers the pops returned and the ones still pending are together
  exactly the registered ones; and one pop returns, in order of fire time, just the pending timers
  whose time has come, leaving none of them behind.
\<close>

theorem timers_fire_once:
  "case tq.timer_history es clock newTimerManager of (fired, tm) \<Rightarrow>
     mset fired + mset (tm_timers tm)
       = mset (map (\<lambda>(n, t). \<lparr>te_Name = n, te_FireAt = t\<rparr>) (map the (filter (\<lambda>e. e \<noteq> None) es))) \<and>
     (case timer_PopExpired now tm of (expired, tm') \<Rightarrow>
        expired @ tm_timers tm' = tm_timers tm \<and> sorted (map te_FireAt (tm_timers tm)) \<and>
        list_all (\<lambda>t. te_FireAt t \<le> now) expired \<and> list_all (\<lambda>t. now < te_FireAt t) (tm_timers tm'))"
proof -
  have new: "timers_ok newTimerManager" "tm_timers newTimerManager = []"
    by (simp_all add: timers_ok_def newTimerManager_def)
  obtain fired tm where h: "tq.timer_history es clock newTimerManager = (fired, tm)"
    by (cases "tq.timer_history es clock newTimerManager")
  have ok: "timers_ok tm"
    using tq.timer_history_invar [OF new(1), of es clock] h by simp
  then have split: "filter (\<lambda>t. te_FireAt t \<le> now) (tm_timers tm) @ filter (\<lambda>t. \<not> te_FireAt t \<le> now) (tm_timers tm)
      = tm_timers tm"
    unfolding timers_ok_def
    by (metis dropWhile_sorted_filter takeWhile_dropWhile_id takeWhile_sorted_filter)
  show ?thesis
    using tq.timer_history_conserves [OF new(1), of es clock] new(2) h split ok
    by (auto simp: timer_PopExpired_eq timers_ok_def list_all_iff)
qed

text \<open>
  C16. Decoding an envelope panics on exactly the byte sequences whose length field is one of the
  last four values of \<open>uint32\<close> and whose data is as long as it says: the upper bound of the slice,
  computed in 32 bits, wraps to a value below its lower bound.
\<close>

theorem decode_panics_iff:
  "decodeTimerCheckpoint data = None \<longleftrightarrow>
     4 \<le> length data \<and> 2 ^ 32 - 4 \<le> unat (readUint32 (take 4 data)) \<and>
     4 + unat (readUint32 (take 4 data)) \<le> length data"
proof -
  let ?n = "readUint32 (take 4 data)"
  have lt: "unat ?n < 2 ^ 32"
    using unsigned_less [of ?n, where ?'a = nat] by simp
  then have "unat (4 + ?n) < 4 \<longleftrightarrow> 2 ^ 32 - 4 \<le> unat ?n"
    by (simp add: unat_word_ariths) (auto simp: mod_if)
  then show ?thesis
    unfolding decodeTimerCheckpoint_def Let_def by auto
qed

end
