(* ===== verification/Buffer.thy ===== *)
theory Buffer
  imports Message
begin

text \<open>
  The bounded buffer of \<open>internal/engine/buffer.go\<close>. A Go channel is its queue, its capacity and
  whether it is closed. \<open>Send\<close> and \<open>Recv\<close> are a \<open>select\<close> over a channel operation and the
  context: when both cases are ready Go chooses either, which the argument \<open>pick_ctx\<close> decides;
  when none is ready the goroutine waits, which is the outcome \<open>SendBlocks\<close> or \<open>RecvBlocks\<close>.
  The context is its error, \<open>None\<close> while it is alive. Steps of several goroutines on one buffer
  interleave in the relation \<open>buf_step\<close>.
\<close>

definition DefaultBufferCapacity :: int where
  "DefaultBufferCapacity = 128"

record 'm Buffer =
  b_ch :: "'m list"
  b_closed :: bool
  b_capacity :: int
  b_sendCount :: u64
  b_recvCount :: u64

definition NewBuffer :: "int \<Rightarrow> 'm Buffer" where
  "NewBuffer capacity =
     (let capacity = (if capacity \<le> 0 then DefaultBufferCapacity else capacity)
      in \<lparr>b_ch = [], b_closed = False, b_capacity = capacity, b_sendCount = 0, b_recvCount = 0\<rparr>)"

datatype 'm send_outcome = SendOk "'m Buffer" | SendErr error | SendPanic | SendBlocks

datatype 'm recv_outcome = RecvOk 'm "'m Buffer" | RecvErr error | RecvBlocks

definition Buffer_Send :: "bool \<Rightarrow> error option \<Rightarrow> 'm \<Rightarrow> 'm Buffer \<Rightarrow> 'm send_outcome" where
  "Buffer_Send pick_ctx ctx msg b =
     (let ready = b_closed b \<or> int (length (b_ch b)) < b_capacity b;
          send = (if b_closed b then SendPanic
                  else SendOk (b\<lparr>b_ch := b_ch b @ [msg], b_sendCount := b_sendCount b + 1\<rparr>))
      in case ctx of
           None \<Rightarrow> if ready then send else SendBlocks
         | Some e \<Rightarrow> if ready \<and> \<not> pick_ctx then send else SendErr e)"

definition Buffer_Recv :: "bool \<Rightarrow> error option \<Rightarrow> 'm Buffer \<Rightarrow> 'm recv_outcome" where
  "Buffer_Recv pick_ctx ctx b =
     (let ready = b_ch b \<noteq> [] \<or> b_closed b;
          recv = (case b_ch b of
                    [] \<Rightarrow> RecvErr ErrBufferClosed
                  | msg # rest \<Rightarrow> RecvOk msg (b\<lparr>b_ch := rest, b_recvCount := b_recvCount b + 1\<rparr>))
      in case ctx of
           None \<Rightarrow> if ready then recv else RecvBlocks
         | Some e \<Rightarrow> if ready \<and> \<not> pick_ctx then recv else RecvErr e)"

text \<open>Closing a closed channel panics (\<open>None\<close>).\<close>

definition Buffer_Close :: "'m Buffer \<Rightarrow> 'm Buffer option" where
  "Buffer_Close b = (if b_closed b then None else Some (b\<lparr>b_closed := True\<rparr>))"

definition Buffer_Len :: "'m Buffer \<Rightarrow> int" where
  "Buffer_Len b = int (length (b_ch b))"

definition Buffer_Cap :: "'m Buffer \<Rightarrow> int" where
  "Buffer_Cap b = b_capacity b"

record BufferMetrics =
  bm_QueueDepth :: int
  bm_Capacity :: int
  bm_SendCount :: u64
  bm_RecvCount :: u64

definition Buffer_Metrics :: "'m Buffer \<Rightarrow> BufferMetrics" where
  "Buffer_Metrics b =
     \<lparr>bm_QueueDepth = int (length (b_ch b)), bm_Capacity = b_capacity b,
      bm_SendCount = b_sendCount b, bm_RecvCount = b_recvCount b\<rparr>"

section \<open>Histories\<close>

text \<open>The steps that change a buffer; a failed or waiting operation leaves it as it is.\<close>

datatype 'm buf_event = Sent 'm | Received 'm | Closed

inductive buf_step :: "'m Buffer \<Rightarrow> 'm buf_event \<Rightarrow> 'm Buffer \<Rightarrow> bool" where
  send: "Buffer_Send p ctx m b = SendOk b' \<Longrightarrow> buf_step b (Sent m) b'"
| recv: "Buffer_Recv p ctx b = RecvOk m b' \<Longrightarrow> buf_step b (Received m) b'"
| close: "Buffer_Close b = Some b' \<Longrightarrow> buf_step b Closed b'"

inductive buf_run :: "'m Buffer \<Rightarrow> 'm buf_event list \<Rightarrow> 'm Buffer \<Rightarrow> bool" where
  none: "buf_run b [] b"
| more: "buf_run b es b' \<Longrightarrow> buf_step b' e b'' \<Longrightarrow> buf_run b (es @ [e]) b''"

inductive_simps buf_run_Nil [simp]: "buf_run b [] b'"

primrec sent_of :: "'m buf_event list \<Rightarrow> 'm list" where
  "sent_of [] = []"
| "sent_of (e # es) = (case e of Sent m \<Rightarrow> m # sent_of es | _ \<Rightarrow> sent_of es)"

primrec received_of :: "'m buf_event list \<Rightarrow> 'm list" where
  "received_of [] = []"
| "received_of (e # es) = (case e of Received m \<Rightarrow> m # received_of es | _ \<Rightarrow> received_of es)"

lemma sent_of_append [simp]: "sent_of (xs @ ys) = sent_of xs @ sent_of ys"
  by (induction xs) (auto split: buf_event.splits)

lemma received_of_append [simp]: "received_of (xs @ ys) = received_of xs @ received_of ys"
  by (induction xs) (auto split: buf_event.splits)

definition buffer_ok :: "'m Buffer \<Rightarrow> bool" where
  "buffer_ok b \<longleftrightarrow> 0 < b_capacity b \<and> Buffer_Len b \<le> Buffer_Cap b"

lemma buffer_ok_new [simp]: "buffer_ok (NewBuffer c)"
  by (simp add: buffer_ok_def NewBuffer_def Let_def Buffer_Len_def Buffer_Cap_def DefaultBufferCapacity_def)

text \<open>Inversion: what each step does to the queue and the counters.\<close>

lemma Buffer_Send_Ok:
  "Buffer_Send p ctx m b = SendOk b' \<Longrightarrow>
     b' = b\<lparr>b_ch := b_ch b @ [m], b_sendCount := b_sendCount b + 1\<rparr> \<and> \<not> b_closed b
     \<and> int (length (b_ch b)) < b_capacity b"
  by (auto simp: Buffer_Send_def Let_def split: option.splits if_splits)

lemma Buffer_Recv_Ok:
  "Buffer_Recv p ctx b = RecvOk m b' \<Longrightarrow>
     b_ch b = m # b_ch b' \<and> b' = b\<lparr>b_ch := tl (b_ch b), b_recvCount := b_recvCount b + 1\<rparr>"
  by (auto simp: Buffer_Recv_def Let_def split: option.splits if_splits list.splits)

lemma Buffer_Close_Ok: "Buffer_Close b = Some b' \<Longrightarrow> b' = b\<lparr>b_closed := True\<rparr> \<and> \<not> b_closed b"
  by (auto simp: Buffer_Close_def split: if_splits)

lemmas buffer_inversions = Buffer_Send_Ok Buffer_Recv_Ok Buffer_Close_Ok

lemma buf_step_ok: "buf_step b e b' \<Longrightarrow> buffer_ok b \<Longrightarrow> buffer_ok b' \<and> b_capacity b' = b_capacity b"
  by (induction rule: buf_step.induct)
    (auto simp: buffer_ok_def Buffer_Len_def Buffer_Cap_def dest!: buffer_inversions)

lemma buf_run_ok: "buf_run b es b' \<Longrightarrow> buffer_ok b \<Longrightarrow> buffer_ok b' \<and> b_capacity b' = b_capacity b"
  by (induction rule: buf_run.induct) (auto dest: buf_step_ok)

lemma buf_step_fifo: "buf_step b e b' \<Longrightarrow> b_ch b @ sent_of [e] = received_of [e] @ b_ch b'"
  by (induction rule: buf_step.induct) (auto dest!: buffer_inversions)

lemma buf_run_fifo: "buf_run b es b' \<Longrightarrow> b_ch b @ sent_of es = received_of es @ b_ch b'"
proof (induction rule: buf_run.induct)
  case (more b es b' e b'')
  have "b_ch b @ sent_of (es @ [e]) = received_of es @ b_ch b' @ sent_of [e]"
    using more.IH by (metis append_assoc sent_of_append)
  also have "\<dots> = received_of (es @ [e]) @ b_ch b''"
    using buf_step_fifo [OF more.hyps(2)] by (metis append_assoc received_of_append)
  finally show ?case .
qed simp

lemma buf_step_counts:
  "buf_step b e b' \<Longrightarrow>
   b_sendCount b' = b_sendCount b + of_nat (length (sent_of [e])) \<and>
   b_recvCount b' = b_recvCount b + of_nat (length (received_of [e]))"
  by (induction rule: buf_step.induct) (auto dest!: buffer_inversions)

lemma buf_run_counts:
  "buf_run b es b' \<Longrightarrow>
   b_sendCount b' = b_sendCount b + of_nat (length (sent_of es)) \<and>
   b_recvCount b' = b_recvCount b + of_nat (length (received_of es))"
proof (induction rule: buf_run.induct)
  case (more b es b' e b'')
  from buf_step_counts [OF more.hyps(2)] more.IH show ?case by simp
qed simp

section \<open>Properties\<close>

text \<open>
  C18. Every interleaving of sends, receives and a close on a new buffer keeps it a bounded
  FIFO queue: the messages received so far followed by the queued ones are exactly the messages
  sent, in order, so nothing is lost, duplicated or reordered; the queue never exceeds its
  capacity; the counters are the numbers of completed operations modulo \<open>2\<^sup>6\<^sup>4\<close>, and the queue
  depth is their difference.
\<close>

theorem buffer_fifo:
  assumes "buf_run (NewBuffer c) es b"
  shows "sent_of es = received_of es @ b_ch b \<and>
    Buffer_Len b \<le> Buffer_Cap b \<and> Buffer_Cap b = (if c \<le> 0 then DefaultBufferCapacity else c) \<and>
    bm_SendCount (Buffer_Metrics b) = of_nat (length (sent_of es)) \<and>
    bm_RecvCount (Buffer_Metrics b) = of_nat (length (received_of es)) \<and>
    of_int (bm_QueueDepth (Buffer_Metrics b)) = bm_SendCount (Buffer_Metrics b) - bm_RecvCount (Buffer_Metrics b)"
proof -
  have new: "b_ch (NewBuffer c :: 'a Buffer) = []" "b_sendCount (NewBuffer c :: 'a Buffer) = 0"
    "b_recvCount (NewBuffer c :: 'a Buffer) = 0"
    "b_capacity (NewBuffer c :: 'a Buffer) = (if c \<le> 0 then DefaultBufferCapacity else c)"
    by (simp_all add: NewBuffer_def Let_def)
  have fifo: "sent_of es = received_of es @ b_ch b"
    using buf_run_fifo [OF assms] new(1) by simp
  moreover have "buffer_ok b" "b_capacity b = b_capacity (NewBuffer c :: 'a Buffer)"
    using buf_run_ok [OF assms] by auto
  ultimately show ?thesis
    using buf_run_counts [OF assms] new
    by (auto simp: Buffer_Metrics_def buffer_ok_def Buffer_Cap_def)
qed

theorem buffer_fifo_witness:
  "\<exists>b. buf_run (NewBuffer 1) [Sent (7::int), Received 7] b \<and>
     sent_of [Sent (7::int), Received 7] = received_of [Sent 7, Received 7] @ b_ch b \<and>
     Buffer_Len b \<le> Buffer_Cap b \<and> Buffer_Cap b = 1"
proof -
  let ?b1 = "\<lparr>b_ch = [7::int], b_closed = False, b_capacity = 1, b_sendCount = 1, b_recvCount = 0\<rparr>"
  let ?b2 = "\<lparr>b_ch = [], b_closed = False, b_capacity = 1, b_sendCount = 1, b_recvCount = 1\<rparr> :: int Buffer"
  have "buf_step (NewBuffer 1) (Sent 7) ?b1"
    by (rule buf_step.send [of False None]) (simp add: Buffer_Send_def NewBuffer_def Let_def)
  moreover have "buf_step ?b1 (Received 7) ?b2"
    by (rule buf_step.recv [of False None]) (simp add: Buffer_Recv_def Let_def)
  ultimately have run: "buf_run (NewBuffer 1) [Sent 7, Received 7] ?b2"
    using buf_run.more [OF buf_run.more [OF buf_run.none]] by force
  then show ?thesis
    using buffer_fifo [OF run] by (intro exI [of _ ?b2]) simp
qed

text \<open>
  C15. Backpressure and progress. With a live context \<open>Send\<close> waits exactly when an open buffer
  is full and \<open>Recv\<close> waits exactly when an open buffer is empty, so on a buffer of the engine
  one of the two can always proceed; after a close every queued message is still delivered, and
  only then the receiver is told that the buffer is closed; a cancelled context never waits.
\<close>

theorem buffer_progress:
  assumes "buffer_ok b"
  shows "(Buffer_Send p None m b = SendBlocks \<longleftrightarrow> \<not> b_closed b \<and> Buffer_Len b = Buffer_Cap b) \<and>
    (Buffer_Recv p None b = RecvBlocks \<longleftrightarrow> \<not> b_closed b \<and> Buffer_Len b = 0) \<and>
    (Buffer_Send p None m b \<noteq> SendBlocks \<or> Buffer_Recv p None b \<noteq> RecvBlocks) \<and>
    (Buffer_Recv p None b = RecvErr ErrBufferClosed \<longleftrightarrow> b_closed b \<and> Buffer_Len b = 0) \<and>
    Buffer_Send p (Some e) m b \<noteq> SendBlocks \<and> Buffer_Recv p (Some e) b \<noteq> RecvBlocks"
  using assms
  by (auto simp: buffer_ok_def Buffer_Len_def Buffer_Cap_def Buffer_Send_def Buffer_Recv_def Let_def
      split: list.splits)

theorem buffer_progress_witness:
  "Buffer_Send False None (5::int) (NewBuffer 0) \<noteq> SendBlocks \<and>
   Buffer_Recv False None (NewBuffer 0 :: int Buffer) = RecvBlocks"
  using buffer_progress [where b = "NewBuffer 0" and p = False and m = "5::int" and e = Canceled, OF buffer_ok_new]
  by (simp add: NewBuffer_def Buffer_Len_def Buffer_Cap_def DefaultBufferCapacity_def Let_def)

end
