(* ===== verification/Collector.thy ===== *)
theory Collector
  imports Timer Buffer
begin

text \<open>
  What operator code can do to the rest of the engine: the collector of
  \<open>internal/engine/operator.go\<close> and the error handlers of \<open>internal/engine/errors.go\<close>.

  A node acts on a \<open>World\<close>: the messages it has put into buffers (numbered), in order; its timer
  manager; the error counts; and what its environment answers, the result of each \<open>Send\<close> with its
  context (\<open>w_outcome\<close>: \<open>None\<close> for success, an error when the context was cancelled) and each reading
  of the clock (\<open>w_clock\<close>). Theorems hold for all answers. A panic is the outcome \<open>None\<close>.
\<close>

record 'u World =
  w_sent :: "(nat \<times> 'u Message) list"
  w_outcome :: "nat \<Rightarrow> error option"
  w_sends :: nat
  w_timers :: "timerManager option"
  w_counts :: "(string, u64) gomap"
  w_clock :: "nat \<Rightarrow> time"
  w_reads :: nat

definition Now :: "'u World \<Rightarrow> time \<times> 'u World" where
  "Now w = (w_clock w (w_reads w), w\<lparr>w_reads := w_reads w + 1\<rparr>)"

definition Send :: "nat \<Rightarrow> 'u Message \<Rightarrow> 'u World \<Rightarrow> 'u World \<times> error option" where
  "Send out m w =
     (let r = w_outcome w (w_sends w); w = w\<lparr>w_sends := w_sends w + 1\<rparr>
      in case r of None \<Rightarrow> (w\<lparr>w_sent := w_sent w @ [(out, m)]\<rparr>, None) | Some err \<Rightarrow> (w, Some err))"

section \<open>Broadcasting\<close>

text \<open>
  The loop over output buffers that the collector, the runtime's emitter and the signal handlers
  share: send to each until one fails.
\<close>

primrec broadcast ::
  "(nat \<Rightarrow> 'm \<Rightarrow> 'w \<Rightarrow> 'w \<times> error option) \<Rightarrow> nat list \<Rightarrow> 'm \<Rightarrow> 'w \<Rightarrow> 'w \<times> error option" where
  "broadcast send [] m w = (w, None)"
| "broadcast send (out # outs) m w =
     (case send out m w of (w, Some err) \<Rightarrow> (w, Some err) | (w, None) \<Rightarrow> broadcast send outs m w)"

text \<open>The interface the loop relies on: a send appends to the log of deliveries or changes nothing in it.\<close>

locale sender =
  fixes send :: "nat \<Rightarrow> 'm \<Rightarrow> 'w \<Rightarrow> 'w \<times> error option"
    and delivered :: "'w \<Rightarrow> (nat \<times> 'm) list"
  assumes send_ok: "send out m w = (w', None) \<Longrightarrow> delivered w' = delivered w @ [(out, m)]"
    and send_err: "send out m w = (w', Some err) \<Longrightarrow> delivered w' = delivered w"
begin

text \<open>A broadcast delivers to a prefix of the outputs, to all of them exactly when it succeeds.\<close>

lemma broadcast_delivered:
  "broadcast send outs m w = (w', r) \<Longrightarrow>
   \<exists>k \<le> length outs. delivered w' = delivered w @ map (\<lambda>out. (out, m)) (take k outs) \<and> (r = None \<longleftrightarrow> k = length outs)"
proof (induction outs arbitrary: w)
  case (Cons out outs)
  obtain w1 r1 where s: "send out m w = (w1, r1)" by force
  show ?case
  proof (cases r1)
    case None
    with Cons.prems s have "broadcast send outs m w1 = (w', r)" by simp
    from Cons.IH [OF this] obtain k where "k \<le> length outs"
      "delivered w' = delivered w1 @ map (\<lambda>out. (out, m)) (take k outs)" "r = None \<longleftrightarrow> k = length outs" by blast
    with send_ok [OF s [unfolded None]] show ?thesis by (intro exI [of _ "Suc k"]) simp
  next
    case (Some err)
    with Cons.prems s send_err [OF s [unfolded Some]] show ?thesis by auto
  qed
qed simp

lemma broadcast_ok:
  "broadcast send outs m w = (w', None) \<Longrightarrow> delivered w' = delivered w @ map (\<lambda>out. (out, m)) outs"
  using broadcast_delivered [of outs m w w' None] by auto

end

lemma Send_frame:
  "Send out m w = (w', r) \<Longrightarrow>
     w' = w\<lparr>w_sends := w_sends w', w_sent := w_sent w'\<rparr> \<and> w_outcome w' = w_outcome w"
  by (auto simp: Send_def Let_def split: option.splits)

interpretation net: sender Send w_sent
  by unfold_locales (auto simp: Send_def Let_def split: option.splits)

lemma broadcast_frame:
  "broadcast Send outs m w = (w', r) \<Longrightarrow> w' = w\<lparr>w_sends := w_sends w', w_sent := w_sent w'\<rparr>"
proof (induction outs arbitrary: w)
  case (Cons out outs)
  then show ?case
    using Send_frame [of out m w] by (auto split: prod.splits option.splits) (metis World.surjective World.update_convs(1,3))+
qed simp

text \<open>
  The same laws hold of the engine's buffers themselves: a pool of buffers, each with the messages
  ever sent to it, on which \<open>Send\<close> is the method of \<open>buffer.go\<close> with a given context.
\<close>

record 'm pool =
  pl_buffers :: "nat \<Rightarrow> 'm Buffer"
  pl_log :: "(nat \<times> 'm) list"

definition pool_Send :: "bool \<Rightarrow> error option \<Rightarrow> nat \<Rightarrow> 'm \<Rightarrow> 'm pool \<Rightarrow> 'm pool \<times> error option" where
  "pool_Send pick ctx out m p =
     (case Buffer_Send pick ctx m (pl_buffers p out) of
        SendOk b \<Rightarrow> (p\<lparr>pl_buffers := (pl_buffers p)(out := b), pl_log := pl_log p @ [(out, m)]\<rparr>, None)
      | SendErr err \<Rightarrow> (p, Some err)
      | SendPanic \<Rightarrow> (p, Some (UserError ''panic: send on closed channel''))
      | SendBlocks \<Rightarrow> (p, Some (UserError ''blocked'')))"

interpretation bufpool: sender "pool_Send pick ctx" pl_log
  by unfold_locales (auto simp: pool_Send_def split: send_outcome.splits)

end
