(* ===== verification/Errors.thy ===== *)
theory Errors
  imports Collector
begin

text \<open>
  Error handling, \<open>internal/engine/errors.go\<close>: the counts per node and the handler that
  \<open>makeErrorHandler\<close> builds for each strategy. A handler returns the error that stops the node, or
  nil; \<open>None\<close> is a panic. Log output is not modelled.
\<close>

datatype ErrorStrategy =
    ErrorStrategySkipAndLog
  | ErrorStrategyDeadLetter
  | ErrorStrategyFailPipeline
  | ErrorStrategyOther int

record 'op ErrorConfig =
  ec_Strategy :: ErrorStrategy
  ec_DeadLetterSink :: "'op option"

section \<open>Counts\<close>

definition newErrorCounts :: "(string, u64) gomap" where
  "newErrorCounts = []"

text \<open>A counter is a 64-bit integer; the read after the double-checked creation finds it.\<close>

definition increment :: "string \<Rightarrow> (string, u64) gomap \<Rightarrow> (string, u64) gomap" where
  "increment nodeID counts =
     (case map_of counts nodeID of
        Some c \<Rightarrow> AList.update nodeID (c + 1) counts
      | None \<Rightarrow> let counts = AList.update nodeID 0 counts
                in AList.update nodeID (the (map_of counts nodeID) + 1) counts)"

text \<open>\<open>c > 0\<close> is a comparison of \<open>int64\<close>.\<close>

definition counts_snapshot :: "(string, u64) gomap \<Rightarrow> (string, u64) gomap" where
  "counts_snapshot counts = filter (\<lambda>(_, c). 0 < sint c) counts"

section \<open>Handlers\<close>

type_synonym 'u errorHandler =
  "string \<Rightarrow> 'u DataMessage \<Rightarrow> error \<Rightarrow> 'u World \<Rightarrow> ('u World \<times> error option) option"

definition count_error :: "string \<Rightarrow> 'u World \<Rightarrow> 'u World" where
  "count_error nodeID w = w\<lparr>w_counts := increment nodeID (w_counts w)\<rparr>"

definition dead_letter :: "string \<Rightarrow> 'u DataMessage \<Rightarrow> error \<Rightarrow> 'u Message" where
  "dead_letter nodeID msg err =
     NewDataMessage (dm_Key msg) (AnyDeadLetter (DeadLetterMessage msg err nodeID)) (dm_EventTime msg)"

text \<open>
  \<open>dlBuffer.Send\<close> is called with the background context: it waits until there is room and reports
  no error. A nil buffer is dereferenced.
\<close>

definition makeErrorHandler :: "'op ErrorConfig \<Rightarrow> nat option \<Rightarrow> 'u errorHandler" where
  "makeErrorHandler cfg dlBuffer =
     (case ec_Strategy cfg of
        ErrorStrategySkipAndLog \<Rightarrow> (\<lambda>nodeID msg err w. Some (count_error nodeID w, None))
      | ErrorStrategyDeadLetter \<Rightarrow> (\<lambda>nodeID msg err w.
          let w = count_error nodeID w
          in case dlBuffer of
               None \<Rightarrow> None
             | Some dl \<Rightarrow> Some (w\<lparr>w_sent := w_sent w @ [(dl, dead_letter nodeID msg err)]\<rparr>, None))
      | ErrorStrategyFailPipeline \<Rightarrow> (\<lambda>nodeID msg err w. Some (count_error nodeID w, Some err))
      | ErrorStrategyOther _ \<Rightarrow> (\<lambda>nodeID msg err w. Some (count_error nodeID w, None)))"

section \<open>Lemmas\<close>

definition count_of :: "(string, u64) gomap \<Rightarrow> string \<Rightarrow> u64" where
  "count_of counts nodeID = (case map_of counts nodeID of None \<Rightarrow> 0 | Some c \<Rightarrow> c)"

lemma count_of_increment:
  "count_of (increment nodeID counts) n = count_of counts n + (if n = nodeID then 1 else 0)"
  by (auto simp: count_of_def increment_def Let_def go_maps split: option.splits)

lemma gomap_ok_increment: "gomap_ok counts \<Longrightarrow> gomap_ok (increment nodeID counts)"
  by (simp add: increment_def Let_def distinct_update split: option.splits)

lemma count_of_fold:
  "count_of (fold increment ids counts) n = count_of counts n + of_nat (count_list ids n)"
  by (induction ids arbitrary: counts) (auto simp: count_of_increment)

lemma gomap_ok_fold_increment: "gomap_ok counts \<Longrightarrow> gomap_ok (fold increment ids counts)"
  by (induction ids arbitrary: counts) (simp_all add: gomap_ok_increment)

lemma snapshot_lookup:
  assumes "gomap_ok counts"
  shows "map_of (counts_snapshot counts) n = (if 0 < sint (count_of counts n) then Some (count_of counts n) else None)"
  using assms
proof (induction counts)
  case (Cons x counts)
  have none: "map_of counts (fst x) = None"
    using Cons.prems by (simp add: map_of_eq_None_iff)
  with Cons show ?case
    by (cases x) (auto simp: counts_snapshot_def count_of_def)
qed (simp add: counts_snapshot_def count_of_def)

text \<open>What each strategy answers.\<close>

lemma handler_skip:
  "ec_Strategy cfg \<in> {ErrorStrategySkipAndLog, ErrorStrategyOther k} \<Longrightarrow>
   makeErrorHandler cfg dl nodeID msg err w = Some (count_error nodeID w, None)"
  by (auto simp: makeErrorHandler_def)

lemma handler_fail:
  "ec_Strategy cfg = ErrorStrategyFailPipeline \<Longrightarrow>
   makeErrorHandler cfg dl nodeID msg err w = Some (count_error nodeID w, Some err)"
  by (simp add: makeErrorHandler_def)

lemma handler_dead_letter:
  "ec_Strategy cfg = ErrorStrategyDeadLetter \<Longrightarrow>
   makeErrorHandler cfg (Some dl) nodeID msg err w =
     Some ((count_error nodeID w)\<lparr>w_sent := w_sent w @ [(dl, dead_letter nodeID msg err)]\<rparr>, None)"
  by (simp add: makeErrorHandler_def count_error_def)

section \<open>Properties\<close>

text \<open>
  Error counts are exact: after any sequence of errors the snapshot holds for each node the
  number of its errors, and no entry for a node without errors. The bound is that of \<open>int64\<close>.
\<close>

theorem error_counts_exact:
  assumes "count_list ids n < 2 ^ 63"
  shows "map_of (counts_snapshot (fold increment ids newErrorCounts)) n =
    (if count_list ids n = 0 then None else Some (of_nat (count_list ids n)))"
proof -
  have "sint (of_nat (count_list ids n) :: u64) = int (count_list ids n)"
    using assms by (simp add: signed_of_nat signed_take_bit_int_eq_self)
  then show ?thesis
    using snapshot_lookup [OF gomap_ok_fold_increment, of newErrorCounts ids n] count_of_fold [of ids newErrorCounts n]
    by (simp add: newErrorCounts_def count_of_def)
qed

theorem error_counts_exact_witness:
  "map_of (counts_snapshot (fold increment [''a'', ''b'', ''a''] newErrorCounts)) ''a'' = Some 2"
  using error_counts_exact [of "[''a'', ''b'', ''a'']" "''a''"] by simp

end
