(* ===== verification/Graph.thy ===== *)
theory Graph
  imports Message
begin

text \<open>
  The graph container of \<open>internal/engine/graph.go\<close>: nodes, edges and \<open>Validate\<close> with its
  depth-first search for cycles. The search is proved total and exact: it reports no error on
  exactly the acyclic graphs, and the node an error names lies on a cycle. The type parameter
  stands for the node objects, which the graph only stores.
\<close>

datatype NodeType = NodeTypeSource | NodeTypeOperator | NodeTypeSink

definition DefaultPort :: string where
  "DefaultPort = ''default''"

record Edge =
  e_FromNode :: string
  e_FromPort :: string
  e_ToNode :: string
  e_ToPort :: string

definition NewEdge :: "string \<Rightarrow> string \<Rightarrow> Edge" where
  "NewEdge fromNode toNode =
     \<lparr>e_FromNode = fromNode, e_FromPort = DefaultPort, e_ToNode = toNode, e_ToPort = DefaultPort\<rparr>"

definition NewPortEdge :: "string \<Rightarrow> string \<Rightarrow> string \<Rightarrow> string \<Rightarrow> Edge" where
  "NewPortEdge fromNode fromPort toNode toPort =
     \<lparr>e_FromNode = fromNode, e_FromPort = fromPort, e_ToNode = toNode, e_ToPort = toPort\<rparr>"

record 'n nodeEntry =
  ne_Node :: 'n
  ne_NodeType :: NodeType

record 'n Graph =
  g_Name :: string
  g_nodes :: "(string, 'n nodeEntry) gomap"
  g_edges :: "Edge list"

definition NewGraph :: "string \<Rightarrow> 'n Graph" where
  "NewGraph name = \<lparr>g_Name = name, g_nodes = [], g_edges = []\<rparr>"

text \<open>The first argument of \<open>AddNode\<close> is \<open>node.ID()\<close>.\<close>

definition AddNode :: "string \<Rightarrow> 'n \<Rightarrow> NodeType \<Rightarrow> 'n Graph \<Rightarrow> error + 'n Graph" where
  "AddNode nid node nodeType g =
     (if map_of (g_nodes g) nid \<noteq> None then Inl (NodeExists nid)
      else Inr (g\<lparr>g_nodes := AList.update nid \<lparr>ne_Node = node, ne_NodeType = nodeType\<rparr> (g_nodes g)\<rparr>))"

definition AddEdge :: "Edge \<Rightarrow> 'n Graph \<Rightarrow> error + 'n Graph" where
  "AddEdge edge g =
     (if map_of (g_nodes g) (e_FromNode edge) = None then Inl (SourceNotFound (e_FromNode edge))
      else if map_of (g_nodes g) (e_ToNode edge) = None then Inl (DestinationNotFound (e_ToNode edge))
      else Inr (g\<lparr>g_edges := g_edges g @ [edge]\<rparr>))"

definition Graph_Nodes :: "'n Graph \<Rightarrow> (string, 'n) gomap" where
  "Graph_Nodes g = map (\<lambda>(nid, entry). (nid, ne_Node entry)) (g_nodes g)"

definition Graph_Edges :: "'n Graph \<Rightarrow> Edge list" where
  "Graph_Edges g = g_edges g"

definition NodeCount :: "'n Graph \<Rightarrow> nat" where
  "NodeCount g = length (g_nodes g)"

section \<open>Cycle detection\<close>

text \<open>The adjacency map; an absent key reads as the nil slice.\<close>

definition adj_at :: "(string, string list) gomap \<Rightarrow> string \<Rightarrow> string list" where
  "adj_at adj n = (case map_of adj n of None \<Rightarrow> [] | Some ns \<Rightarrow> ns)"

lemma adj_at_update [simp]: "adj_at (AList.update k v adj) x = (if x = k then v else adj_at adj x)"
  by (simp add: adj_at_def go_maps)

definition build_adj :: "Edge list \<Rightarrow> (string, string list) gomap" where
  "build_adj edges = fold (\<lambda>e adj. AList.update (e_FromNode e) (adj_at adj (e_FromNode e) @ [e_ToNode e]) adj) edges []"

text \<open>Colours: 0 white, 1 gray, 2 black; an absent key reads 0.\<close>

definition color_at :: "(string, int) gomap \<Rightarrow> string \<Rightarrow> int" where
  "color_at color n = (case map_of color n of None \<Rightarrow> 0 | Some c \<Rightarrow> c)"

lemma color_at_update [simp]:
  "color_at (AList.update n c color) m = (if m = n then c else color_at color m)"
  by (simp add: color_at_def go_maps)

text \<open>
  The loop over the neighbours of a node, with the recursive call of the closure \<open>dfs\<close> on a
  white neighbour written out: colour it gray, visit its own neighbours, colour it black.
\<close>

function dfs_neighbors ::
  "(string, string list) gomap \<Rightarrow> string list \<Rightarrow> (string, int) gomap \<Rightarrow> error + (string, int) gomap" where
  "dfs_neighbors adj [] color = Inr color"
| "dfs_neighbors adj (neighbor # rest) color =
     (if color_at color neighbor = 1 then Inl (GraphCycle neighbor)
      else if color_at color neighbor = 0 then
        (case dfs_neighbors adj (adj_at adj neighbor) (AList.update neighbor 1 color) of
           Inl e \<Rightarrow> Inl e
         | Inr color' \<Rightarrow> dfs_neighbors adj rest (AList.update neighbor 2 color'))
      else dfs_neighbors adj rest color)"
  by pat_completeness auto

text \<open>
  Termination: every descent colours a white node, and a returning call leaves no node white
  that it was not given white.
\<close>

lemma dfs_neighbors_white:
  "dfs_neighbors_dom (adj, ns, color) \<Longrightarrow> dfs_neighbors adj ns color = Inr color' \<Longrightarrow>
   color_at color' x = 0 \<Longrightarrow> color_at color x = 0"
proof (induction adj ns color arbitrary: color' rule: dfs_neighbors.pinduct)
  case (1 adj color)
  then show ?case by (simp add: dfs_neighbors.psimps)
next
  case (2 adj neighbor rest color)
  show ?case
  proof (cases "color_at color neighbor = 0")
    case True
    then have neq: "color_at color neighbor \<noteq> 1" by simp
    from "2.prems"(1) "2.hyps" True obtain c where
      c: "dfs_neighbors adj (adj_at adj neighbor) (AList.update neighbor 1 color) = Inr c"
        "dfs_neighbors adj rest (AList.update neighbor 2 c) = Inr color'"
      by (auto simp: dfs_neighbors.psimps split: sum.splits)
    have "color_at (AList.update neighbor 2 c) x = 0"
      by (rule "2.IH"(2) [OF neq True c(1,2) "2.prems"(2)])
    then have "x \<noteq> neighbor" "color_at c x = 0" by (auto split: if_splits)
    with "2.IH"(1) [OF neq True c(1)] show ?thesis by (auto split: if_splits)
  next
    case False
    with "2.prems"(1) "2.hyps" have "color_at color neighbor \<noteq> 1"
      "dfs_neighbors adj rest color = Inr color'"
      by (auto simp: dfs_neighbors.psimps split: if_splits)
    with "2.IH"(3) False "2.prems"(2) show ?thesis by blast
  qed
qed

definition graph_universe :: "(string, string list) gomap \<Rightarrow> string list \<Rightarrow> string set" where
  "graph_universe adj ns = set (concat (map snd adj)) \<union> set ns"

lemma adj_at_universe: "set (adj_at adj n) \<subseteq> set (concat (map snd adj))"
proof (cases "map_of adj n")
  case (Some ns)
  then have "(n, ns) \<in> set adj" by (rule map_of_SomeD)
  with Some show ?thesis by (force simp: adj_at_def)
qed (simp add: adj_at_def)

definition white_in :: "(string, string list) gomap \<Rightarrow> string list \<Rightarrow> (string, int) gomap \<Rightarrow> string set" where
  "white_in adj ns color = {x \<in> graph_universe adj ns. color_at color x = 0}"

lemma finite_white [simp]: "finite (white_in adj ns color)"
  by (simp add: white_in_def graph_universe_def)

lemma white_less:
  assumes "color_at color n = 0" "n \<in> graph_universe adj ns" "graph_universe adj ns' \<subseteq> graph_universe adj ns"
    and "\<And>x. color_at color' x = 0 \<Longrightarrow> color_at color x = 0 \<and> x \<noteq> n"
  shows "card (white_in adj ns' color') < card (white_in adj ns color)"
proof (rule psubset_card_mono)
  have "white_in adj ns' color' \<subseteq> white_in adj ns color - {n}"
    using assms(3,4) by (auto simp: white_in_def)
  moreover have "n \<in> white_in adj ns color"
    using assms(1,2) by (simp add: white_in_def)
  ultimately show "white_in adj ns' color' \<subset> white_in adj ns color" by blast
qed simp

termination dfs_neighbors
proof (relation "measures [\<lambda>(adj, ns, color). card (white_in adj ns color), \<lambda>(adj, ns, color). length ns]",
    goal_cases)
  case 1
  show ?case by simp
next
  case (2 adj neighbor rest color)
  have "card (white_in adj (adj_at adj neighbor) (AList.update neighbor 1 color))
      < card (white_in adj (neighbor # rest) color)"
    by (rule white_less [of color neighbor])
      (use 2 adj_at_universe [of adj neighbor] in \<open>auto simp: graph_universe_def split: if_splits\<close>)
  then show ?case by simp
next
  case (3 adj neighbor rest color color')
  have "card (white_in adj rest (AList.update neighbor 2 color'))
      < card (white_in adj (neighbor # rest) color)"
  proof (rule white_less [of color neighbor])
    fix x assume "color_at (AList.update neighbor 2 color') x = 0"
    then have "color_at color' x = 0" "x \<noteq> neighbor" by (auto split: if_splits)
    with dfs_neighbors_white [OF 3(4) 3(3), of x] show "color_at color x = 0 \<and> x \<noteq> neighbor"
      by simp
  qed (use 3 in \<open>auto simp: graph_universe_def\<close>)
  then show ?case by simp
next
  case (4 adj neighbor rest color)
  have "white_in adj rest color \<subseteq> white_in adj (neighbor # rest) color"
    by (auto simp: white_in_def graph_universe_def)
  then have "card (white_in adj rest color) \<le> card (white_in adj (neighbor # rest) color)"
    by (intro card_mono) simp_all
  then show ?case by auto
qed

text \<open>The closure \<open>dfs\<close> as the outer loop calls it, and the outer loop in the order \<open>ks\<close>.\<close>

definition dfs :: "(string, string list) gomap \<Rightarrow> string \<Rightarrow> (string, int) gomap \<Rightarrow> error + (string, int) gomap" where
  "dfs adj node color =
     (case dfs_neighbors adj (adj_at adj node) (AList.update node 1 color) of
        Inl e \<Rightarrow> Inl e
      | Inr color' \<Rightarrow> Inr (AList.update node 2 color'))"

primrec dfs_all :: "(string, string list) gomap \<Rightarrow> string list \<Rightarrow> (string, int) gomap \<Rightarrow> error option" where
  "dfs_all adj [] color = None"
| "dfs_all adj (nid # nids) color =
     (if color_at color nid = 0 then
        (case dfs adj nid color of Inl e \<Rightarrow> Some e | Inr color' \<Rightarrow> dfs_all adj nids color')
      else dfs_all adj nids color)"

definition detectCycles :: "string list \<Rightarrow> 'n Graph \<Rightarrow> error option" where
  "detectCycles ks g =
     dfs_all (build_adj (g_edges g)) ks (fold (\<lambda>nid color. AList.update nid 0 color) ks [])"

section \<open>Validate\<close>

definition bool_at :: "(string, bool) gomap \<Rightarrow> string \<Rightarrow> bool" where
  "bool_at m k = (map_of m k = Some True)"

definition count_at :: "(string, nat) gomap \<Rightarrow> string \<Rightarrow> nat" where
  "count_at m k = (case map_of m k of None \<Rightarrow> 0 | Some n \<Rightarrow> n)"

definition connected_nodes :: "Edge list \<Rightarrow> (string, bool) gomap" where
  "connected_nodes edges =
     fold (\<lambda>e m. AList.update (e_ToNode e) True (AList.update (e_FromNode e) True m)) edges []"

definition incr :: "string \<Rightarrow> (string, nat) gomap \<Rightarrow> (string, nat) gomap" where
  "incr k m = AList.update k (count_at m k + 1) m"

definition incoming_edges :: "Edge list \<Rightarrow> (string, nat) gomap" where
  "incoming_edges edges = fold (\<lambda>e. incr (e_ToNode e)) edges []"

definition outgoing_edges :: "Edge list \<Rightarrow> (string, nat) gomap" where
  "outgoing_edges edges = fold (\<lambda>e. incr (e_FromNode e)) edges []"

primrec check_dangling :: "'n Graph \<Rightarrow> string list \<Rightarrow> error option" where
  "check_dangling g [] = None"
| "check_dangling g (nid # nids) =
     (if \<not> bool_at (connected_nodes (g_edges g)) nid \<and> length (g_nodes g) > 1
      then Some (DanglingNode nid) else check_dangling g nids)"

definition check_node :: "'n Graph \<Rightarrow> string \<Rightarrow> NodeType \<Rightarrow> error option" where
  "check_node g nid nodeType =
     (let incoming = incoming_edges (g_edges g); outgoing = outgoing_edges (g_edges g)
      in case nodeType of
           NodeTypeSource \<Rightarrow> if count_at incoming nid > 0 then Some (SourceHasIncoming nid) else None
         | NodeTypeSink \<Rightarrow> if count_at outgoing nid > 0 then Some (SinkHasOutgoing nid) else None
         | NodeTypeOperator \<Rightarrow>
             if count_at incoming nid = 0 then Some (OperatorNoIncoming nid)
             else if count_at outgoing nid = 0 then Some (OperatorNoOutgoing nid) else None)"

primrec check_types :: "'n Graph \<Rightarrow> string list \<Rightarrow> error option" where
  "check_types g [] = None"
| "check_types g (nid # nids) =
     (case map_of (g_nodes g) nid of
        None \<Rightarrow> check_types g nids
      | Some entry \<Rightarrow>
          (case check_node g nid (ne_NodeType entry) of
             Some e \<Rightarrow> Some e | None \<Rightarrow> check_types g nids))"

text \<open>
  \<open>Validate\<close> ranges over the node map three times, each time in an order of its own; the order
  of the first loop of \<open>detectCycles\<close>, which only writes zeros, is the same as that of its last.
\<close>

definition Validate :: "string list \<Rightarrow> string list \<Rightarrow> string list \<Rightarrow> 'n Graph \<Rightarrow> error option" where
  "Validate ks1 ks2 ks3 g =
     (if length (g_nodes g) = 0 then Some (NoNodes (g_Name g))
      else case check_dangling g ks1 of
             Some e \<Rightarrow> Some e
           | None \<Rightarrow>
               (case check_types g ks2 of
                  Some e \<Rightarrow> Some e
                | None \<Rightarrow> detectCycles ks3 g))"

section \<open>The search is exact\<close>

definition adj_rel :: "(string, string list) gomap \<Rightarrow> (string \<times> string) set" where
  "adj_rel adj = {(x, y). y \<in> set (adj_at adj x)}"

abbreviation gray :: "(string, int) gomap \<Rightarrow> string set" where
  "gray color \<equiv> {x. color_at color x = 1}"

definition black :: "(string, int) gomap \<Rightarrow> string set" where
  "black color = {x. color_at color x \<noteq> 0 \<and> color_at color x \<noteq> 1}"

lemma black_update [simp]:
  "black (AList.update n 2 color) = insert n (black color)"
  "black (AList.update n 1 color) = black color - {n}"
  by (auto simp: black_def)

text \<open>What has been explored is closed under successors and free of cycles.\<close>

definition explored :: "(string, string list) gomap \<Rightarrow> string set \<Rightarrow> bool" where
  "explored adj B \<longleftrightarrow> (\<forall>x \<in> B. set (adj_at adj x) \<subseteq> B) \<and> acyclic (adj_rel adj \<inter> B \<times> UNIV)"

text \<open>A node without incoming edges can be added to an acyclic relation.\<close>

lemma acyclic_add_source:
  assumes "acyclic R" "n \<notin> Range R" "n \<notin> A"
  shows "acyclic (R \<union> {n} \<times> A)"
proof -
  have "y \<noteq> n \<and> (x = n \<or> (x, y) \<in> R\<^sup>+)" if "(x, y) \<in> (R \<union> {n} \<times> A)\<^sup>+" for x y
    using that
  proof (induction rule: trancl_induct)
    case (base y)
    with assms(2,3) show ?case by auto
  next
    case (step y z)
    with assms(2,3) show ?case by (auto intro: trancl_into_trancl)
  qed
  with assms(1) show ?thesis by (auto simp: acyclic_def)
qed

lemma explored_insert:
  assumes "explored adj B" "n \<notin> B" "set (adj_at adj n) \<subseteq> B"
  shows "explored adj (insert n B)"
proof -
  have "adj_rel adj \<inter> insert n B \<times> UNIV = (adj_rel adj \<inter> B \<times> UNIV) \<union> {n} \<times> set (adj_at adj n)"
    by (auto simp: adj_rel_def)
  moreover have "n \<notin> Range (adj_rel adj \<inter> B \<times> UNIV)"
    using assms(1,2) by (auto simp: explored_def adj_rel_def)
  ultimately have "acyclic (adj_rel adj \<inter> insert n B \<times> UNIV)"
    using assms acyclic_add_source [of "adj_rel adj \<inter> B \<times> UNIV" n "set (adj_at adj n)"]
    unfolding explored_def by (metis subsetD)
  with assms show ?thesis
    unfolding explored_def by blast
qed

lemma gray_update [simp]:
  "gray (AList.update n 1 color) = insert n (gray color)"
  "gray (AList.update n 2 color) = gray color - {n}"
  by auto

lemma dfs_neighbors_explores:
  assumes "explored adj (black color)" "dfs_neighbors adj ns color = Inr color'"
  shows "explored adj (black color') \<and> set ns \<subseteq> black color' \<and> gray color' = gray color
    \<and> black color \<subseteq> black color'"
  using assms
proof (induction adj ns color arbitrary: color' rule: dfs_neighbors.induct)
  case (1 adj color)
  then show ?case by simp
next
  case (2 adj n rest color)
  show ?case
  proof (cases "color_at color n = 0")
    case True
    then have neq: "color_at color n \<noteq> 1" by simp
    from "2.prems"(2) True obtain c where
      c: "dfs_neighbors adj (adj_at adj n) (AList.update n 1 color) = Inr c"
        "dfs_neighbors adj rest (AList.update n 2 c) = Inr color'"
      by (auto split: sum.splits)
    have nb: "n \<notin> black color" using True by (simp add: black_def)
    with "2.prems"(1) have "explored adj (black (AList.update n 1 color))" by simp
    from "2.IH"(1) [OF neq True this c(1)] nb
    have 1: "explored adj (black c)" "set (adj_at adj n) \<subseteq> black c" "gray c = insert n (gray color)"
      "black color \<subseteq> black c" by auto
    then have "n \<notin> black c" by (auto simp: black_def)
    with 1 have "explored adj (black (AList.update n 2 c))" by (simp add: explored_insert)
    from "2.IH"(2) [OF neq True c(1) this c(2)] 1 neq show ?thesis by auto
  next
    case False
    with "2.prems"(2) have neq: "color_at color n \<noteq> 1" and rest: "dfs_neighbors adj rest color = Inr color'"
      by (auto split: if_splits)
    with False have "n \<in> black color" by (simp add: black_def)
    with "2.IH"(3) [OF neq False "2.prems"(1) rest] show ?thesis by auto
  qed
qed

lemma dfs_neighbors_cycle:
  assumes "\<And>g x. g \<in> gray color \<Longrightarrow> x \<in> set ns \<Longrightarrow> (g, x) \<in> (adj_rel adj)\<^sup>+"
    and "explored adj (black color)" "dfs_neighbors adj ns color = Inl e"
  shows "\<exists>v. e = GraphCycle v \<and> (v, v) \<in> (adj_rel adj)\<^sup>+"
  using assms
proof (induction adj ns color rule: dfs_neighbors.induct)
  case (1 adj color)
  then show ?case by simp
next
  case (2 adj n rest color)
  consider (gray) "color_at color n = 1" | (white) "color_at color n = 0"
    | (black) "color_at color n \<noteq> 0" "color_at color n \<noteq> 1" by blast
  then show ?case
  proof cases
    case gray
    with "2.prems" show ?thesis by auto
  next
    case black
    with "2.prems" show ?thesis by (intro "2.IH"(3)) auto
  next
    case white
    then have neq: "color_at color n \<noteq> 1" by simp
    have nb: "black (AList.update n 1 color) = black color" using white by (auto simp: black_def)
    have reach: "(g, x) \<in> (adj_rel adj)\<^sup>+"
      if "g \<in> gray (AList.update n 1 color)" "x \<in> set (adj_at adj n)" for g x
    proof -
      have edge: "(n, x) \<in> adj_rel adj" using that(2) by (simp add: adj_rel_def)
      show ?thesis
      proof (cases "g = n")
        case True
        with edge show ?thesis by blast
      next
        case False
        with that(1) "2.prems"(1) have "(g, n) \<in> (adj_rel adj)\<^sup>+" by auto
        then show ?thesis using edge by (rule trancl_into_trancl)
      qed
    qed
    show ?thesis
    proof (cases "dfs_neighbors adj (adj_at adj n) (AList.update n 1 color)")
      case (Inl e')
      with "2.prems"(3) white have "e' = e" by simp
      with Inl "2.IH"(1) [OF neq white reach] "2.prems"(2) nb show ?thesis by simp
    next
      case (Inr c)
      from dfs_neighbors_explores [OF _ Inr] "2.prems"(2) nb
      have c: "explored adj (black c)" "set (adj_at adj n) \<subseteq> black c" "gray c = insert n (gray color)"
        by auto
      then have "n \<notin> black c" by (auto simp: black_def)
      with c have ex: "explored adj (black (AList.update n 2 c))" by (simp add: explored_insert)
      have "dfs_neighbors adj rest (AList.update n 2 c) = Inl e"
        using "2.prems"(3) white Inr by simp
      moreover have "(g, x) \<in> (adj_rel adj)\<^sup>+" if "g \<in> gray (AList.update n 2 c)" "x \<in> set rest" for g x
      proof -
        from that(1) have "g \<in> gray c" "g \<noteq> n" by (auto split: if_splits)
        with c(3) have "g \<in> gray color" by blast
        with "2.prems"(1) that(2) show ?thesis by simp
      qed
      ultimately show ?thesis using "2.IH"(2) [OF neq white Inr _ ex] by blast
    qed
  qed
qed

text \<open>The outer loop starts with no gray node and ends with every visited node black.\<close>

lemma dfs_explores:
  assumes "explored adj (black color)" "gray color = {}" "color_at color n = 0"
  shows "case dfs adj n color of
      Inl e \<Rightarrow> \<exists>v. e = GraphCycle v \<and> (v, v) \<in> (adj_rel adj)\<^sup>+
    | Inr color' \<Rightarrow> explored adj (black color') \<and> gray color' = {} \<and> insert n (black color) \<subseteq> black color'"
proof -
  have nb: "black (AList.update n 1 color) = black color" using assms(3) by (auto simp: black_def)
  have reach: "(g, x) \<in> (adj_rel adj)\<^sup>+"
    if "g \<in> gray (AList.update n 1 color)" "x \<in> set (adj_at adj n)" for g x
    using that assms(2) by (auto simp: adj_rel_def split: if_splits)
  show ?thesis
  proof (cases "dfs_neighbors adj (adj_at adj n) (AList.update n 1 color)")
    case (Inl e)
    from dfs_neighbors_cycle [OF reach _ Inl] assms(1) nb show ?thesis by (simp add: dfs_def Inl)
  next
    case (Inr c)
    from dfs_neighbors_explores [OF _ Inr] assms nb
    have c: "explored adj (black c)" "set (adj_at adj n) \<subseteq> black c" "gray c = {n}" "black color \<subseteq> black c"
      by auto
    then have "n \<notin> black c" by (auto simp: black_def)
    with c show ?thesis by (auto simp: dfs_def Inr explored_insert)
  qed
qed

lemma dfs_all_exact:
  assumes "explored adj (black color)" "gray color = {}"
  shows "case dfs_all adj ks color of
      Some e \<Rightarrow> \<exists>v. e = GraphCycle v \<and> (v, v) \<in> (adj_rel adj)\<^sup>+
    | None \<Rightarrow> \<exists>B. explored adj B \<and> set ks \<union> black color \<subseteq> B"
  using assms
proof (induction ks arbitrary: color)
  case Nil
  then show ?case by auto
next
  case (Cons n ks)
  show ?case
  proof (cases "color_at color n = 0")
    case True
    note d = dfs_explores [OF Cons.prems True]
    show ?thesis
    proof (cases "dfs adj n color")
      case (Inl e)
      with d True show ?thesis by simp
    next
      case (Inr c)
      with d have c: "explored adj (black c)" "gray c = {}" "insert n (black color) \<subseteq> black c" by auto
      from Cons.IH [OF c(1,2)] c(3) True Inr show ?thesis
        by (auto split: option.splits)
    qed
  next
    case False
    with Cons.prems(2) have "n \<in> black color" by (auto simp: black_def)
    with Cons.IH [OF Cons.prems] False show ?thesis by (auto split: option.splits)
  qed
qed

section \<open>Well-formed graphs\<close>

definition edge_rel :: "'n Graph \<Rightarrow> (string \<times> string) set" where
  "edge_rel g = (\<lambda>e. (e_FromNode e, e_ToNode e)) ` set (g_edges g)"

text \<open>What the constructors maintain: distinct node names, edges between existing nodes.\<close>

definition graph_ok :: "'n Graph \<Rightarrow> bool" where
  "graph_ok g \<longleftrightarrow> gomap_ok (g_nodes g) \<and>
     list_all (\<lambda>e. map_of (g_nodes g) (e_FromNode e) \<noteq> None \<and> map_of (g_nodes g) (e_ToNode e) \<noteq> None) (g_edges g)"

lemma graph_ok_new [simp]: "graph_ok (NewGraph name)"
  by (simp add: graph_ok_def NewGraph_def)

lemma graph_ok_AddNode: "graph_ok g \<Longrightarrow> AddNode n nd t g = Inr g' \<Longrightarrow> graph_ok g'"
  by (auto simp: graph_ok_def AddNode_def list_all_iff go_maps split: if_splits)

lemma graph_ok_AddEdge: "graph_ok g \<Longrightarrow> AddEdge e g = Inr g' \<Longrightarrow> graph_ok g'"
  by (auto simp: graph_ok_def AddEdge_def split: if_splits)

lemma adj_at_build: "set (adj_at (fold (\<lambda>e adj. AList.update (e_FromNode e)
    (adj_at adj (e_FromNode e) @ [e_ToNode e]) adj) es adj0) x)
  = set (adj_at adj0 x) \<union> {e_ToNode e | e. e \<in> set es \<and> e_FromNode e = x}"
proof (induction es arbitrary: adj0)
  case (Cons e es)
  then show ?case by (cases "e_FromNode e = x") auto
qed simp

lemma adj_rel_build: "adj_rel (build_adj (g_edges g)) = edge_rel g"
  by (auto simp: adj_rel_def build_adj_def adj_at_build edge_rel_def adj_at_def [of "[]"])

lemma color_at_init: "color_at (fold (\<lambda>n color. AList.update n 0 color) ks m) x = (if x \<in> set ks then 0 else color_at m x)"
  by (induction ks arbitrary: m) auto

lemma detectCycles_exact:
  assumes "graph_ok g" "range_order ks (g_nodes g)"
  shows "case detectCycles ks g of
      Some e \<Rightarrow> \<exists>v. e = GraphCycle v \<and> (v, v) \<in> (edge_rel g)\<^sup>+
    | None \<Rightarrow> acyclic (edge_rel g)"
proof -
  let ?adj = "build_adj (g_edges g)" and ?c = "fold (\<lambda>n color. AList.update n 0 color) ks []"
  have "color_at ?c x = 0" for x
    by (simp add: color_at_init) (simp add: color_at_def)
  then have c: "black ?c = {}" "gray ?c = {}" by (auto simp: black_def)
  have "explored ?adj (black ?c)" by (simp add: c explored_def acyclic_def)
  note ex = dfs_all_exact [OF this c(2), of ks]
  have "acyclic (edge_rel g)" if "detectCycles ks g = None"
  proof -
    from ex that obtain B where B: "explored ?adj B" "set ks \<subseteq> B" by (auto simp: detectCycles_def)
    have "edge_rel g \<subseteq> set ks \<times> UNIV"
      using assms by (auto simp: edge_rel_def graph_ok_def list_all_iff range_order_mem)
    with B(2) have "adj_rel ?adj \<inter> B \<times> UNIV = edge_rel g" by (auto simp: adj_rel_build)
    with B(1) show ?thesis by (simp add: explored_def)
  qed
  then show ?thesis
    using ex by (auto simp: detectCycles_def adj_rel_build split: option.splits)
qed

section \<open>What Validate checks\<close>

definition node_type :: "'n Graph \<Rightarrow> string \<Rightarrow> NodeType option" where
  "node_type g n = map_option ne_NodeType (map_of (g_nodes g) n)"

text \<open>The defects of a graph, each with the error that reports it.\<close>

definition violation :: "'n Graph \<Rightarrow> error \<Rightarrow> bool" where
  "violation g e =
     (case e of
        NoNodes name \<Rightarrow> g_nodes g = [] \<and> name = g_Name g
      | DanglingNode n \<Rightarrow> 1 < NodeCount g \<and> node_type g n \<noteq> None \<and> n \<notin> Field (edge_rel g)
      | SourceHasIncoming n \<Rightarrow> node_type g n = Some NodeTypeSource \<and> n \<in> Range (edge_rel g)
      | SinkHasOutgoing n \<Rightarrow> node_type g n = Some NodeTypeSink \<and> n \<in> Domain (edge_rel g)
      | OperatorNoIncoming n \<Rightarrow> node_type g n = Some NodeTypeOperator \<and> n \<notin> Range (edge_rel g)
      | OperatorNoOutgoing n \<Rightarrow> node_type g n = Some NodeTypeOperator \<and> n \<notin> Domain (edge_rel g)
      | GraphCycle n \<Rightarrow> (n, n) \<in> (edge_rel g)\<^sup>+
      | _ \<Rightarrow> False)"

lemma bool_at_update: "bool_at (AList.update k True m) x \<longleftrightarrow> x = k \<or> bool_at m x"
  by (auto simp: bool_at_def go_maps)

lemma bool_at_connected_fold:
  "bool_at (fold (\<lambda>e m. AList.update (e_ToNode e) True (AList.update (e_FromNode e) True m)) es m0) x \<longleftrightarrow>
     bool_at m0 x \<or> (\<exists>e \<in> set es. e_FromNode e = x \<or> e_ToNode e = x)"
  by (induction es arbitrary: m0) (auto simp: bool_at_update)

lemma bool_at_connected: "bool_at (connected_nodes (g_edges g)) x \<longleftrightarrow> x \<in> Field (edge_rel g)"
proof -
  have "Field (edge_rel g) = {x. \<exists>e \<in> set (g_edges g). e_FromNode e = x \<or> e_ToNode e = x}"
    unfolding Field_def edge_rel_def by (auto simp: Domain_iff Range_iff)
  then show ?thesis
    by (simp add: connected_nodes_def bool_at_connected_fold bool_at_def [of "[]"])
qed

lemma count_at_incr [simp]: "count_at (incr k m) x = count_at m x + (if x = k then 1 else 0)"
  by (simp add: incr_def count_at_def go_maps)

lemma count_at_fold_incr: "count_at (fold (\<lambda>e. incr (f e)) es m) x = count_at m x + length (filter (\<lambda>e. f e = x) es)"
  by (induction es arbitrary: m) auto

lemma count_at_incoming: "count_at (incoming_edges (g_edges g)) x = 0 \<longleftrightarrow> x \<notin> Range (edge_rel g)"
  by (auto simp: incoming_edges_def count_at_fold_incr count_at_def [of "[]"] filter_empty_conv edge_rel_def)

lemma count_at_outgoing: "count_at (outgoing_edges (g_edges g)) x = 0 \<longleftrightarrow> x \<notin> Domain (edge_rel g)"
  by (auto simp: outgoing_edges_def count_at_fold_incr count_at_def [of "[]"] filter_empty_conv edge_rel_def)

lemma check_dangling_spec:
  "case check_dangling g ks of
     Some e \<Rightarrow> \<exists>n \<in> set ks. e = DanglingNode n \<and> 1 < NodeCount g \<and> n \<notin> Field (edge_rel g)
   | None \<Rightarrow> 1 < NodeCount g \<longrightarrow> set ks \<subseteq> Field (edge_rel g)"
  by (induction ks) (auto simp: bool_at_connected NodeCount_def split: option.splits)

lemma check_node_spec:
  "node_type g n = Some t \<Longrightarrow>
   case check_node g n t of
     Some e \<Rightarrow> violation g e
   | None \<Rightarrow> \<not> violation g (SourceHasIncoming n) \<and> \<not> violation g (SinkHasOutgoing n) \<and>
       \<not> violation g (OperatorNoIncoming n) \<and> \<not> violation g (OperatorNoOutgoing n)"
  by (cases t) (simp_all add: check_node_def Let_def violation_def count_at_incoming count_at_outgoing
      neq0_conv [symmetric] del: neq0_conv)

lemma check_types_spec:
  "case check_types g ks of
     Some e \<Rightarrow> violation g e
   | None \<Rightarrow> \<forall>n \<in> set ks. \<not> violation g (SourceHasIncoming n) \<and> \<not> violation g (SinkHasOutgoing n) \<and>
       \<not> violation g (OperatorNoIncoming n) \<and> \<not> violation g (OperatorNoOutgoing n)"
proof (induction ks)
  case (Cons n ks)
  show ?case
  proof (cases "map_of (g_nodes g) n")
    case None
    then show ?thesis using Cons by (auto simp: violation_def node_type_def split: option.splits)
  next
    case (Some entry)
    then have "node_type g n = Some (ne_NodeType entry)" by (simp add: node_type_def)
    from check_node_spec [OF this] Cons Some show ?thesis by (auto split: option.splits)
  qed
qed simp

lemma violation_node:
  assumes "violation g e" "range_order ks (g_nodes g)" "graph_ok g" "g_nodes g \<noteq> []"
  shows "(\<exists>n \<in> set ks. e = DanglingNode n \<or> e = SourceHasIncoming n \<or> e = SinkHasOutgoing n \<or>
      e = OperatorNoIncoming n \<or> e = OperatorNoOutgoing n) \<or> (\<exists>n. e = GraphCycle n)"
  using assms range_order_mem [OF assms(2)]
  by (cases e) (auto simp: violation_def node_type_def)

section \<open>Properties\<close>

text \<open>
  C12. Cycle detection is exact. On a graph made of existing nodes, for every order in which the
  node map is visited, the depth-first search terminates; it reports no error if and only if
  the edges form an acyclic relation, and the node its error names lies on a cycle.
\<close>

theorem detectCycles_correct:
  assumes "graph_ok g" "range_order ks (g_nodes g)"
  shows "(detectCycles ks g = None \<longleftrightarrow> acyclic (edge_rel g)) \<and>
    (\<forall>e. detectCycles ks g = Some e \<longrightarrow> (\<exists>v. e = GraphCycle v \<and> (v, v) \<in> (edge_rel g)\<^sup>+))"
  using detectCycles_exact [OF assms] by (cases "detectCycles ks g") (auto simp: acyclic_def)

theorem detectCycles_correct_witness:
  "\<not> acyclic (edge_rel \<lparr>g_Name = ''g'',
      g_nodes = [(''a'', \<lparr>ne_Node = (), ne_NodeType = NodeTypeOperator\<rparr>),
                 (''b'', \<lparr>ne_Node = (), ne_NodeType = NodeTypeOperator\<rparr>)],
      g_edges = [NewEdge ''a'' ''b'', NewEdge ''b'' ''a'']\<rparr>)"
proof -
  let ?g = "\<lparr>g_Name = ''g'',
      g_nodes = [(''a'', \<lparr>ne_Node = (), ne_NodeType = NodeTypeOperator\<rparr>),
                 (''b'', \<lparr>ne_Node = (), ne_NodeType = NodeTypeOperator\<rparr>)],
      g_edges = [NewEdge ''a'' ''b'', NewEdge ''b'' ''a'']\<rparr> :: unit Graph"
  have cyc: "\<not> detectCycles [''b'', ''a''] ?g = None"
    by (simp add: detectCycles_def build_adj_def NewEdge_def dfs_def adj_at_def color_at_def split del: if_split)
  have ok: "graph_ok ?g" "range_order [''b'', ''a''] (g_nodes ?g)"
    by (auto simp: graph_ok_def range_order_def NewEdge_def)
  show ?thesis
    using cyc unfolding conjunct1 [OF detectCycles_correct [OF ok]] .
qed

lemma Validate_exact:
  assumes "graph_ok g" "range_order ks1 (g_nodes g)" "range_order ks2 (g_nodes g)" "range_order ks3 (g_nodes g)"
  shows "(Validate ks1 ks2 ks3 g = None \<longleftrightarrow> (\<forall>e. \<not> violation g e)) \<and>
    (\<forall>e. Validate ks1 ks2 ks3 g = Some e \<longrightarrow> violation g e)"
proof -
  have sound: "violation g e" if "Validate ks1 ks2 ks3 g = Some e" for e
    using that check_dangling_spec [where g = g and ks = ks1] check_types_spec [where g = g and ks = ks2] detectCycles_exact [OF assms(1,4)]
      range_order_mem [OF assms(2)]
    by (auto simp: Validate_def violation_def node_type_def split: if_splits option.splits)
  moreover have "\<not> violation g e" if none: "Validate ks1 ks2 ks3 g = None" for e
  proof
    assume v: "violation g e"
    from none have ne: "g_nodes g \<noteq> []" and d: "check_dangling g ks1 = None"
      and t: "check_types g ks2 = None" and c: "detectCycles ks3 g = None"
      by (auto simp: Validate_def split: if_splits option.splits)
    have "set ks1 = set ks2"
      using assms(2,3) by (simp add: range_order_def)
    moreover have "\<not> violation g (DanglingNode n)" if "n \<in> set ks1" for n
      using check_dangling_spec [where g = g and ks = ks1] d that by (auto simp: violation_def)
    moreover have "\<not> violation g (GraphCycle n)" for n
      using detectCycles_exact [OF assms(1,4)] c by (auto simp: violation_def acyclic_def)
    ultimately show False
      using violation_node [OF v assms(2,1) ne] v check_types_spec [where g = g and ks = ks2] t by auto
  qed
  ultimately show ?thesis by (metis option.exhaust)
qed

text \<open>
  C11. \<open>Validate\<close> accepts exactly the graphs without a defect (no nodes, a node without edges in
  a graph of several nodes, a source with inputs, a sink with outputs, an operator without
  inputs or without outputs, a cycle), and an error it returns names a defect the graph has.
  This holds for every order of the three passes over the node map.
\<close>

theorem Validate_correct:
  assumes "graph_ok g" "range_order ks1 (g_nodes g)" "range_order ks2 (g_nodes g)" "range_order ks3 (g_nodes g)"
  shows "(Validate ks1 ks2 ks3 g = None \<longleftrightarrow> (\<forall>e. \<not> violation g e)) \<and>
    (\<forall>e. Validate ks1 ks2 ks3 g = Some e \<longrightarrow> violation g e)"
  using assms by (rule Validate_exact)

theorem Validate_correct_witness:
  "\<not> violation \<lparr>g_Name = ''g'',
      g_nodes = [(''src'', \<lparr>ne_Node = (), ne_NodeType = NodeTypeSource\<rparr>),
                 (''sink'', \<lparr>ne_Node = (), ne_NodeType = NodeTypeSink\<rparr>)],
      g_edges = [NewEdge ''src'' ''sink'']\<rparr> (GraphCycle ''src'')"
proof -
  let ?g = "\<lparr>g_Name = ''g'',
      g_nodes = [(''src'', \<lparr>ne_Node = (), ne_NodeType = NodeTypeSource\<rparr>),
                 (''sink'', \<lparr>ne_Node = (), ne_NodeType = NodeTypeSink\<rparr>)],
      g_edges = [NewEdge ''src'' ''sink'']\<rparr> :: unit Graph"
  let ?ks = "[''sink'', ''src'']"
  have valid: "Validate ?ks ?ks ?ks ?g = None"
    by (simp add: Validate_def detectCycles_def build_adj_def NewEdge_def dfs_def adj_at_def color_at_def connected_nodes_def
        check_node_def incoming_edges_def outgoing_edges_def incr_def bool_at_def count_at_def split del: if_split)
  have ok: "graph_ok ?g" "range_order ?ks (g_nodes ?g)"
    by (auto simp: graph_ok_def range_order_def NewEdge_def)
  show ?thesis
    using valid unfolding conjunct1 [OF Validate_correct [OF ok(1) ok(2) ok(2) ok(2)]] by (rule spec)
qed

end
