(* ===== verification/Controller.thy ===== *)
theory Controller
  imports Message
begin

text \<open>
  The controller of \<open>internal/engine/controller.go\<close>: it tracks which nodes have reported each
  checkpoint epoch and which have stopped, and detects quiescence. Its mutex makes every operation
  one step, so a history is a list of events. The two callbacks are functions of the caller; the
  model records their calls and whether they are set. The argument \<open>now\<close> is \<open>time.Now()\<close>.
\<close>

datatype CheckpointStatus = CheckpointInProgress | CheckpointComplete

record CheckpointInfo =
  ci_Epoch :: u64
  ci_Status :: CheckpointStatus
  ci_StartedAt :: time
  ci_CompletedAt :: time
  ci_CompletedNodes :: "(string, bool) gomap"
  ci_NodeStates :: "(string, bytes) gomap"
  ci_ThenStop :: bool

record NodeCompletion =
  nc_NodeID :: string
  nc_Epoch :: u64
  nc_State :: bytes

record NodeStopped =
  ns_NodeID :: string

record Controller =
  c_nodeIDs :: "(string, bool) gomap"
  c_sourceIDs :: "(string, bool) gomap"
  c_sinkIDs :: "(string, bool) gomap"
  c_checkpoints :: "(u64, CheckpointInfo) gomap"
  c_stoppedNodes :: "(string, bool) gomap"
  c_chanSize :: int
  c_onCheckpointComplete :: bool
  c_onQuiescence :: bool
  c_quiescent :: bool
  c_completeCalls :: "(u64 \<times> CheckpointInfo) list"
  c_quiescenceCalls :: nat

record ControllerConfig =
  cfg_NodeIDs :: "string list"
  cfg_SourceIDs :: "string list"
  cfg_SinkIDs :: "string list"
  cfg_OnCheckpointComplete :: bool
  cfg_OnQuiescence :: bool
  cfg_CompletionBufferSize :: int

definition id_set :: "string list \<Rightarrow> (string, bool) gomap" where
  "id_set ids = fold (\<lambda>nid m. AList.update nid True m) ids []"

definition NewController :: "ControllerConfig \<Rightarrow> Controller" where
  "NewController cfg =
     (let bufSize = (if cfg_CompletionBufferSize cfg \<le> 0 then 64 else cfg_CompletionBufferSize cfg)
      in \<lparr>c_nodeIDs = id_set (cfg_NodeIDs cfg), c_sourceIDs = id_set (cfg_SourceIDs cfg),
          c_sinkIDs = id_set (cfg_SinkIDs cfg), c_checkpoints = [], c_stoppedNodes = [],
          c_chanSize = bufSize, c_onCheckpointComplete = cfg_OnCheckpointComplete cfg,
          c_onQuiescence = cfg_OnQuiescence cfg, c_quiescent = False,
          c_completeCalls = [], c_quiescenceCalls = 0\<rparr>)"

definition new_info :: "time \<Rightarrow> u64 \<Rightarrow> bool \<Rightarrow> CheckpointInfo" where
  "new_info now epoch thenStop =
     \<lparr>ci_Epoch = epoch, ci_Status = CheckpointInProgress, ci_StartedAt = now,
      ci_CompletedAt = zero_time, ci_CompletedNodes = [], ci_NodeStates = [], ci_ThenStop = thenStop\<rparr>"

text \<open>
  \<open>InitiateCheckpoint\<close> is a locked step and a loop that sends the request to the source
  runtimes until one refuses; \<open>send\<close> is \<open>rt.SendControl\<close> with the caller's context.
\<close>

definition track_checkpoint :: "time \<Rightarrow> u64 \<Rightarrow> bool \<Rightarrow> Controller \<Rightarrow> Controller" where
  "track_checkpoint now epoch thenStop c =
     c\<lparr>c_checkpoints := AList.update epoch (new_info now epoch thenStop) (c_checkpoints c)\<rparr>"

primrec send_controls ::
  "(ControlMessage \<Rightarrow> 'rt \<Rightarrow> error + 'rt) \<Rightarrow> ControlMessage \<Rightarrow> 'rt list \<Rightarrow> 'rt list \<times> error option" where
  "send_controls send ctrl [] = ([], None)"
| "send_controls send ctrl (rt # rts) =
     (case send ctrl rt of
        Inl err \<Rightarrow> (rt # rts, Some err)
      | Inr rt' \<Rightarrow> (case send_controls send ctrl rts of (rts', err) \<Rightarrow> (rt' # rts', err)))"

definition InitiateCheckpoint ::
  "(ControlMessage \<Rightarrow> 'rt \<Rightarrow> error + 'rt) \<Rightarrow> time \<Rightarrow> u64 \<Rightarrow> bool \<Rightarrow> 'rt list \<Rightarrow> Controller \<Rightarrow>
     Controller \<times> 'rt list \<times> error option" where
  "InitiateCheckpoint send now epoch thenStop sourceRuntimes c =
     (track_checkpoint now epoch thenStop c,
      send_controls send (NewCheckpointRequestControl epoch 0 thenStop) sourceRuntimes)"

definition GetCheckpoint :: "u64 \<Rightarrow> Controller \<Rightarrow> CheckpointInfo option" where
  "GetCheckpoint epoch c = map_of (c_checkpoints c) epoch"

definition IsQuiescent :: "Controller \<Rightarrow> bool" where
  "IsQuiescent c = c_quiescent c"

definition checkQuiescenceLocked :: "Controller \<Rightarrow> Controller" where
  "checkQuiescenceLocked c =
     (if c_quiescent c then c
      else if length (c_stoppedNodes c) < length (c_nodeIDs c) then c
      else if \<not> list_ex (\<lambda>(_, info). ci_Status info = CheckpointComplete) (c_checkpoints c) then c
      else let c = c\<lparr>c_quiescent := True\<rparr>
           in if c_onQuiescence c then c\<lparr>c_quiescenceCalls := c_quiescenceCalls c + 1\<rparr> else c)"

definition handleCompletion :: "time \<Rightarrow> NodeCompletion \<Rightarrow> Controller \<Rightarrow> Controller" where
  "handleCompletion now completion c =
     (let epoch = nc_Epoch completion;
          c = (case map_of (c_checkpoints c) epoch of
                 None \<Rightarrow> c\<lparr>c_checkpoints := AList.update epoch (new_info now epoch False) (c_checkpoints c)\<rparr>
               | Some _ \<Rightarrow> c);
          info = the (map_of (c_checkpoints c) epoch)
      in if ci_Status info = CheckpointComplete then c
         else
           let info = info\<lparr>ci_CompletedNodes := AList.update (nc_NodeID completion) True (ci_CompletedNodes info),
                           ci_NodeStates := AList.update (nc_NodeID completion) (nc_State completion) (ci_NodeStates info)\<rparr>
           in if length (ci_CompletedNodes info) = length (c_nodeIDs c)
              then
                let info = info\<lparr>ci_Status := CheckpointComplete, ci_CompletedAt := now\<rparr>;
                    c = c\<lparr>c_checkpoints := AList.update epoch info (c_checkpoints c)\<rparr>;
                    c = (if c_onCheckpointComplete c
                         then c\<lparr>c_completeCalls := c_completeCalls c @ [(epoch, info)]\<rparr> else c)
                in checkQuiescenceLocked c
              else c\<lparr>c_checkpoints := AList.update epoch info (c_checkpoints c)\<rparr>)"

definition handleNodeStopped :: "NodeStopped \<Rightarrow> Controller \<Rightarrow> Controller" where
  "handleNodeStopped stopped c =
     checkQuiescenceLocked (c\<lparr>c_stoppedNodes := AList.update (ns_NodeID stopped) True (c_stoppedNodes c)\<rparr>)"

text \<open>The loop of \<open>run\<close>: each turn takes the case that its \<open>select\<close> chose.\<close>

datatype controller_select =
    SelCtxDone
  | SelCompletion time NodeCompletion
  | SelStopped NodeStopped

primrec Controller_run :: "controller_select list \<Rightarrow> Controller \<Rightarrow> Controller" where
  "Controller_run [] c = c"
| "Controller_run (sel # sels) c =
     (case sel of
        SelCtxDone \<Rightarrow> c
      | SelCompletion now completion \<Rightarrow> Controller_run sels (handleCompletion now completion c)
      | SelStopped stopped \<Rightarrow> Controller_run sels (handleNodeStopped stopped c))"

section \<open>Histories\<close>

text \<open>
  The locked steps of a controller in the order in which they happen: the loop's handlers and the
  first half of \<open>InitiateCheckpoint\<close>, which other goroutines call.
\<close>

datatype controller_event =
    EvInitiate time u64 bool
  | EvCompletion time NodeCompletion
  | EvStopped NodeStopped

primrec controller_step :: "controller_event \<Rightarrow> Controller \<Rightarrow> Controller" where
  "controller_step (EvInitiate now epoch thenStop) c = track_checkpoint now epoch thenStop c"
| "controller_step (EvCompletion now r) c = handleCompletion now r c"
| "controller_step (EvStopped s) c = handleNodeStopped s c"

text \<open>
  The specification: the log of an epoch holds the reports for it since it was last initiated,
  \<open>None\<close> when the epoch was never mentioned; the reports that count are those up to the one with
  which every node has reported.
\<close>

primrec log_step :: "u64 \<Rightarrow> controller_event \<Rightarrow> NodeCompletion list option \<Rightarrow> NodeCompletion list option" where
  "log_step e (EvInitiate now e' ts) l = (if e' = e then Some [] else l)"
| "log_step e (EvCompletion now r) l =
     (if nc_Epoch r = e then Some ((case l of None \<Rightarrow> [] | Some rs \<Rightarrow> rs) @ [r]) else l)"
| "log_step e (EvStopped s) l = l"

definition epoch_log :: "u64 \<Rightarrow> controller_event list \<Rightarrow> NodeCompletion list option" where
  "epoch_log e evs = fold (log_step e) evs None"

primrec until_all :: "string set \<Rightarrow> string set \<Rightarrow> NodeCompletion list \<Rightarrow> NodeCompletion list" where
  "until_all N seen [] = []"
| "until_all N seen (r # rs) =
     (if N \<subseteq> seen then [] else r # until_all N (insert (nc_NodeID r) seen) rs)"

abbreviation reporters :: "NodeCompletion list \<Rightarrow> string set" where
  "reporters rs \<equiv> nc_NodeID ` set rs"

primrec stops :: "controller_event list \<Rightarrow> string set" where
  "stops [] = {}"
| "stops (ev # evs) = (case ev of EvStopped s \<Rightarrow> insert (ns_NodeID s) (stops evs) | _ \<Rightarrow> stops evs)"

text \<open>Reports come from nodes of the graph; an epoch is not initiated again once it has reports.\<close>

primrec from_nodes :: "string set \<Rightarrow> controller_event \<Rightarrow> bool" where
  "from_nodes N (EvInitiate now e ts) = True"
| "from_nodes N (EvCompletion now r) = (nc_NodeID r \<in> N)"
| "from_nodes N (EvStopped s) = (ns_NodeID s \<in> N)"

definition initiates :: "u64 \<Rightarrow> controller_event \<Rightarrow> bool" where
  "initiates e ev \<longleftrightarrow> (case ev of EvInitiate _ e' _ \<Rightarrow> e' = e | _ \<Rightarrow> False)"

primrec no_restart :: "u64 \<Rightarrow> controller_event list \<Rightarrow> bool" where
  "no_restart e [] = True"
| "no_restart e (ev # evs) =
     ((case ev of EvCompletion _ r \<Rightarrow> nc_Epoch r = e \<longrightarrow> \<not> list_ex (initiates e) evs | _ \<Rightarrow> True)
      \<and> no_restart e evs)"

section \<open>Lemmas\<close>

lemma id_set_ok [simp]: "gomap_ok (id_set ids)" "fst ` set (id_set ids) = set ids"
proof -
  show "gomap_ok (id_set ids)"
    unfolding id_set_def by (rule gomap_ok_fold_update) simp
  have "fst ` set (fold (\<lambda>nid m. AList.update nid True m) ids m0) = fst ` set m0 \<union> set ids" for m0
    by (induction ids arbitrary: m0) (simp_all add: keys_update [simplified])
  then show "fst ` set (id_set ids) = set ids"
    by (simp add: id_set_def)
qed

lemma epoch_log_snoc [simp]:
  "epoch_log e [] = None" "epoch_log e (evs @ [ev]) = log_step e ev (epoch_log e evs)"
  by (simp_all add: epoch_log_def)

lemma stops_snoc [simp]:
  "stops (evs @ [ev]) = (case ev of EvStopped s \<Rightarrow> insert (ns_NodeID s) (stops evs) | _ \<Rightarrow> stops evs)"
  by (induction evs) (auto split: controller_event.splits)

lemma until_all_snoc [simp]:
  "until_all N seen (rs @ [r]) =
     until_all N seen rs @ (if N \<subseteq> seen \<union> reporters rs then [] else [r])"
  by (induction rs arbitrary: seen) auto

lemma until_all_id: "\<not> N \<subseteq> seen \<union> reporters rs \<Longrightarrow> until_all N seen rs = rs"
  by (induction rs arbitrary: seen) auto

lemma until_all_reporters:
  "reporters rs \<subseteq> N \<Longrightarrow> reporters (until_all N {} rs) = reporters rs"
proof (induction rs rule: rev_induct)
  case (snoc r rs)
  then show ?case by auto
qed simp

lemma no_restart_snoc:
  "no_restart e (evs @ [ev]) \<Longrightarrow>
     no_restart e evs \<and> (initiates e ev \<longrightarrow> epoch_log e evs = None \<or> epoch_log e evs = Some [])"
proof (induction evs rule: rev_induct)
  case (snoc x evs)
  have app: "no_restart e (xs @ ys) \<Longrightarrow> no_restart e xs \<and> no_restart e ys" for xs ys
    by (induction xs) (auto split: controller_event.splits)
  have "no_restart e (evs @ [ev])"
    using snoc.prems by (induction evs) (auto split: controller_event.splits)
  with snoc.IH have IH: "initiates e ev \<longrightarrow> epoch_log e evs = None \<or> epoch_log e evs = Some []"
    by blast
  have "no_restart e (evs @ [x])" "no_restart e [x, ev]"
    using app [of "evs @ [x]" "[ev]"] app [of evs "[x, ev]"] snoc.prems by auto
  with IH show ?case
    by (cases x) (auto simp: initiates_def)
qed simp

text \<open>What a report does to the record of its epoch.\<close>

definition report_info :: "time \<Rightarrow> NodeCompletion \<Rightarrow> nat \<Rightarrow> CheckpointInfo \<Rightarrow> CheckpointInfo" where
  "report_info now r n info =
     (let info = info\<lparr>ci_CompletedNodes := AList.update (nc_NodeID r) True (ci_CompletedNodes info),
                      ci_NodeStates := AList.update (nc_NodeID r) (nc_State r) (ci_NodeStates info)\<rparr>
      in if length (ci_CompletedNodes info) = n
         then info\<lparr>ci_Status := CheckpointComplete, ci_CompletedAt := now\<rparr> else info)"

definition calls_of :: "u64 \<Rightarrow> Controller \<Rightarrow> (u64 \<times> CheckpointInfo) list" where
  "calls_of e c = filter (\<lambda>(e', _). e' = e) (c_completeCalls c)"

lemma checkQuiescence_frame [simp]:
  "c_checkpoints (checkQuiescenceLocked c) = c_checkpoints c"
  "c_completeCalls (checkQuiescenceLocked c) = c_completeCalls c"
  "c_nodeIDs (checkQuiescenceLocked c) = c_nodeIDs c"
  "c_stoppedNodes (checkQuiescenceLocked c) = c_stoppedNodes c"
  "c_onCheckpointComplete (checkQuiescenceLocked c) = c_onCheckpointComplete c"
  "c_onQuiescence (checkQuiescenceLocked c) = c_onQuiescence c"
  by (simp_all add: checkQuiescenceLocked_def Let_def)

lemma handleCompletion_frame [simp]:
  "c_nodeIDs (handleCompletion now r c) = c_nodeIDs c"
  "c_stoppedNodes (handleCompletion now r c) = c_stoppedNodes c"
  "c_onCheckpointComplete (handleCompletion now r c) = c_onCheckpointComplete c"
  "c_onQuiescence (handleCompletion now r c) = c_onQuiescence c"
  by (simp_all add: handleCompletion_def Let_def split: option.splits)

lemma handleCompletion_other:
  assumes "nc_Epoch r \<noteq> e"
  shows "map_of (c_checkpoints (handleCompletion now r c)) e = map_of (c_checkpoints c) e"
    and "calls_of e (handleCompletion now r c) = calls_of e c"
  using assms by (simp_all add: handleCompletion_def Let_def go_maps calls_of_def split: option.splits)

lemma handleCompletion_same:
  assumes "c_onCheckpointComplete c"
    and "map_of (c_checkpoints c) (nc_Epoch r) = Some info \<or>
      map_of (c_checkpoints c) (nc_Epoch r) = None \<and> info = new_info now (nc_Epoch r) False"
  shows "map_of (c_checkpoints (handleCompletion now r c)) (nc_Epoch r) =
      Some (if ci_Status info = CheckpointComplete then info else report_info now r (length (c_nodeIDs c)) info)"
    and "calls_of (nc_Epoch r) (handleCompletion now r c) = calls_of (nc_Epoch r) c @
      (if ci_Status info \<noteq> CheckpointComplete \<and>
          ci_Status (report_info now r (length (c_nodeIDs c)) info) = CheckpointComplete
       then [(nc_Epoch r, report_info now r (length (c_nodeIDs c)) info)] else [])"
  using assms(2)
  by (elim disjE conjE; simp add: assms(1) handleCompletion_def Let_def go_maps calls_of_def report_info_def new_info_def)+

text \<open>
  The simulation: what the controller holds of an epoch against the log of its reports. A record
  is complete when the nodes that have reported are all nodes of the graph.
\<close>

definition states_of :: "NodeCompletion list \<Rightarrow> string \<Rightarrow> bytes option" where
  "states_of rs = map_of (rev (map (\<lambda>r. (nc_NodeID r, nc_State r)) rs))"

definition info_rel :: "string set \<Rightarrow> NodeCompletion list \<Rightarrow> CheckpointInfo \<Rightarrow> bool" where
  "info_rel N rs info \<longleftrightarrow>
     gomap_ok (ci_CompletedNodes info) \<and>
     fst ` set (ci_CompletedNodes info) = reporters (until_all N {} rs) \<and>
     map_of (ci_NodeStates info) = states_of (until_all N {} rs) \<and>
     (ci_Status info = CheckpointComplete \<longleftrightarrow> N \<subseteq> reporters rs)"

definition epoch_rel :: "string set \<Rightarrow> u64 \<Rightarrow> NodeCompletion list option \<Rightarrow> Controller \<Rightarrow> bool" where
  "epoch_rel N e l c \<longleftrightarrow>
     (case l of
        None \<Rightarrow> map_of (c_checkpoints c) e = None
      | Some rs \<Rightarrow> (\<exists>info. map_of (c_checkpoints c) e = Some info \<and> info_rel N rs info))"

definition calls_rel :: "string set \<Rightarrow> u64 \<Rightarrow> NodeCompletion list option \<Rightarrow> Controller \<Rightarrow> bool" where
  "calls_rel N e l c \<longleftrightarrow>
     calls_of e c = (case l of
        None \<Rightarrow> []
      | Some rs \<Rightarrow> if N \<subseteq> reporters rs then [(e, the (map_of (c_checkpoints c) e))] else [])"

lemma info_rel_new: "N \<noteq> {} \<Longrightarrow> info_rel N [] (new_info now e ts)"
  by (simp add: info_rel_def new_info_def states_of_def)

lemma info_rel_report:
  assumes rel: "info_rel N rs info" and open_: "ci_Status info \<noteq> CheckpointComplete"
    and r: "nc_NodeID r \<in> N" and rs: "reporters rs \<subseteq> N" and N: "finite N" "n = card N"
  shows "info_rel N (rs @ [r]) (report_info now r n info)"
proof -
  let ?done = "AList.update (nc_NodeID r) True (ci_CompletedNodes info)"
  have nc: "\<not> N \<subseteq> reporters rs"
    using rel open_ by (simp add: info_rel_def)
  have all: "until_all N {} rs = rs"
    using until_all_id [of N "{}"] nc by simp
  have keys: "fst ` set ?done = reporters (rs @ [r])" and ok: "gomap_ok ?done"
    using rel all by (simp_all add: info_rel_def keys_update [simplified])
  have "length ?done = card (reporters (rs @ [r]))"
    using length_gomap_card [OF ok] keys by simp
  moreover have sub: "reporters (rs @ [r]) \<subseteq> N"
    using r rs by auto
  ultimately have full: "length ?done = n \<longleftrightarrow> N \<subseteq> reporters (rs @ [r])"
    using N card_subset_eq [OF N(1) sub] subset_antisym [OF sub] by metis
  have "map_of (AList.update (nc_NodeID r) (nc_State r) (ci_NodeStates info)) = states_of (rs @ [r])"
    using rel all by (simp add: info_rel_def states_of_def go_maps)
  with keys ok full nc all open_ show ?thesis
    by (auto simp: info_rel_def report_info_def Let_def simp del: image_insert)
qed

lemma reporters_sub:
  "list_all (from_nodes N) evs \<Longrightarrow> epoch_log e evs = Some rs \<Longrightarrow> reporters rs \<subseteq> N"
proof (induction evs arbitrary: rs rule: rev_induct)
  case (snoc ev evs)
  then show ?case
    by (cases ev; cases "epoch_log e evs") (fastforce split: if_splits)+
qed simp

lemma controller_step_frame [simp]:
  "c_nodeIDs (controller_step ev c) = c_nodeIDs c"
  "c_onCheckpointComplete (controller_step ev c) = c_onCheckpointComplete c"
  "c_onQuiescence (controller_step ev c) = c_onQuiescence c"
  by (cases ev; simp add: track_checkpoint_def handleNodeStopped_def)+

lemma controller_fold_frame [simp]:
  "c_nodeIDs (fold controller_step evs c) = c_nodeIDs c"
  "c_onCheckpointComplete (fold controller_step evs c) = c_onCheckpointComplete c"
  "c_onQuiescence (fold controller_step evs c) = c_onQuiescence c"
  by (induction evs arbitrary: c) simp_all

text \<open>One report, on the record of its own epoch.\<close>

lemma report_rel:
  assumes "epoch_rel N (nc_Epoch r) l c" "c_onCheckpointComplete c" "nc_NodeID r \<in> N"
    and "\<And>rs. l = Some rs \<Longrightarrow> reporters rs \<subseteq> N" "finite N" "length (c_nodeIDs c) = card N"
  shows "epoch_rel N (nc_Epoch r) (log_step (nc_Epoch r) (EvCompletion now r) l) (handleCompletion now r c)"
    and "calls_rel N (nc_Epoch r) l c \<Longrightarrow>
      calls_rel N (nc_Epoch r) (log_step (nc_Epoch r) (EvCompletion now r) l) (handleCompletion now r c)"
proof -
  define rs where "rs = (case l of None \<Rightarrow> [] | Some rs \<Rightarrow> rs)"
  obtain info where info: "map_of (c_checkpoints c) (nc_Epoch r) = Some info \<or>
      map_of (c_checkpoints c) (nc_Epoch r) = None \<and> info = new_info now (nc_Epoch r) False"
    and rel: "info_rel N rs info" and prev: "l \<noteq> None \<Longrightarrow> map_of (c_checkpoints c) (nc_Epoch r) = Some info"
  proof (cases l)
    case None
    with assms(1,3) show thesis
      by (intro that [of "new_info now (nc_Epoch r) False"]) (auto simp: epoch_rel_def rs_def intro: info_rel_new)
  next
    case (Some rs')
    with assms(1) show thesis
      by (auto simp: epoch_rel_def rs_def intro: that)
  qed
  have sub: "reporters rs \<subseteq> N"
    using assms(4) by (auto simp: rs_def split: option.splits)
  have closed: "ci_Status info = CheckpointComplete \<longleftrightarrow> N \<subseteq> reporters rs"
    using rel by (simp add: info_rel_def)
  define info' where "info' = (if ci_Status info = CheckpointComplete then info
    else report_info now r (length (c_nodeIDs c)) info)"
  have rel': "info_rel N (rs @ [r]) info'"
  proof (cases "ci_Status info = CheckpointComplete")
    case True
    with rel closed show ?thesis by (auto simp: info'_def info_rel_def)
  next
    case False
    with info_rel_report [OF rel _ assms(3) sub assms(5,6)] show ?thesis by (simp add: info'_def)
  qed
  have new: "map_of (c_checkpoints (handleCompletion now r c)) (nc_Epoch r) = Some info'"
    using handleCompletion_same(1) [OF assms(2) info] by (simp add: info'_def)
  with rel' show "epoch_rel N (nc_Epoch r) (log_step (nc_Epoch r) (EvCompletion now r) l) (handleCompletion now r c)"
    by (simp add: epoch_rel_def rs_def)
  assume calls: "calls_rel N (nc_Epoch r) l c"
  have old: "calls_of (nc_Epoch r) c = (if N \<subseteq> reporters rs then [(nc_Epoch r, info)] else [])"
    using calls prev assms(3) by (cases l) (auto simp: calls_rel_def rs_def)
  have complete: "ci_Status info' = CheckpointComplete \<longleftrightarrow> N \<subseteq> reporters (rs @ [r])"
    using rel' by (simp add: info_rel_def)
  have log: "log_step (nc_Epoch r) (EvCompletion now r) l = Some (rs @ [r])"
    by (simp add: rs_def)
  have "calls_of (nc_Epoch r) (handleCompletion now r c) =
    (if N \<subseteq> reporters (rs @ [r]) then [(nc_Epoch r, info')] else [])"
  proof (cases "N \<subseteq> reporters rs")
    case True
    then have "N \<subseteq> reporters (rs @ [r])" by auto
    with True handleCompletion_same(2) [OF assms(2) info] old closed show ?thesis
      by (simp add: info'_def)
  next
    case False
    with handleCompletion_same(2) [OF assms(2) info] old closed complete show ?thesis
      by (simp add: info'_def)
  qed
  then show "calls_rel N (nc_Epoch r) (log_step (nc_Epoch r) (EvCompletion now r) l) (handleCompletion now r c)"
    unfolding log calls_rel_def using new by simp
qed

text \<open>The simulation over a whole history.\<close>

definition run_ok :: "string set \<Rightarrow> Controller \<Rightarrow> bool" where
  "run_ok N c \<longleftrightarrow> finite N \<and> N \<noteq> {} \<and> c_onCheckpointComplete c \<and> length (c_nodeIDs c) = card N \<and>
     c_checkpoints c = [] \<and> c_completeCalls c = []"

lemma history_rel:
  assumes "run_ok N c" "list_all (from_nodes N) evs"
  shows "epoch_rel N e (epoch_log e evs) (fold controller_step evs c)"
    and "no_restart e evs \<Longrightarrow> calls_rel N e (epoch_log e evs) (fold controller_step evs c)"
proof -
  have "epoch_rel N e (epoch_log e evs) (fold controller_step evs c) \<and>
    (no_restart e evs \<longrightarrow> calls_rel N e (epoch_log e evs) (fold controller_step evs c))"
    using assms(2)
  proof (induction evs rule: rev_induct)
    case Nil
    then show ?case using assms(1) by (simp add: epoch_rel_def calls_rel_def run_ok_def calls_of_def)
  next
    case (snoc ev evs)
    let ?c = "fold controller_step evs c" and ?l = "epoch_log e evs"
    have IH: "epoch_rel N e ?l ?c" "no_restart e evs \<Longrightarrow> calls_rel N e ?l ?c"
      using snoc by auto
    have nr: "no_restart e evs" "initiates e ev \<Longrightarrow> ?l = None \<or> ?l = Some []" if "no_restart e (evs @ [ev])"
      using no_restart_snoc [OF that] by auto
    show ?case
    proof (cases ev)
      case (EvInitiate now e' ts)
      with IH nr assms(1) show ?thesis
        by (auto simp: epoch_rel_def calls_rel_def track_checkpoint_def go_maps calls_of_def run_ok_def
            initiates_def info_rel_new split: option.splits)
    next
      case (EvCompletion now r)
      show ?thesis
      proof (cases "nc_Epoch r = e")
        case True
        have N: "finite N" "length (c_nodeIDs ?c) = card N" "c_onCheckpointComplete ?c"
          using assms(1) by (auto simp: run_ok_def)
        have "list_all (from_nodes N) evs" "nc_NodeID r \<in> N"
          using snoc.prems EvCompletion by auto
        note step = report_rel [OF _ N(3) this(2) reporters_sub [OF this(1)] N(1,2), where now = now]
        from step(1) [of ?l] step(2) [of ?l] IH nr(1) True EvCompletion show ?thesis
          by auto
      next
        case False
        with IH nr EvCompletion show ?thesis
          by (auto simp: epoch_rel_def calls_rel_def handleCompletion_other split: option.splits)
      qed
    next
      case (EvStopped s)
      with IH nr show ?thesis
        by (auto simp: epoch_rel_def calls_rel_def handleNodeStopped_def calls_of_def split: option.splits)
    qed
  qed
  then show "epoch_rel N e (epoch_log e evs) (fold controller_step evs c)"
    and "no_restart e evs \<Longrightarrow> calls_rel N e (epoch_log e evs) (fold controller_step evs c)"
    by auto
qed

lemma run_ok_new:
  "cfg_NodeIDs cfg \<noteq> [] \<Longrightarrow> cfg_OnCheckpointComplete cfg \<Longrightarrow> run_ok (set (cfg_NodeIDs cfg)) (NewController cfg)"
  using length_gomap_card [OF id_set_ok(1) [of "cfg_NodeIDs cfg"]]
  by (simp add: run_ok_def NewController_def Let_def)

section \<open>Quiescence\<close>

definition complete_at :: "Controller \<Rightarrow> u64 \<Rightarrow> bool" where
  "complete_at c e \<longleftrightarrow> (\<exists>info. map_of (c_checkpoints c) e = Some info \<and> ci_Status info = CheckpointComplete)"

definition quiescence_condition :: "Controller \<Rightarrow> bool" where
  "quiescence_condition c \<longleftrightarrow> length (c_nodeIDs c) \<le> length (c_stoppedNodes c) \<and> (\<exists>e. complete_at c e)"

definition quiescence_inv :: "Controller \<Rightarrow> bool" where
  "quiescence_inv c \<longleftrightarrow>
     gomap_ok (c_checkpoints c) \<and> gomap_ok (c_stoppedNodes c) \<and>
     (c_quiescent c \<longleftrightarrow> quiescence_condition c) \<and>
     c_quiescenceCalls c = (if c_quiescent c \<and> c_onQuiescence c then 1 else 0)"

lemma list_ex_complete:
  "gomap_ok (c_checkpoints c) \<Longrightarrow>
   list_ex (\<lambda>(_, info). ci_Status info = CheckpointComplete) (c_checkpoints c) \<longleftrightarrow> (\<exists>e. complete_at c e)"
  by (force simp: list_ex_iff complete_at_def dest: map_of_SomeD)

text \<open>The check restores the invariant after a step that can only make the condition true.\<close>

lemma checkQuiescence_inv:
  assumes "gomap_ok (c_checkpoints c)" "gomap_ok (c_stoppedNodes c)"
    and "c_quiescent c \<Longrightarrow> quiescence_condition c"
    and "c_quiescenceCalls c = (if c_quiescent c \<and> c_onQuiescence c then 1 else 0)"
  shows "quiescence_inv (checkQuiescenceLocked c)"
proof -
  have "quiescence_condition (checkQuiescenceLocked c) = quiescence_condition c"
    by (simp add: quiescence_condition_def complete_at_def)
  moreover have "c_quiescent (checkQuiescenceLocked c) \<longleftrightarrow> quiescence_condition c"
    using assms(3) list_ex_complete [OF assms(1)]
    by (auto simp: checkQuiescenceLocked_def Let_def quiescence_condition_def)
  moreover have "c_quiescenceCalls (checkQuiescenceLocked c) =
      (if c_quiescent (checkQuiescenceLocked c) \<and> c_onQuiescence c then 1 else 0)"
    using assms(4) by (simp add: checkQuiescenceLocked_def Let_def)
  ultimately show ?thesis
    using assms(1,2) by (simp add: quiescence_inv_def)
qed

text \<open>Replacing the record of an epoch that is not complete by one that is not complete either.\<close>

lemma quiescence_inv_update:
  assumes "quiescence_inv c" "\<not> complete_at c e" "ci_Status info \<noteq> CheckpointComplete"
  shows "quiescence_inv (c\<lparr>c_checkpoints := AList.update e info (c_checkpoints c)\<rparr>)"
proof -
  have "complete_at (c\<lparr>c_checkpoints := AList.update e info (c_checkpoints c)\<rparr>) = complete_at c"
    using assms(2,3) by (auto simp: complete_at_def go_maps fun_eq_iff)
  with assms(1) show ?thesis
    by (simp add: quiescence_inv_def quiescence_condition_def)
qed

lemma quiescence_inv_stopped: "quiescence_inv c \<Longrightarrow> quiescence_inv (handleNodeStopped s c)"
  unfolding handleNodeStopped_def
  by (rule checkQuiescence_inv)
    (auto simp: quiescence_inv_def quiescence_condition_def complete_at_def length_update)

lemma quiescence_inv_finish:
  assumes "quiescence_inv c" "ci_Status info = CheckpointComplete"
  shows "quiescence_inv (checkQuiescenceLocked
    (c\<lparr>c_checkpoints := AList.update e info (c_checkpoints c), c_completeCalls := calls\<rparr>))"
proof (rule checkQuiescence_inv)
  let ?c = "c\<lparr>c_checkpoints := AList.update e info (c_checkpoints c), c_completeCalls := calls\<rparr>"
  have "complete_at ?c e"
    using assms(2) by (simp add: complete_at_def go_maps)
  then show "quiescence_condition ?c" if "c_quiescent ?c"
    using that assms(1) by (auto simp: quiescence_inv_def quiescence_condition_def)
qed (use assms(1) in \<open>auto simp: quiescence_inv_def\<close>)

lemma quiescence_inv_completion:
  assumes inv: "quiescence_inv c"
  shows "quiescence_inv (handleCompletion now r c)"
proof -
  let ?e = "nc_Epoch r"
  define c0 where "c0 = (case map_of (c_checkpoints c) ?e of
      None \<Rightarrow> c\<lparr>c_checkpoints := AList.update ?e (new_info now ?e False) (c_checkpoints c)\<rparr> | Some _ \<Rightarrow> c)"
  have inv0: "quiescence_inv c0"
    using inv quiescence_inv_update [OF inv, of ?e "new_info now ?e False"]
    by (auto simp: c0_def new_info_def complete_at_def split: option.splits)
  obtain info where info: "map_of (c_checkpoints c0) ?e = Some info"
    by (cases "map_of (c_checkpoints c) ?e") (auto simp: c0_def go_maps)
  define info' where "info' = info\<lparr>ci_CompletedNodes := AList.update (nc_NodeID r) True (ci_CompletedNodes info),
      ci_NodeStates := AList.update (nc_NodeID r) (nc_State r) (ci_NodeStates info)\<rparr>"
  let ?fin = "info'\<lparr>ci_Status := CheckpointComplete, ci_CompletedAt := now\<rparr>"
  let ?calls = "if c_onCheckpointComplete c0 then c_completeCalls c0 @ [(?e, ?fin)] else c_completeCalls c0"
  have eq: "handleCompletion now r c =
    (if ci_Status info = CheckpointComplete then c0
     else if length (ci_CompletedNodes info') = length (c_nodeIDs c0)
          then checkQuiescenceLocked (c0\<lparr>c_checkpoints := AList.update ?e ?fin (c_checkpoints c0), c_completeCalls := ?calls\<rparr>)
          else c0\<lparr>c_checkpoints := AList.update ?e info' (c_checkpoints c0)\<rparr>)"
    unfolding handleCompletion_def c0_def [symmetric] Let_def info option.sel info'_def [symmetric]
    by simp
  show ?thesis
    unfolding eq
    using inv0 quiescence_inv_finish [OF inv0, where info = ?fin and e = ?e and calls = ?calls] quiescence_inv_update [OF inv0, of ?e info'] info
    by (simp add: complete_at_def info'_def)
qed

lemma quiescence_history:
  assumes "run_ok N c" "quiescence_inv c" "list_all (from_nodes N) evs" "\<And>e. no_restart e evs"
  shows "quiescence_inv (fold controller_step evs c)"
  using assms(3,4)
proof (induction evs rule: rev_induct)
  case Nil
  then show ?case using assms(2) by simp
next
  case (snoc ev evs)
  let ?c = "fold controller_step evs c"
  have nr: "no_restart e evs" "initiates e ev \<Longrightarrow> epoch_log e evs = None \<or> epoch_log e evs = Some []" for e
    using no_restart_snoc snoc.prems(2) by blast+
  have IH: "quiescence_inv ?c"
    using snoc.IH snoc.prems nr(1) by simp
  show ?case
  proof (cases ev)
    case (EvInitiate now e ts)
    have "epoch_rel N e (epoch_log e evs) ?c"
      using history_rel(1) [OF assms(1)] snoc.prems(1) by simp
    then have "\<not> complete_at ?c e"
      using nr(2) [of e] EvInitiate assms(1)
      by (auto simp: epoch_rel_def complete_at_def info_rel_def initiates_def run_ok_def)
    with IH EvInitiate show ?thesis
      using quiescence_inv_update [OF IH, of e "new_info now e ts"]
      by (simp add: track_checkpoint_def new_info_def)
  next
    case (EvCompletion now r)
    with IH show ?thesis by (simp add: quiescence_inv_completion)
  next
    case (EvStopped s)
    with IH show ?thesis by (simp add: quiescence_inv_stopped)
  qed
qed

lemma stopped_keys:
  "fst ` set (c_stoppedNodes (fold controller_step evs c)) = fst ` set (c_stoppedNodes c) \<union> stops evs"
proof (induction evs rule: rev_induct)
  case (snoc ev evs)
  then show ?case
    by (cases ev) (simp_all add: track_checkpoint_def handleNodeStopped_def keys_update [simplified])
qed simp

lemma stops_sub: "list_all (from_nodes N) evs \<Longrightarrow> stops evs \<subseteq> N"
  by (induction evs) (auto split: controller_event.splits)

text \<open>The loop of the controller's goroutine is such a history, cut at the cancellation.\<close>

primrec select_events :: "controller_select list \<Rightarrow> controller_event list" where
  "select_events [] = []"
| "select_events (sel # sels) =
     (case sel of
        SelCtxDone \<Rightarrow> []
      | SelCompletion now r \<Rightarrow> EvCompletion now r # select_events sels
      | SelStopped s \<Rightarrow> EvStopped s # select_events sels)"

lemma Controller_run_history: "Controller_run sels c = fold controller_step (select_events sels) c"
  by (induction sels arbitrary: c) (auto split: controller_select.splits)

section \<open>Properties\<close>

lemma checkpoint_history:
  assumes "cfg_NodeIDs cfg \<noteq> []" "cfg_OnCheckpointComplete cfg"
    and "list_all (from_nodes (set (cfg_NodeIDs cfg))) evs" "no_restart e evs"
    and "c = fold controller_step evs (NewController cfg)"
  shows "case GetCheckpoint e c of
      None \<Rightarrow> epoch_log e evs = None \<and> calls_of e c = []
    | Some info \<Rightarrow>
        (\<exists>rs. epoch_log e evs = Some rs \<and>
          (ci_Status info = CheckpointComplete \<longleftrightarrow> set (cfg_NodeIDs cfg) = reporters rs) \<and>
          set (map fst (ci_CompletedNodes info)) = reporters rs \<and>
          map_of (ci_NodeStates info) = states_of (until_all (set (cfg_NodeIDs cfg)) {} rs) \<and>
          calls_of e c = (if ci_Status info = CheckpointComplete then [(e, info)] else []))"
proof -
  let ?N = "set (cfg_NodeIDs cfg)"
  note ok = run_ok_new [OF assms(1,2)]
  have rel: "epoch_rel ?N e (epoch_log e evs) c" "calls_rel ?N e (epoch_log e evs) c"
    using history_rel [OF ok assms(3)] assms(4,5) by auto
  show ?thesis
  proof (cases "epoch_log e evs")
    case None
    with rel show ?thesis by (simp add: epoch_rel_def calls_rel_def GetCheckpoint_def)
  next
    case (Some rs)
    have sub: "reporters rs \<subseteq> ?N" by (rule reporters_sub [OF assms(3) Some])
    then have same: "?N \<subseteq> reporters rs \<longleftrightarrow> ?N = reporters rs" by auto
    from rel Some obtain info where info: "GetCheckpoint e c = Some info" "info_rel ?N rs info"
      and calls: "calls_of e c = (if ?N \<subseteq> reporters rs then [(e, info)] else [])"
      by (auto simp: epoch_rel_def calls_rel_def GetCheckpoint_def)
    with Some same until_all_reporters [OF sub] show ?thesis
      by (simp add: info_rel_def)
  qed
qed

text \<open>
  C8. Checkpoint tracking. Take any history of a controller whose reports come from the nodes of
  the graph and in which an epoch is not initiated again after its first report. An epoch is known
  if and only if it was mentioned; it is complete if and only if every node has reported it; its
  states are the ones each node reported last up to the report that completed the epoch, later
  reports being ignored; and the completion callback has been called for it exactly once if it is
  complete, with that record, and not at all otherwise.
\<close>

theorem checkpoint_tracking:
  assumes "cfg_NodeIDs cfg \<noteq> []" "cfg_OnCheckpointComplete cfg"
    and "list_all (from_nodes (set (cfg_NodeIDs cfg))) evs" "no_restart e evs"
    and "c = fold controller_step evs (NewController cfg)"
  shows "case GetCheckpoint e c of
      None \<Rightarrow> epoch_log e evs = None \<and> calls_of e c = []
    | Some info \<Rightarrow>
        (\<exists>rs. epoch_log e evs = Some rs \<and>
          (ci_Status info = CheckpointComplete \<longleftrightarrow> set (cfg_NodeIDs cfg) = reporters rs) \<and>
          set (map fst (ci_CompletedNodes info)) = reporters rs \<and>
          map_of (ci_NodeStates info) = states_of (until_all (set (cfg_NodeIDs cfg)) {} rs) \<and>
          calls_of e c = (if ci_Status info = CheckpointComplete then [(e, info)] else []))"
  using assms by (rule checkpoint_history)

theorem checkpoint_tracking_witness:
  "\<exists>info. GetCheckpoint 1 (fold controller_step
      [EvInitiate 0 1 True, EvCompletion 5 \<lparr>nc_NodeID = ''b'', nc_Epoch = 1, nc_State = [9]\<rparr>,
       EvCompletion 6 \<lparr>nc_NodeID = ''a'', nc_Epoch = 1, nc_State = []\<rparr>]
      (NewController \<lparr>cfg_NodeIDs = [''a'', ''b''], cfg_SourceIDs = [''a''], cfg_SinkIDs = [''b''],
         cfg_OnCheckpointComplete = True, cfg_OnQuiescence = True, cfg_CompletionBufferSize = 0\<rparr>)) = Some info \<and>
     ci_Status info = CheckpointComplete \<and> map_of (ci_NodeStates info) ''b'' = Some [9]"
proof -
  let ?evs = "[EvInitiate 0 1 True, EvCompletion 5 \<lparr>nc_NodeID = ''b'', nc_Epoch = 1, nc_State = [9]\<rparr>,
       EvCompletion 6 \<lparr>nc_NodeID = ''a'', nc_Epoch = 1, nc_State = []\<rparr>]"
  let ?cfg = "\<lparr>cfg_NodeIDs = [''a'', ''b''], cfg_SourceIDs = [''a''], cfg_SinkIDs = [''b''],
         cfg_OnCheckpointComplete = True, cfg_OnQuiescence = True, cfg_CompletionBufferSize = 0\<rparr>"
  let ?c = "fold controller_step ?evs (NewController ?cfg)"
  have "epoch_log 1 ?evs = Some [\<lparr>nc_NodeID = ''b'', nc_Epoch = 1, nc_State = [9]\<rparr>,
      \<lparr>nc_NodeID = ''a'', nc_Epoch = 1, nc_State = []\<rparr>]"
    by (simp add: epoch_log_def)
  moreover have "no_restart 1 ?evs" "list_all (from_nodes (set (cfg_NodeIDs ?cfg))) ?evs"
    by (simp_all add: initiates_def)
  ultimately show ?thesis
    using checkpoint_tracking [of ?cfg ?evs 1 ?c]
    by (cases "GetCheckpoint 1 ?c") (auto simp del: fold.simps simp: states_of_def)
qed

text \<open>
  C9. Quiescence. In such a history the controller is quiescent if and only if every node has
  reported that it stopped and some checkpoint is complete, whatever the order of the reports, and
  the callback has been called once if it is and never otherwise.
\<close>

theorem quiescence_detected:
  assumes "cfg_NodeIDs cfg \<noteq> []" "cfg_OnCheckpointComplete cfg" "cfg_OnQuiescence cfg"
    and "list_all (from_nodes (set (cfg_NodeIDs cfg))) evs" "\<And>e. no_restart e evs"
    and "c = fold controller_step evs (NewController cfg)"
  shows "(IsQuiescent c \<longleftrightarrow> stops evs = set (cfg_NodeIDs cfg) \<and>
      (\<exists>e rs. epoch_log e evs = Some rs \<and> reporters rs = set (cfg_NodeIDs cfg))) \<and>
    c_quiescenceCalls c = (if IsQuiescent c then 1 else 0)"
proof -
  let ?N = "set (cfg_NodeIDs cfg)" and ?c0 = "NewController cfg"
  note ok = run_ok_new [OF assms(1,2)]
  have "quiescence_inv ?c0"
    using assms(1) by (simp add: quiescence_inv_def NewController_def Let_def quiescence_condition_def complete_at_def)
  then have inv: "quiescence_inv c"
    using quiescence_history [OF ok _ assms(4,5)] assms(6) by simp
  have complete: "complete_at c e \<longleftrightarrow> (\<exists>rs. epoch_log e evs = Some rs \<and> reporters rs = ?N)" for e
    using history_rel(1) [OF ok assms(4), of e] reporters_sub [OF assms(4), of e] assms(6)
    by (auto simp: epoch_rel_def complete_at_def info_rel_def split: option.splits)
  have "length (c_nodeIDs c) = card ?N"
    using ok assms(6) by (simp add: run_ok_def)
  moreover have "length (c_stoppedNodes c) = card (stops evs)"
    using inv length_gomap_card [of "c_stoppedNodes c"] stopped_keys [of evs ?c0] assms(6)
    by (simp add: quiescence_inv_def NewController_def Let_def)
  ultimately have "length (c_nodeIDs c) \<le> length (c_stoppedNodes c) \<longleftrightarrow> stops evs = ?N"
    using stops_sub [OF assms(4)] card_seteq [of ?N "stops evs"] by auto
  then show ?thesis
    using inv complete assms(3,6)
    by (simp add: quiescence_inv_def quiescence_condition_def IsQuiescent_def NewController_def Let_def)
qed

theorem quiescence_detected_witness:
  "IsQuiescent (fold controller_step
      [EvCompletion 5 \<lparr>nc_NodeID = ''a'', nc_Epoch = 1, nc_State = []\<rparr>, EvStopped \<lparr>ns_NodeID = ''a''\<rparr>]
      (NewController \<lparr>cfg_NodeIDs = [''a''], cfg_SourceIDs = [''a''], cfg_SinkIDs = [],
         cfg_OnCheckpointComplete = True, cfg_OnQuiescence = True, cfg_CompletionBufferSize = 0\<rparr>))"
proof -
  let ?evs = "[EvCompletion 5 \<lparr>nc_NodeID = ''a'', nc_Epoch = 1, nc_State = []\<rparr>, EvStopped \<lparr>ns_NodeID = ''a''\<rparr>]"
  let ?cfg = "\<lparr>cfg_NodeIDs = [''a''], cfg_SourceIDs = [''a''], cfg_SinkIDs = [],
         cfg_OnCheckpointComplete = True, cfg_OnQuiescence = True, cfg_CompletionBufferSize = 0\<rparr>"
  have "epoch_log 1 ?evs = Some [\<lparr>nc_NodeID = ''a'', nc_Epoch = 1, nc_State = []\<rparr>]"
    by (simp add: epoch_log_def)
  then have "\<exists>e rs. epoch_log e ?evs = Some rs \<and> reporters rs = set (cfg_NodeIDs ?cfg)"
    by (intro exI conjI) (assumption, simp)
  moreover have "no_restart e ?evs" for e
    by (simp add: initiates_def)
  ultimately show ?thesis
    using quiescence_detected [of ?cfg ?evs "fold controller_step ?evs (NewController ?cfg)"]
    by (simp del: fold.simps)
qed

end
