(* ===== verification/Operators.thy ===== *)
theory Operators
  imports Errors Graph Controller
begin

text \<open>
  Operators and the adapters that make nodes of them, \<open>internal/engine/operator.go\<close>, and the
  constructors of \<open>nodes/nodes.go\<close>. An operator is the record of its methods over its own state
  \<open>'s\<close>; the optional interfaces (\<open>TimerOperator\<close>, \<open>TickOperator\<close>, \<open>Drainable\<close>) are optional fields,
  a type test on them is the test of the option. Sources and operators of users are arbitrary such
  records. The type assertion \<open>msg.Value.(T)\<close> is a partial function from payloads.
\<close>

section \<open>The collector\<close>

record 'u runtimeCollector =
  rc_outputs :: "nat list"
  rc_portOutputs :: "(string, nat list) gomap"
  rc_timerMgr :: bool
  rc_nodeID :: string
  rc_onError :: "'u errorHandler option"

definition Emit :: "'u runtimeCollector \<Rightarrow> 'u DataMessage \<Rightarrow> 'u World \<Rightarrow> 'u World \<times> error option" where
  "Emit c msg w =
     (let m = NewDataMessage (dm_Key msg) (dm_Value msg) (dm_EventTime msg)
      in broadcast Send (rc_outputs c) m w)"

definition EmitToPort :: "'u runtimeCollector \<Rightarrow> string \<Rightarrow> 'u DataMessage \<Rightarrow> 'u World \<Rightarrow> 'u World \<times> error option" where
  "EmitToPort c port msg w =
     (let m = NewDataMessage (dm_Key msg) (dm_Value msg) (dm_EventTime msg)
      in case map_of (rc_portOutputs c) port of
           Some outs \<Rightarrow> broadcast Send outs m w
         | None \<Rightarrow> Emit c msg w)"

definition RegisterTimer :: "'u runtimeCollector \<Rightarrow> string \<Rightarrow> time \<Rightarrow> 'u World \<Rightarrow> 'u World" where
  "RegisterTimer c name fireAt w =
     (if rc_timerMgr c then w\<lparr>w_timers := map_option (timer_Register name fireAt) (w_timers w)\<rparr> else w)"

definition EmitError :: "'u runtimeCollector \<Rightarrow> 'u DataMessage \<Rightarrow> error \<Rightarrow> 'u World \<Rightarrow> 'u World option" where
  "EmitError c msg err w =
     (case rc_onError c of
        None \<Rightarrow> Some w
      | Some h \<Rightarrow> map_option fst (h (rc_nodeID c) msg err w))"

section \<open>Operators\<close>

type_synonym ('s, 'u) handler =
  "'u runtimeCollector \<Rightarrow> 's \<Rightarrow> 'u World \<Rightarrow> ('s \<times> 'u World \<times> error option) option"

record ('s, 'u) Operator =
  op_ProcessMessage :: "'u DataMessage \<Rightarrow> ('s, 'u) handler"
  op_HandleWatermark :: "WatermarkSignal \<Rightarrow> ('s, 'u) handler"
  op_HandleCheckpoint :: "BarrierSignal \<Rightarrow> 's \<Rightarrow> 's \<times> (error + bytes)"
  op_OnStart :: "'s \<Rightarrow> 's \<times> error option"
  op_OnClose :: "'s \<Rightarrow> 's \<times> error option"
  op_HandleTimer :: "(string \<Rightarrow> time \<Rightarrow> ('s, 'u) handler) option"
  op_HandleTick :: "('s, 'u) handler option"
  op_TickInterval :: duration
  op_Drain :: "('s \<Rightarrow> 'u World \<Rightarrow> 's \<times> 'u World \<times> error option) option"

text \<open>\<open>BaseOperator\<close>, whose methods an operator that embeds it inherits.\<close>

definition BaseOperator :: "('s, 'u) Operator" where
  "BaseOperator =
     \<lparr>op_ProcessMessage = (\<lambda>msg c s w. Some (s, w, None)),
      op_HandleWatermark = (\<lambda>wm c s w. Some (s, w, None)),
      op_HandleCheckpoint = (\<lambda>barrier s. (s, Inr [])),
      op_OnStart = (\<lambda>s. (s, None)),
      op_OnClose = (\<lambda>s. (s, None)),
      op_HandleTimer = None, op_HandleTick = None, op_TickInterval = 0, op_Drain = None\<rparr>"

text \<open>A handler whose last action is a call that returns an error.\<close>

definition returning :: "'s \<Rightarrow> 'u World \<times> error option \<Rightarrow> ('s \<times> 'u World \<times> error option) option" where
  "returning s r = Some (s, fst r, snd r)"

definition MapOperator_ProcessMessage ::
  "('u any \<Rightarrow> 'i option) \<Rightarrow> ('o \<Rightarrow> 'u any) \<Rightarrow> ('i \<Rightarrow> 'o) \<Rightarrow> 'u DataMessage \<Rightarrow> ('s, 'u) handler" where
  "MapOperator_ProcessMessage as_In box mapFn msg c s w =
     (case as_In (dm_Value msg) of
        None \<Rightarrow> Some (s, w, None)
      | Some input \<Rightarrow>
          let output = mapFn input
          in returning s (Emit c (DataMessage (dm_Key msg) (box output) (dm_EventTime msg)) w))"

definition MapOperator :: "('u any \<Rightarrow> 'i option) \<Rightarrow> ('o \<Rightarrow> 'u any) \<Rightarrow> ('i \<Rightarrow> 'o) \<Rightarrow> ('s, 'u) Operator" where
  "MapOperator as_In box mapFn = BaseOperator\<lparr>op_ProcessMessage := MapOperator_ProcessMessage as_In box mapFn\<rparr>"

definition FilterOperator_ProcessMessage ::
  "('u any \<Rightarrow> 'i option) \<Rightarrow> ('i \<Rightarrow> bool) \<Rightarrow> 'u DataMessage \<Rightarrow> ('s, 'u) handler" where
  "FilterOperator_ProcessMessage as_T predicate msg c s w =
     (case as_T (dm_Value msg) of
        None \<Rightarrow> Some (s, w, None)
      | Some input \<Rightarrow> if predicate input then returning s (Emit c msg w) else Some (s, w, None))"

definition FilterOperator :: "('u any \<Rightarrow> 'i option) \<Rightarrow> ('i \<Rightarrow> bool) \<Rightarrow> ('s, 'u) Operator" where
  "FilterOperator as_T predicate = BaseOperator\<lparr>op_ProcessMessage := FilterOperator_ProcessMessage as_T predicate\<rparr>"

definition FanOutOperator :: "('s, 'u) Operator" where
  "FanOutOperator = BaseOperator\<lparr>op_ProcessMessage := (\<lambda>msg c s w. returning s (Emit c msg w))\<rparr>"

definition MergeOperator :: "('s, 'u) Operator" where
  "MergeOperator = BaseOperator\<lparr>op_ProcessMessage := (\<lambda>msg c s w. returning s (Emit c msg w))\<rparr>"

definition RouterOperator_ProcessMessage ::
  "('u DataMessage \<Rightarrow> string) \<Rightarrow> string \<Rightarrow> 'u DataMessage \<Rightarrow> ('s, 'u) handler" where
  "RouterOperator_ProcessMessage routeFn defaultPort msg c s w =
     (let port = routeFn msg
      in if port = [] then
           if defaultPort \<noteq> [] then returning s (EmitToPort c defaultPort msg w)
           else Some (s, w, None)
         else returning s (EmitToPort c port msg w))"

definition RouterOperator :: "('u DataMessage \<Rightarrow> string) \<Rightarrow> string \<Rightarrow> ('s, 'u) Operator" where
  "RouterOperator routeFn defaultPort =
     BaseOperator\<lparr>op_ProcessMessage := RouterOperator_ProcessMessage routeFn defaultPort\<rparr>"

section \<open>The constructors of the package nodes\<close>

definition mapOp_ProcessMessage ::
  "('u any \<Rightarrow> 'i option) \<Rightarrow> ('o \<Rightarrow> 'u any) \<Rightarrow> ('i \<Rightarrow> 'o) \<Rightarrow> 'u DataMessage \<Rightarrow> ('s, 'u) handler" where
  "mapOp_ProcessMessage as_In box fn msg c s w =
     (case as_In (dm_Value msg) of
        None \<Rightarrow> Some (s, w, None)
      | Some v \<Rightarrow> returning s (Emit c (DataMessage (dm_Key msg) (box (fn v)) (dm_EventTime msg)) w))"

definition nodes_Map :: "('u any \<Rightarrow> 'i option) \<Rightarrow> ('o \<Rightarrow> 'u any) \<Rightarrow> ('i \<Rightarrow> 'o) \<Rightarrow> ('s, 'u) Operator" where
  "nodes_Map as_In box fn = BaseOperator\<lparr>op_ProcessMessage := mapOp_ProcessMessage as_In box fn\<rparr>"

definition filterOp_ProcessMessage ::
  "('u any \<Rightarrow> 'i option) \<Rightarrow> ('i \<Rightarrow> bool) \<Rightarrow> 'u DataMessage \<Rightarrow> ('s, 'u) handler" where
  "filterOp_ProcessMessage as_T pred msg c s w =
     (case as_T (dm_Value msg) of
        None \<Rightarrow> Some (s, w, None)
      | Some v \<Rightarrow> if pred v then returning s (Emit c msg w) else Some (s, w, None))"

definition nodes_Filter :: "('u any \<Rightarrow> 'i option) \<Rightarrow> ('i \<Rightarrow> bool) \<Rightarrow> ('s, 'u) Operator" where
  "nodes_Filter as_T pred = BaseOperator\<lparr>op_ProcessMessage := filterOp_ProcessMessage as_T pred\<rparr>"

text \<open>A sink function is user code: it maps a value and the state it keeps to a new state and an error.\<close>

definition funcSink_ProcessMessage ::
  "('u any \<Rightarrow> 'i option) \<Rightarrow> ('i \<Rightarrow> 's \<Rightarrow> 's \<times> error option) \<Rightarrow> 'u DataMessage \<Rightarrow> ('s, 'u) handler" where
  "funcSink_ProcessMessage as_T fn msg c s w =
     (case as_T (dm_Value msg) of
        None \<Rightarrow> Some (s, w, None)
      | Some v \<Rightarrow> (case fn v s of (s, err) \<Rightarrow> Some (s, w, err)))"

definition nodes_SinkFunc :: "('u any \<Rightarrow> 'i option) \<Rightarrow> ('i \<Rightarrow> 's \<Rightarrow> 's \<times> error option) \<Rightarrow> ('s, 'u) Operator" where
  "nodes_SinkFunc as_T fn = BaseOperator\<lparr>op_ProcessMessage := funcSink_ProcessMessage as_T fn\<rparr>"

definition nodes_FanOut :: "('s, 'u) Operator" where
  "nodes_FanOut = BaseOperator\<lparr>op_ProcessMessage := (\<lambda>msg c s w. returning s (Emit c msg w))\<rparr>"

definition nodes_Merge :: "('s, 'u) Operator" where
  "nodes_Merge = BaseOperator\<lparr>op_ProcessMessage := (\<lambda>msg c s w. returning s (Emit c msg w))\<rparr>"

definition routerOp_ProcessMessage ::
  "('u DataMessage \<Rightarrow> string) \<Rightarrow> string \<Rightarrow> 'u DataMessage \<Rightarrow> ('s, 'u) handler" where
  "routerOp_ProcessMessage routeFn defaultPort msg c s w =
     (let port = routeFn msg
      in if port = [] then
           if defaultPort \<noteq> [] then returning s (EmitToPort c defaultPort msg w)
           else Some (s, w, None)
         else returning s (EmitToPort c port msg w))"

definition nodes_Router :: "('u DataMessage \<Rightarrow> string) \<Rightarrow> string \<Rightarrow> ('s, 'u) Operator" where
  "nodes_Router routeFn defaultPort = BaseOperator\<lparr>op_ProcessMessage := routerOp_ProcessMessage routeFn defaultPort\<rparr>"

text \<open>
  A source runs with a collector until it returns. The source function of \<open>SourceFunc\<close> is user code
  that is given the closure \<open>emit\<close>; the closure leaves the event time zero.
\<close>

type_synonym 'u Source = "'u runtimeCollector \<Rightarrow> 'u World \<Rightarrow> ('u World \<times> error option) option"

definition funcSource_Run ::
  "((string \<Rightarrow> 'u any \<Rightarrow> 'u World \<Rightarrow> 'u World \<times> error option) \<Rightarrow> 'u World \<Rightarrow> ('u World \<times> error option) option) \<Rightarrow> 'u Source" where
  "funcSource_Run fn c w = fn (\<lambda>key value w. Emit c (DataMessage key value zero_time) w) w"

section \<open>Nodes\<close>

text \<open>
  The adapters to the \<open>Node\<close> interface. The timer manager of a node is kept in its \<open>World\<close>, which
  has one exactly when the operator is a \<open>TimerOperator\<close> (\<open>node_world\<close>).
\<close>

record ('s, 'u) OperatorNode =
  on_id :: string
  on_operator :: "('s, 'u) Operator"
  on_state :: 's
  on_outputs :: "nat list"
  on_portOutputs :: "(string, nat list) gomap"
  on_timerMgr :: bool
  on_onError :: "'u errorHandler option"

definition NewOperatorNode :: "string \<Rightarrow> ('s, 'u) Operator \<Rightarrow> 's \<Rightarrow> ('s, 'u) OperatorNode" where
  "NewOperatorNode nid op s =
     \<lparr>on_id = nid, on_operator = op, on_state = s, on_outputs = [], on_portOutputs = [],
      on_timerMgr = (op_HandleTimer op \<noteq> None), on_onError = None\<rparr>"

definition newCollector :: "('s, 'u) OperatorNode \<Rightarrow> 'u runtimeCollector" where
  "newCollector n =
     \<lparr>rc_outputs = on_outputs n, rc_portOutputs = on_portOutputs n, rc_timerMgr = on_timerMgr n,
      rc_nodeID = on_id n, rc_onError = on_onError n\<rparr>"

type_synonym ('s, 'u) node_result = "(('s, 'u) OperatorNode \<times> 'u World \<times> error option) option"

definition with_state ::
  "('s, 'u) OperatorNode \<Rightarrow> ('s \<times> 'u World \<times> error option) option \<Rightarrow> ('s, 'u) node_result" where
  "with_state n r = map_option (\<lambda>(s, w, err). (n\<lparr>on_state := s\<rparr>, w, err)) r"

definition OperatorNode_ProcessMessage :: "'u DataMessage \<Rightarrow> ('s, 'u) OperatorNode \<Rightarrow> 'u World \<Rightarrow> ('s, 'u) node_result" where
  "OperatorNode_ProcessMessage msg n w =
     with_state n (op_ProcessMessage (on_operator n) msg (newCollector n) (on_state n) w)"

definition OperatorNode_HandleWatermark :: "WatermarkSignal \<Rightarrow> ('s, 'u) OperatorNode \<Rightarrow> 'u World \<Rightarrow> ('s, 'u) node_result" where
  "OperatorNode_HandleWatermark wm n w =
     with_state n (op_HandleWatermark (on_operator n) wm (newCollector n) (on_state n) w)"

definition OperatorNode_HandleCheckpoint ::
  "BarrierSignal \<Rightarrow> ('s, 'u) OperatorNode \<Rightarrow> 'u World \<Rightarrow> ('s, 'u) OperatorNode \<times> (error + bytes)" where
  "OperatorNode_HandleCheckpoint barrier n w =
     (case op_HandleCheckpoint (on_operator n) barrier (on_state n) of
        (s, Inl err) \<Rightarrow> (n\<lparr>on_state := s\<rparr>, Inl err)
      | (s, Inr opState) \<Rightarrow>
          if \<not> on_timerMgr n then (n\<lparr>on_state := s\<rparr>, Inr opState)
          else let timerState = timer_Snapshot (the (w_timers w))
               in (n\<lparr>on_state := s\<rparr>, Inr (encodeTimerCheckpoint opState timerState)))"

text \<open>\<open>None\<close> is a panic of the decoder.\<close>

definition RestoreTimerState ::
  "bytes \<Rightarrow> ('s, 'u) OperatorNode \<Rightarrow> 'u World \<Rightarrow> ('u World \<times> (error + bytes)) option" where
  "RestoreTimerState data n w =
     (if \<not> on_timerMgr n \<or> length data = 0 then Some (w, Inr data)
      else case decodeTimerCheckpoint data of
             None \<Rightarrow> None
           | Some (Inl err) \<Rightarrow> Some (w, Inl err)
           | Some (Inr (opState, timerState)) \<Rightarrow>
               (case timer_Restore timerState (the (w_timers w)) of
                  (tm, Some err) \<Rightarrow> Some (w\<lparr>w_timers := Some tm\<rparr>, Inl err)
                | (tm, None) \<Rightarrow> Some (w\<lparr>w_timers := Some tm\<rparr>, Inr opState)))"

definition OperatorNode_HandleTick :: "('s, 'u) OperatorNode \<Rightarrow> 'u World \<Rightarrow> ('s, 'u) node_result" where
  "OperatorNode_HandleTick n w =
     (case op_HandleTick (on_operator n) of
        Some h \<Rightarrow> with_state n (h (newCollector n) (on_state n) w)
      | None \<Rightarrow> Some (n, w, None))"

definition OperatorNode_HandleTimer ::
  "string \<Rightarrow> time \<Rightarrow> ('s, 'u) OperatorNode \<Rightarrow> 'u World \<Rightarrow> ('s, 'u) node_result" where
  "OperatorNode_HandleTimer name fireAt n w =
     (case op_HandleTimer (on_operator n) of
        Some h \<Rightarrow> with_state n (h name fireAt (newCollector n) (on_state n) w)
      | None \<Rightarrow> Some (n, w, None))"

definition OperatorNode_SetOutputs :: "nat list \<Rightarrow> ('s, 'u) OperatorNode \<Rightarrow> ('s, 'u) OperatorNode" where
  "OperatorNode_SetOutputs outputs n = n\<lparr>on_outputs := outputs\<rparr>"

definition OperatorNode_SetPortOutputs :: "(string, nat list) gomap \<Rightarrow> ('s, 'u) OperatorNode \<Rightarrow> ('s, 'u) OperatorNode" where
  "OperatorNode_SetPortOutputs portOutputs n = n\<lparr>on_portOutputs := portOutputs\<rparr>"

definition OperatorNode_SetOnError :: "'u errorHandler \<Rightarrow> ('s, 'u) OperatorNode \<Rightarrow> ('s, 'u) OperatorNode" where
  "OperatorNode_SetOnError h n = n\<lparr>on_onError := Some h\<rparr>"

record 'u SourceNode =
  sn_id :: string
  sn_source :: "'u Source"
  sn_outputs :: "nat list"
  sn_portOutputs :: "(string, nat list) gomap"
  sn_onError :: "'u errorHandler option"

definition NewSourceNode :: "string \<Rightarrow> 'u Source \<Rightarrow> 'u SourceNode" where
  "NewSourceNode nid src =
     \<lparr>sn_id = nid, sn_source = src, sn_outputs = [], sn_portOutputs = [], sn_onError = None\<rparr>"

definition SourceNode_HandleCheckpoint :: "BarrierSignal \<Rightarrow> 'u SourceNode \<Rightarrow> error + bytes" where
  "SourceNode_HandleCheckpoint barrier n = Inr []"

definition SourceNode_SetOutputs :: "nat list \<Rightarrow> 'u SourceNode \<Rightarrow> 'u SourceNode" where
  "SourceNode_SetOutputs outputs n = n\<lparr>sn_outputs := outputs\<rparr>"

definition SourceNode_SetPortOutputs :: "(string, nat list) gomap \<Rightarrow> 'u SourceNode \<Rightarrow> 'u SourceNode" where
  "SourceNode_SetPortOutputs portOutputs n = n\<lparr>sn_portOutputs := portOutputs\<rparr>"

definition SourceNode_SetOnError :: "'u errorHandler \<Rightarrow> 'u SourceNode \<Rightarrow> 'u SourceNode" where
  "SourceNode_SetOnError h n = n\<lparr>sn_onError := Some h\<rparr>"

definition RunSource :: "'u SourceNode \<Rightarrow> 'u World \<Rightarrow> ('u World \<times> error option) option" where
  "RunSource n w =
     (let collector = \<lparr>rc_outputs = sn_outputs n, rc_portOutputs = sn_portOutputs n, rc_timerMgr = False,
                       rc_nodeID = sn_id n, rc_onError = sn_onError n\<rparr>
      in sn_source n collector w)"

definition node_world :: "('s, 'u) OperatorNode \<Rightarrow> 'u World \<Rightarrow> bool" where
  "node_world n w \<longleftrightarrow> (on_timerMgr n \<longleftrightarrow> w_timers w \<noteq> None)"

section \<open>Stateless operators\<close>

text \<open>A world in which sends succeed: no context is cancelled.\<close>

definition sends_ok :: "'u World \<Rightarrow> bool" where
  "sends_ok w \<longleftrightarrow> (\<forall>k. w_outcome w k = None)"

lemma Send_sends_ok: "sends_ok w \<Longrightarrow> Send out m w = (w', r) \<Longrightarrow> r = None \<and> sends_ok w'"
  by (auto simp: sends_ok_def Send_def Let_def)

lemma broadcast_sends_ok: "sends_ok w \<Longrightarrow> broadcast Send outs m w = (w', r) \<Longrightarrow> r = None \<and> sends_ok w'"
proof (induction outs arbitrary: w)
  case (Cons out outs)
  obtain w1 r1 where s: "Send out m w = (w1, r1)" by force
  with Send_sends_ok [OF Cons.prems(1)] have "r1 = None" "sends_ok w1" by auto
  with Cons.IH [of w1] Cons.prems(2) s show ?case by simp
qed simp

text \<open>The messages of a handler, one after the other, until one fails.\<close>

primrec process_all ::
  "('u DataMessage \<Rightarrow> ('s, 'u) handler) \<Rightarrow> 'u DataMessage list \<Rightarrow> ('s, 'u) handler" where
  "process_all h [] c s w = Some (s, w, None)"
| "process_all h (msg # msgs) c s w =
     (case h msg c s w of
        None \<Rightarrow> None
      | Some (s, w, Some err) \<Rightarrow> Some (s, w, Some err)
      | Some (s, w, None) \<Rightarrow> process_all h msgs c s w)"

text \<open>
  A stateless operator is determined by what it emits for a message; on a stream it emits that for
  each message in turn and keeps its state.
\<close>

locale stateless_operator =
  fixes h :: "'u DataMessage \<Rightarrow> ('s, 'u) handler"
    and emission :: "'u runtimeCollector \<Rightarrow> 'u DataMessage \<Rightarrow> (nat \<times> 'u Message) list"
  assumes emits: "sends_ok w \<Longrightarrow>
    \<exists>w'. h msg c s w = Some (s, w', None) \<and> sends_ok w' \<and> w_sent w' = w_sent w @ emission c msg"
begin

lemma stream:
  "sends_ok w \<Longrightarrow> \<exists>w'. process_all h msgs c s w = Some (s, w', None) \<and> sends_ok w' \<and>
     w_sent w' = w_sent w @ concat (map (emission c) msgs)"
proof (induction msgs arbitrary: w)
  case (Cons msg msgs)
  obtain w1 where w1: "h msg c s w = Some (s, w1, None)" "sends_ok w1" "w_sent w1 = w_sent w @ emission c msg"
    using emits [OF Cons.prems] by blast
  with Cons.IH [OF w1(2)] show ?case by auto
qed simp

end

definition to_all :: "nat list \<Rightarrow> 'u DataMessage \<Rightarrow> (nat \<times> 'u Message) list" where
  "to_all outs msg = map (\<lambda>out. (out, NewDataMessage (dm_Key msg) (dm_Value msg) (dm_EventTime msg))) outs"

lemma broadcast_to_all:
  assumes "sends_ok w"
  shows "\<exists>w'. broadcast Send outs (NewDataMessage (dm_Key msg) (dm_Value msg) (dm_EventTime msg)) w = (w', None) \<and>
    sends_ok w' \<and> w_sent w' = w_sent w @ to_all outs msg"
proof -
  let ?m = "NewDataMessage (dm_Key msg) (dm_Value msg) (dm_EventTime msg)"
  obtain w' r where b: "broadcast Send outs ?m w = (w', r)" by force
  have "r = None" "sends_ok w'" using broadcast_sends_ok [OF assms b] by auto
  with b net.broadcast_ok [of outs ?m w w'] show ?thesis by (simp add: to_all_def)
qed

lemma Emit_ok:
  "sends_ok w \<Longrightarrow> \<exists>w'. Emit c msg w = (w', None) \<and> sends_ok w' \<and> w_sent w' = w_sent w @ to_all (rc_outputs c) msg"
  using broadcast_to_all by (simp add: Emit_def)

text \<open>The outputs a port stands for: its own, or all where the port is not mapped.\<close>

definition port_outputs :: "'u runtimeCollector \<Rightarrow> string \<Rightarrow> nat list" where
  "port_outputs c port = (case map_of (rc_portOutputs c) port of Some outs \<Rightarrow> outs | None \<Rightarrow> rc_outputs c)"

lemma EmitToPort_ok:
  "sends_ok w \<Longrightarrow> \<exists>w'. EmitToPort c port msg w = (w', None) \<and> sends_ok w' \<and> w_sent w' = w_sent w @ to_all (port_outputs c port) msg"
  using broadcast_to_all Emit_ok by (simp add: EmitToPort_def port_outputs_def split: option.splits) blast

definition mapped :: "('u any \<Rightarrow> 'i option) \<Rightarrow> ('o \<Rightarrow> 'u any) \<Rightarrow> ('i \<Rightarrow> 'o) \<Rightarrow> 'u DataMessage \<Rightarrow> 'u DataMessage list" where
  "mapped as_In box f msg =
     (case as_In (dm_Value msg) of None \<Rightarrow> [] | Some v \<Rightarrow> [DataMessage (dm_Key msg) (box (f v)) (dm_EventTime msg)])"

definition passes :: "('u any \<Rightarrow> 'i option) \<Rightarrow> ('i \<Rightarrow> bool) \<Rightarrow> 'u DataMessage \<Rightarrow> bool" where
  "passes as_T p msg = (case as_T (dm_Value msg) of None \<Rightarrow> False | Some v \<Rightarrow> p v)"

text \<open>The port of a message: the routing function's, else the default; the empty name drops it.\<close>

definition routed :: "('u DataMessage \<Rightarrow> string) \<Rightarrow> string \<Rightarrow> 'u DataMessage \<Rightarrow> string" where
  "routed routeFn defaultPort msg = (if routeFn msg = [] then defaultPort else routeFn msg)"

interpretation map_op: stateless_operator "MapOperator_ProcessMessage as_In box f"
  "\<lambda>c msg. concat (map (to_all (rc_outputs c)) (mapped as_In box f msg))"
  for as_In :: "'u any \<Rightarrow> 'i option" and box :: "'o \<Rightarrow> 'u any" and f
proof
  fix w :: "'u World" and msg and c :: "'u runtimeCollector" and s :: 'a
  assume "sends_ok w"
  then show "\<exists>w'. MapOperator_ProcessMessage as_In box f msg c s w = Some (s, w', None) \<and> sends_ok w' \<and>
      w_sent w' = w_sent w @ concat (map (to_all (rc_outputs c)) (mapped as_In box f msg))"
    using Emit_ok [of w c]
    by (force simp: MapOperator_ProcessMessage_def mapped_def returning_def Let_def split: option.splits)
qed

interpretation filter_op: stateless_operator "FilterOperator_ProcessMessage as_T p"
  "\<lambda>c msg. if passes as_T p msg then to_all (rc_outputs c) msg else []"
  for as_T :: "'u any \<Rightarrow> 'i option" and p
proof
  fix w :: "'u World" and msg and c :: "'u runtimeCollector" and s :: 'a
  assume "sends_ok w"
  then show "\<exists>w'. FilterOperator_ProcessMessage as_T p msg c s w = Some (s, w', None) \<and> sends_ok w' \<and>
      w_sent w' = w_sent w @ (if passes as_T p msg then to_all (rc_outputs c) msg else [])"
    using Emit_ok [of w c msg]
    by (force simp: FilterOperator_ProcessMessage_def passes_def returning_def split: option.splits)
qed

interpretation fanout_op: stateless_operator "\<lambda>msg c s w. returning s (Emit c msg w)" "\<lambda>c. to_all (rc_outputs c)"
  using Emit_ok by unfold_locales (force simp: returning_def)

interpretation router_op: stateless_operator "RouterOperator_ProcessMessage routeFn defaultPort"
  "\<lambda>c msg. if routed routeFn defaultPort msg = [] then [] else to_all (port_outputs c (routed routeFn defaultPort msg)) msg"
  for routeFn :: "'u DataMessage \<Rightarrow> string" and defaultPort
proof
  fix w :: "'u World" and msg and c :: "'u runtimeCollector" and s :: 'a
  assume "sends_ok w"
  then show "\<exists>w'. RouterOperator_ProcessMessage routeFn defaultPort msg c s w = Some (s, w', None) \<and> sends_ok w' \<and>
      w_sent w' = w_sent w @ (if routed routeFn defaultPort msg = [] then []
        else to_all (port_outputs c (routed routeFn defaultPort msg)) msg)"
    using EmitToPort_ok [of w c _ msg]
    by (force simp: RouterOperator_ProcessMessage_def routed_def returning_def Let_def)
qed

section \<open>The package nodes is the engine's\<close>

lemma nodes_are_engine_operators:
  "nodes_Map = MapOperator" "nodes_Filter = FilterOperator" "nodes_FanOut = FanOutOperator"
  "nodes_Merge = MergeOperator" "nodes_Router = RouterOperator"
proof -
  show "nodes_Map = MapOperator"
    unfolding nodes_Map_def [abs_def] MapOperator_def [abs_def] mapOp_ProcessMessage_def [abs_def]
      MapOperator_ProcessMessage_def [abs_def] Let_def ..
  show "nodes_Filter = FilterOperator"
    unfolding nodes_Filter_def [abs_def] FilterOperator_def [abs_def] filterOp_ProcessMessage_def [abs_def]
      FilterOperator_ProcessMessage_def [abs_def] ..
  show "nodes_Router = RouterOperator"
    unfolding nodes_Router_def [abs_def] RouterOperator_def [abs_def] routerOp_ProcessMessage_def [abs_def]
      RouterOperator_ProcessMessage_def [abs_def] ..
qed (simp_all add: nodes_FanOut_def FanOutOperator_def nodes_Merge_def MergeOperator_def)

lemma process_of_nodes:
  "op_ProcessMessage (nodes_Map as_In box f) = MapOperator_ProcessMessage as_In box f"
  "op_ProcessMessage (nodes_Filter as_T p) = FilterOperator_ProcessMessage as_T p"
  "op_ProcessMessage nodes_FanOut = (\<lambda>msg c s w. returning s (Emit c msg w))"
  "op_ProcessMessage nodes_Merge = (\<lambda>msg c s w. returning s (Emit c msg w))"
  "op_ProcessMessage (nodes_Router routeFn defaultPort) = RouterOperator_ProcessMessage routeFn defaultPort"
  unfolding nodes_are_engine_operators
  by (simp_all add: MapOperator_def FilterOperator_def FanOutOperator_def MergeOperator_def RouterOperator_def)

section \<open>Properties\<close>

text \<open>
  C22. The built-in operators are stream functions. On any stream, with no context cancelled, the
  operators of the package \<open>nodes\<close> put into their output buffers, in order and with key and event
  time kept: \<open>Map\<close> the images of the messages of its input type, \<open>Filter\<close> the messages that satisfy
  the predicate, \<open>FanOut\<close> and \<open>Merge\<close> every message, each to all outputs; \<open>Router\<close> each message
  to exactly the outputs of its port, or nowhere when it has none.
\<close>

theorem builtin_streams:
  assumes "sends_ok w"
  shows "(\<exists>w'. process_all (op_ProcessMessage (nodes_Map as_In box f)) msgs c s w = Some (s, w', None) \<and>
      w_sent w' = w_sent w @ concat (map (to_all (rc_outputs c)) (concat (map (mapped as_In box f) msgs)))) \<and>
    (\<exists>w'. process_all (op_ProcessMessage (nodes_Filter as_T p)) msgs c s w = Some (s, w', None) \<and>
      w_sent w' = w_sent w @ concat (map (to_all (rc_outputs c)) (filter (passes as_T p) msgs))) \<and>
    (\<exists>w'. process_all (op_ProcessMessage nodes_FanOut) msgs c s w = Some (s, w', None) \<and>
      w_sent w' = w_sent w @ concat (map (to_all (rc_outputs c)) msgs)) \<and>
    (\<exists>w'. process_all (op_ProcessMessage nodes_Merge) msgs c s w = Some (s, w', None) \<and>
      w_sent w' = w_sent w @ concat (map (to_all (rc_outputs c)) msgs)) \<and>
    (\<exists>w'. process_all (op_ProcessMessage (nodes_Router routeFn defaultPort)) msgs c s w = Some (s, w', None) \<and>
      w_sent w' = w_sent w @ concat (map (\<lambda>msg. to_all (port_outputs c (routed routeFn defaultPort msg)) msg)
        (filter (\<lambda>msg. routed routeFn defaultPort msg \<noteq> []) msgs)))"
proof -
  have fl: "concat (map (\<lambda>m. if P m then g m else []) ms) = concat (map g (filter P ms))"
    for P :: "'a DataMessage \<Rightarrow> bool" and g :: "'a DataMessage \<Rightarrow> (nat \<times> 'a Message) list" and ms
    by (induction ms) auto
  have mp: "concat (map (\<lambda>m. concat (map g (h m))) ms) = concat (map g (concat (map h ms)))"
    for g :: "'a DataMessage \<Rightarrow> (nat \<times> 'a Message) list" and h :: "'a DataMessage \<Rightarrow> 'a DataMessage list" and ms
    by (induction ms) auto
  have neg: "(\<lambda>msg. if routed routeFn defaultPort msg = [] then [] else X msg) =
      (\<lambda>msg. if routed routeFn defaultPort msg \<noteq> [] then X msg else [])" for X :: "'a DataMessage \<Rightarrow> (nat \<times> 'a Message) list"
    by auto
  show ?thesis
    unfolding process_of_nodes
    using map_op.stream [OF assms, where msgs = msgs and c = c and s = s and as_In = as_In and box = box and f = f]
      filter_op.stream [OF assms, where msgs = msgs and c = c and s = s and as_T = as_T and p = p]
      fanout_op.stream [OF assms, where msgs = msgs and c = c and s = s]
      router_op.stream [OF assms, where msgs = msgs and c = c and s = s and routeFn = routeFn and defaultPort = defaultPort]
    unfolding fl mp neg by blast
qed

theorem builtin_streams_witness:
  "\<exists>w'. process_all (op_ProcessMessage (nodes_Filter (\<lambda>a. case a of AnyValue v \<Rightarrow> Some v | _ \<Rightarrow> None) (\<lambda>v. (0::int) < v)))
       [DataMessage ''k'' (AnyValue 5) 0, DataMessage ''k'' (AnyValue (-1)) 0]
       \<lparr>rc_outputs = [3, 4], rc_portOutputs = [], rc_timerMgr = False, rc_nodeID = ''f'', rc_onError = None\<rparr> ()
       \<lparr>w_sent = [], w_outcome = (\<lambda>_. None), w_sends = 0, w_timers = None, w_counts = [], w_clock = (\<lambda>_. 0), w_reads = 0\<rparr>
     = Some ((), w', None) \<and>
     w_sent w' = [(3, NewDataMessage ''k'' (AnyValue 5) 0), (4, NewDataMessage ''k'' (AnyValue 5) 0)]"
proof -
  let ?as = "\<lambda>a :: int any. case a of AnyValue v \<Rightarrow> Some v | _ \<Rightarrow> None"
  let ?w = "\<lparr>w_sent = [], w_outcome = (\<lambda>_. None), w_sends = 0, w_timers = None, w_counts = [],
    w_clock = (\<lambda>_. 0), w_reads = 0\<rparr> :: int World"
  let ?c = "\<lparr>rc_outputs = [3, 4], rc_portOutputs = [], rc_timerMgr = False, rc_nodeID = ''f'', rc_onError = None\<rparr>
    :: int runtimeCollector"
  let ?ms = "[DataMessage ''k'' (AnyValue 5) 0, DataMessage ''k'' (AnyValue (-1)) 0] :: int DataMessage list"
  have ok: "sends_ok ?w" by (simp add: sends_ok_def)
  have spec: "concat (map (to_all (rc_outputs ?c)) (filter (passes ?as (\<lambda>v. 0 < v)) ?ms)) =
      [(3, NewDataMessage ''k'' (AnyValue 5) 0), (4, NewDataMessage ''k'' (AnyValue 5) 0)]"
    by (simp add: passes_def to_all_def)
  show ?thesis
    using conjunct1 [OF conjunct2 [OF builtin_streams [OF ok,
      where as_In = ?as and box = AnyValue and f = id and as_T = ?as and p = "\<lambda>v. 0 < v" and msgs = ?ms and c = ?c
        and s = "()" and routeFn = "\<lambda>_. []" and defaultPort = "[]"]]]
    unfolding spec by simp
qed

text \<open>
  C23. Timers survive a checkpoint. The state that a node with timers reports at a barrier, given to
  \<open>RestoreTimerState\<close> of a node that is started anew, yields the operator's own state and reinstates
  every pending timer. The format bounds are those of its length fields and of \<open>UnixNano\<close>.
\<close>

theorem node_timer_recovery:
  assumes "on_timerMgr n" "w_timers w = Some tm" "list_all timer_fits (tm_timers tm)"
    and "length (tm_timers tm) < 2 ^ 32" "length (timer_Snapshot tm) < 2 ^ 32 - 4"
    and "op_HandleCheckpoint (on_operator n) barrier (on_state n) = (s, Inr opState)"
    and "on_timerMgr n'" "w_timers w' = Some tm0"
  shows "\<exists>data. OperatorNode_HandleCheckpoint barrier n w = (n\<lparr>on_state := s\<rparr>, Inr data) \<and>
    RestoreTimerState data n' w' = Some (w'\<lparr>w_timers := Some tm\<rparr>, Inr opState)"
proof -
  let ?data = "encodeTimerCheckpoint opState (timer_Snapshot tm)"
  have "OperatorNode_HandleCheckpoint barrier n w = (n\<lparr>on_state := s\<rparr>, Inr ?data)"
    using assms(1,2,6) by (simp add: OperatorNode_HandleCheckpoint_def)
  moreover have "RestoreTimerState ?data n' w' = Some (w'\<lparr>w_timers := Some tm\<rparr>, Inr opState)"
    using assms(7,8) decode_encode [OF assms(5)] timer_Restore_Snapshot [OF assms(3,4), of tm0]
    by (simp add: RestoreTimerState_def encodeTimerCheckpoint_def)
  ultimately show ?thesis by blast
qed

theorem node_timer_recovery_witness:
  "\<exists>data w1. snd (OperatorNode_HandleCheckpoint \<lparr>bs_Epoch = 1, bs_MinEpoch = 0, bs_Timestamp = 0, bs_ThenStop = False\<rparr>
       ((NewOperatorNode ''n'' BaseOperator ())\<lparr>on_timerMgr := True\<rparr> :: (unit, int) OperatorNode)
       \<lparr>w_sent = [], w_outcome = (\<lambda>_. None), w_sends = 0,
        w_timers = Some \<lparr>tm_timers = [\<lparr>te_Name = ''x'', te_FireAt = 5\<rparr>]\<rparr>, w_counts = [], w_clock = (\<lambda>_. 0), w_reads = 0\<rparr>)
     = Inr data \<and>
     RestoreTimerState data ((NewOperatorNode ''n'' BaseOperator ())\<lparr>on_timerMgr := True\<rparr> :: (unit, int) OperatorNode)
       \<lparr>w_sent = [], w_outcome = (\<lambda>_. None), w_sends = 0, w_timers = Some newTimerManager, w_counts = [],
        w_clock = (\<lambda>_. 0), w_reads = 0\<rparr> = Some (w1, Inr []) \<and>
     w_timers w1 = Some \<lparr>tm_timers = [\<lparr>te_Name = ''x'', te_FireAt = 5\<rparr>]\<rparr>"
proof -
  let ?n = "(NewOperatorNode ''n'' BaseOperator ())\<lparr>on_timerMgr := True\<rparr> :: (unit, int) OperatorNode"
  let ?tm = "\<lparr>tm_timers = [\<lparr>te_Name = ''x'', te_FireAt = 5\<rparr>]\<rparr>"
  have "length (timer_Snapshot ?tm) < 2 ^ 32 - 4"
    by (simp add: timer_Snapshot_def append_timer_bytes length_timer_bytes appendUint32_def)
  moreover have "op_HandleCheckpoint (on_operator ?n) b (on_state ?n) = ((), Inr [])" for b
    by (simp add: NewOperatorNode_def BaseOperator_def)
  ultimately show ?thesis
    using node_timer_recovery [where n = ?n and n' = ?n and tm = ?tm and s = "()" and opState = "[]" and tm0 = newTimerManager and
      barrier = "\<lparr>bs_Epoch = 1, bs_MinEpoch = 0, bs_Timestamp = 0, bs_ThenStop = False\<rparr>" and
      w = "\<lparr>w_sent = [], w_outcome = (\<lambda>_. None), w_sends = 0, w_timers = Some ?tm, w_counts = [], w_clock = (\<lambda>_. 0), w_reads = 0\<rparr>" and
      w' = "\<lparr>w_sent = [], w_outcome = (\<lambda>_. None), w_sends = 0, w_timers = Some newTimerManager, w_counts = [],
        w_clock = (\<lambda>_. 0), w_reads = 0\<rparr>"]
    by (fastforce simp: timer_fits_def unix_nano_ok_def)
qed

end
