(* ===== verification/Timed_Operators.thy ===== *)
theory Timed_Operators
  imports Operators
begin

text \<open>
  The operators that work with timers: \<open>SleepOperator\<close> (\<open>internal/engine/timer.go\<close>),
  \<open>DebounceOperator\<close> and \<open>DeduplicateOperator\<close> (\<open>internal/engine/hysteresis.go\<close>). Each is related
  to a specification that knows only messages and deadlines. Where the code ranges over a map, the
  argument \<open>order\<close> lists its keys in the order of the iteration.
\<close>

section \<open>Sleep\<close>

record 'u SleepOperator =
  sl_Delay :: duration
  sl_pending :: "(string, 'u DataMessage) gomap"
  sl_counter :: u64

definition NewSleepOperator :: "duration \<Rightarrow> 'u SleepOperator" where
  "NewSleepOperator delay = \<lparr>sl_Delay = delay, sl_pending = [], sl_counter = 0\<rparr>"

definition sleep_name :: "u64 \<Rightarrow> string" where
  "sleep_name k = ''sleep-'' @ FormatUint (unat k)"

definition Sleep_ProcessMessage :: "'u DataMessage \<Rightarrow> ('u SleepOperator, 'u) handler" where
  "Sleep_ProcessMessage msg c s w =
     (let s = s\<lparr>sl_counter := sl_counter s + 1\<rparr>;
          name = sleep_name (sl_counter s);
          s = s\<lparr>sl_pending := AList.update name msg (sl_pending s)\<rparr>;
          (now, w) = Now w
      in Some (s, RegisterTimer c name (now + sl_Delay s) w, None))"

definition Sleep_HandleTimer :: "string \<Rightarrow> time \<Rightarrow> ('u SleepOperator, 'u) handler" where
  "Sleep_HandleTimer name fireAt c s w =
     (case map_of (sl_pending s) name of
        Some msg \<Rightarrow> returning (s\<lparr>sl_pending := AList.delete name (sl_pending s)\<rparr>) (Emit c msg w)
      | None \<Rightarrow> Some (s, w, None))"

definition append_name :: "string \<Rightarrow> bytes \<Rightarrow> bytes" where
  "append_name name buf = appendUint32 buf (u32_of_len (length name)) @ to_bytes name"

definition Sleep_HandleCheckpoint ::
  "((string, 'u DataMessage) gomap \<Rightarrow> string list) \<Rightarrow> BarrierSignal \<Rightarrow> 'u SleepOperator \<Rightarrow> 'u SleepOperator \<times> (error + bytes)" where
  "Sleep_HandleCheckpoint order barrier s =
     (if length (sl_pending s) = 0 then (s, Inr [])
      else let buf = PutUint64 (sl_counter s);
               buf = appendUint32 buf (u32_of_len (length (sl_pending s)))
           in (s, Inr (fold append_name (order (sl_pending s)) buf)))"

definition SleepOperator_op ::
  "((string, 'u DataMessage) gomap \<Rightarrow> string list) \<Rightarrow> ('u SleepOperator, 'u) Operator" where
  "SleepOperator_op order =
     BaseOperator\<lparr>op_ProcessMessage := Sleep_ProcessMessage, op_HandleTimer := Some Sleep_HandleTimer,
                  op_HandleCheckpoint := Sleep_HandleCheckpoint order\<rparr>"

section \<open>Debounce\<close>

record 'u debounceEntry =
  de_Msg :: "'u DataMessage"
  de_TimerName :: string

record 'u DebounceOperator =
  db_Window :: duration
  db_pending :: "(string, 'u debounceEntry) gomap"
  db_counter :: u64

definition NewDebounceOperator :: "duration \<Rightarrow> 'u DebounceOperator" where
  "NewDebounceOperator window = \<lparr>db_Window = window, db_pending = [], db_counter = 0\<rparr>"

definition debounce_name :: "u64 \<Rightarrow> string" where
  "debounce_name k = ''debounce-'' @ FormatUint (unat k)"

definition Debounce_ProcessMessage :: "'u DataMessage \<Rightarrow> ('u DebounceOperator, 'u) handler" where
  "Debounce_ProcessMessage msg c s w =
     (let s = s\<lparr>db_counter := db_counter s + 1\<rparr>;
          timerName = debounce_name (db_counter s);
          s = s\<lparr>db_pending := AList.update (dm_Key msg) \<lparr>de_Msg = msg, de_TimerName = timerName\<rparr> (db_pending s)\<rparr>;
          (now, w) = Now w
      in Some (s, RegisterTimer c timerName (now + db_Window s) w, None))"

definition Debounce_HandleTimer ::
  "((string, 'u debounceEntry) gomap \<Rightarrow> string list) \<Rightarrow> string \<Rightarrow> time \<Rightarrow> ('u DebounceOperator, 'u) handler" where
  "Debounce_HandleTimer order name fireAt c s w =
     (case find (\<lambda>key. de_TimerName (the (map_of (db_pending s) key)) = name) (order (db_pending s)) of
        Some foundKey \<Rightarrow>
          let foundMsg = de_Msg (the (map_of (db_pending s) foundKey))
          in returning (s\<lparr>db_pending := AList.delete foundKey (db_pending s)\<rparr>) (Emit c foundMsg w)
      | None \<Rightarrow> Some (s, w, None))"

definition append_debounce :: "(string, 'u debounceEntry) gomap \<Rightarrow> string \<Rightarrow> bytes \<Rightarrow> bytes" where
  "append_debounce pending key buf = append_name (de_TimerName (the (map_of pending key))) (append_name key buf)"

definition Debounce_HandleCheckpoint ::
  "((string, 'u debounceEntry) gomap \<Rightarrow> string list) \<Rightarrow> BarrierSignal \<Rightarrow> 'u DebounceOperator \<Rightarrow> 'u DebounceOperator \<times> (error + bytes)" where
  "Debounce_HandleCheckpoint order barrier s =
     (if length (db_pending s) = 0 then (s, Inr (appendUint32 (PutUint64 (db_counter s)) 0))
      else let buf = PutUint64 (db_counter s);
               buf = appendUint32 buf (u32_of_len (length (db_pending s)))
           in (s, Inr (fold (append_debounce (db_pending s)) (order (db_pending s)) buf)))"

definition DebounceOperator_op ::
  "((string, 'u debounceEntry) gomap \<Rightarrow> string list) \<Rightarrow> ('u DebounceOperator, 'u) Operator" where
  "DebounceOperator_op order =
     BaseOperator\<lparr>op_ProcessMessage := Debounce_ProcessMessage, op_HandleTimer := Some (Debounce_HandleTimer order),
                  op_HandleCheckpoint := Debounce_HandleCheckpoint order\<rparr>"

section \<open>Deduplicate\<close>

record 'u DeduplicateOperator =
  dd_Window :: duration
  dd_KeyFn :: "('u DataMessage \<Rightarrow> string) option"
  dd_seen :: "(string, time) gomap"
  dd_counter :: u64

definition NewDeduplicateOperator :: "duration \<Rightarrow> 'u DeduplicateOperator" where
  "NewDeduplicateOperator window = \<lparr>dd_Window = window, dd_KeyFn = None, dd_seen = [], dd_counter = 0\<rparr>"

definition dedupKey :: "'u DataMessage \<Rightarrow> 'u DeduplicateOperator \<Rightarrow> string" where
  "dedupKey msg s = (case dd_KeyFn s of Some keyFn \<Rightarrow> keyFn msg | None \<Rightarrow> dm_Key msg)"

definition Dedup_ProcessMessage :: "'u DataMessage \<Rightarrow> ('u DeduplicateOperator, 'u) handler" where
  "Dedup_ProcessMessage msg c s w =
     (let key = dedupKey msg s;
          (now, w) = Now w;
          expiry = now + dd_Window s
      in if (case map_of (dd_seen s) key of Some existing \<Rightarrow> now < existing | None \<Rightarrow> False)
         then Some (s, w, None)
         else let s = s\<lparr>dd_seen := AList.update key expiry (dd_seen s)\<rparr>;
                  s = s\<lparr>dd_counter := dd_counter s + 1\<rparr>;
                  timerName = ''dedup-expire-'' @ FormatUint (unat (dd_counter s));
                  w = RegisterTimer c timerName expiry w
              in returning s (Emit c msg w))"

text \<open>The loop deletes entries while it ranges over the map, which Go permits; the order is immaterial.\<close>

definition Dedup_HandleTimer :: "string \<Rightarrow> time \<Rightarrow> ('u DeduplicateOperator, 'u) handler" where
  "Dedup_HandleTimer name fireAt c s w =
     Some (s\<lparr>dd_seen := filter (\<lambda>(key, expiry). fireAt < expiry) (dd_seen s)\<rparr>, w, None)"

definition append_seen :: "(string, time) gomap \<Rightarrow> string \<Rightarrow> bytes \<Rightarrow> bytes" where
  "append_seen seen key buf = append_name key buf @ PutUint64 (UnixNano (the (map_of seen key)))"

definition Dedup_HandleCheckpoint ::
  "((string, time) gomap \<Rightarrow> string list) \<Rightarrow> BarrierSignal \<Rightarrow> 'u DeduplicateOperator \<Rightarrow> 'u DeduplicateOperator \<times> (error + bytes)" where
  "Dedup_HandleCheckpoint order barrier s =
     (let buf = PutUint64 (dd_counter s);
          buf = appendUint32 buf (u32_of_len (length (dd_seen s)))
      in (s, Inr (fold (append_seen (dd_seen s)) (order (dd_seen s)) buf)))"

definition DeduplicateOperator_op ::
  "((string, time) gomap \<Rightarrow> string list) \<Rightarrow> ('u DeduplicateOperator, 'u) Operator" where
  "DeduplicateOperator_op order =
     BaseOperator\<lparr>op_ProcessMessage := Dedup_ProcessMessage, op_HandleTimer := Some Dedup_HandleTimer,
                  op_HandleCheckpoint := Dedup_HandleCheckpoint order\<rparr>"

section \<open>Histories of a timed operator\<close>

text \<open>
  The runtime's loop over expired timers, and a history of an operator: it processes a message, or
  its timers are fired at the time the clock shows.
\<close>

primrec fire_all :: "(string \<Rightarrow> time \<Rightarrow> ('s, 'u) handler) \<Rightarrow> timerEntry list \<Rightarrow> ('s, 'u) handler" where
  "fire_all h [] c s w = Some (s, w, None)"
| "fire_all h (t # ts) c s w =
     (case h (te_Name t) (te_FireAt t) c s w of
        None \<Rightarrow> None
      | Some (s, w, Some err) \<Rightarrow> Some (s, w, Some err)
      | Some (s, w, None) \<Rightarrow> fire_all h ts c s w)"

definition fire_timers :: "(string \<Rightarrow> time \<Rightarrow> ('s, 'u) handler) \<Rightarrow> ('s, 'u) handler" where
  "fire_timers h c s w =
     (let (now, w) = Now w;
          (expired, tm) = timer_PopExpired now (the (w_timers w))
      in fire_all h expired c s (w\<lparr>w_timers := Some tm\<rparr>))"

primrec timed_history ::
  "('u DataMessage \<Rightarrow> ('s, 'u) handler) \<Rightarrow> (string \<Rightarrow> time \<Rightarrow> ('s, 'u) handler) \<Rightarrow>
     'u DataMessage option list \<Rightarrow> ('s, 'u) handler" where
  "timed_history p h [] c s w = Some (s, w, None)"
| "timed_history p h (ev # evs) c s w =
     (case (case ev of Some msg \<Rightarrow> p msg c s w | None \<Rightarrow> fire_timers h c s w) of
        None \<Rightarrow> None
      | Some (s, w, Some err) \<Rightarrow> Some (s, w, Some err)
      | Some (s, w, None) \<Rightarrow> timed_history p h evs c s w)"

section \<open>Deduplicate: the specification\<close>

text \<open>
  A message passes unless a message of its key passed less than a window ago. \<open>clk n\<close> is the
  \<open>n\<close>-th reading of the clock; every event reads it once.
\<close>

primrec dedup_spec ::
  "duration \<Rightarrow> ('u DataMessage \<Rightarrow> string) \<Rightarrow> (nat \<Rightarrow> time) \<Rightarrow> 'u DataMessage option list \<Rightarrow> nat \<Rightarrow>
     (string \<rightharpoonup> time) \<Rightarrow> 'u DataMessage list" where
  "dedup_spec window key clk [] n prev = []"
| "dedup_spec window key clk (ev # evs) n prev =
     (case ev of
        None \<Rightarrow> dedup_spec window key clk evs (Suc n) prev
      | Some msg \<Rightarrow>
          if (case prev (key msg) of Some t \<Rightarrow> clk n < t + window | None \<Rightarrow> False)
          then dedup_spec window key clk evs (Suc n) prev
          else msg # dedup_spec window key clk evs (Suc n) (prev(key msg \<mapsto> clk n)))"

text \<open>The map \<open>seen\<close> holds the expiry of the last message that passed, until that time is over.\<close>

definition dedup_rel :: "(nat \<Rightarrow> time) \<Rightarrow> nat \<Rightarrow> (string \<rightharpoonup> time) \<Rightarrow> 'u DeduplicateOperator \<Rightarrow> bool" where
  "dedup_rel clk n prev s \<longleftrightarrow> gomap_ok (dd_seen s) \<and>
     (\<forall>k. case map_of (dd_seen s) k of
            Some x \<Rightarrow> (\<exists>t. prev k = Some t \<and> x = t + dd_Window s)
          | None \<Rightarrow> (\<forall>t. prev k = Some t \<longrightarrow> t + dd_Window s \<le> clk n))"

lemma fire_all_dedup:
  "fire_all Dedup_HandleTimer ts c s w =
     Some (s\<lparr>dd_seen := filter (\<lambda>(k, x). \<forall>t \<in> set ts. te_FireAt t < x) (dd_seen s)\<rparr>, w, None)"
  by (induction ts arbitrary: s) (simp_all add: Dedup_HandleTimer_def case_prod_unfold conj_commute)

lemma map_of_filter_val:
  "gomap_ok m \<Longrightarrow> map_of (filter (\<lambda>(k, x). P x) m) k =
     (case map_of m k of None \<Rightarrow> None | Some x \<Rightarrow> if P x then Some x else None)"
  by (induction m) (auto simp: map_of_eq_None_iff image_iff split: option.splits)

lemma gomap_ok_filter_val: "gomap_ok m \<Longrightarrow> gomap_ok (filter P m)"
  by (induction m) auto

text \<open>The worlds of a history: sends succeed, the clock does not go back, the timers are in order.\<close>

definition timed_world :: "'u World \<Rightarrow> bool" where
  "timed_world w \<longleftrightarrow> sends_ok w \<and> mono (w_clock w) \<and> (\<exists>tm. w_timers w = Some tm \<and> timers_ok tm)"

lemma dedup_fire_rel:
  assumes "dedup_rel clk n prev s" "\<forall>t \<in> set ts. te_FireAt t \<le> clk n" "clk n \<le> clk n'"
  shows "dedup_rel clk n' prev (s\<lparr>dd_seen := filter (\<lambda>(k, x). \<forall>t \<in> set ts. te_FireAt t < x) (dd_seen s)\<rparr>)"
  unfolding dedup_rel_def
proof (intro conjI allI)
  have ok: "gomap_ok (dd_seen s)" using assms(1) by (simp add: dedup_rel_def)
  then show "gomap_ok (dd_seen (s\<lparr>dd_seen := filter (\<lambda>(k, x). \<forall>t \<in> set ts. te_FireAt t < x) (dd_seen s)\<rparr>))"
    using gomap_ok_filter_val by simp
  fix k
  have "case map_of (dd_seen s) k of
          Some x \<Rightarrow> (\<exists>t. prev k = Some t \<and> x = t + dd_Window s)
        | None \<Rightarrow> (\<forall>t. prev k = Some t \<longrightarrow> t + dd_Window s \<le> clk n)"
    using assms(1) by (simp add: dedup_rel_def)
  then show "case map_of (dd_seen (s\<lparr>dd_seen := filter (\<lambda>(k, x). \<forall>t \<in> set ts. te_FireAt t < x) (dd_seen s)\<rparr>)) k of
          Some x \<Rightarrow> (\<exists>t. prev k = Some t \<and> x = t + dd_Window (s\<lparr>dd_seen := filter (\<lambda>(k, x). \<forall>t \<in> set ts. te_FireAt t < x) (dd_seen s)\<rparr>))
        | None \<Rightarrow> (\<forall>t. prev k = Some t \<longrightarrow> t + dd_Window (s\<lparr>dd_seen := filter (\<lambda>(k, x). \<forall>t \<in> set ts. te_FireAt t < x) (dd_seen s)\<rparr>) \<le> clk n')"
    using assms(2,3) map_of_filter_val [OF ok, of "\<lambda>x. \<forall>t \<in> set ts. te_FireAt t < x" k]
    by (auto split: option.splits simp: not_less)
qed

lemma timed_Emit:
  assumes "timed_world w"
  shows "\<exists>w'. Emit c msg w = (w', None) \<and> timed_world w' \<and> w_clock w' = w_clock w \<and> w_reads w' = w_reads w \<and>
    w_timers w' = w_timers w \<and> w_sent w' = w_sent w @ to_all (rc_outputs c) msg"
proof -
  obtain w' where w': "Emit c msg w = (w', None)" "sends_ok w'" "w_sent w' = w_sent w @ to_all (rc_outputs c) msg"
    using Emit_ok assms by (metis timed_world_def)
  have "w' = w\<lparr>w_sends := w_sends w', w_sent := w_sent w'\<rparr>"
    using broadcast_frame w'(1) unfolding Emit_def Let_def by blast
  then have "w_clock w' = w_clock w" "w_reads w' = w_reads w" "w_timers w' = w_timers w"
    by (metis World.select_convs World.surjective World.update_convs(1,3))+
  with w' assms show ?thesis by (auto simp: timed_world_def)
qed

lemma timed_Register:
  "timed_world w \<Longrightarrow> timed_world (RegisterTimer c name t w) \<and> w_clock (RegisterTimer c name t w) = w_clock w \<and>
     w_reads (RegisterTimer c name t w) = w_reads w \<and> w_sent (RegisterTimer c name t w) = w_sent w"
  by (auto simp: timed_world_def RegisterTimer_def sends_ok_def timer_Register_ok)

text \<open>Firing pops the expired timers, at the time the clock shows, and reads it once.\<close>

lemma timed_fire:
  assumes "timed_world w" "w_timers w = Some tm"
  obtains w1 where
    "fire_timers h c s w = fire_all h (filter (\<lambda>t. te_FireAt t \<le> w_clock w (w_reads w)) (tm_timers tm)) c s w1"
    and "timed_world w1" "w_clock w1 = w_clock w" "w_reads w1 = Suc (w_reads w)" "w_sent w1 = w_sent w"
    and "w_timers w1 = Some \<lparr>tm_timers = filter (\<lambda>t. \<not> te_FireAt t \<le> w_clock w (w_reads w)) (tm_timers tm)\<rparr>"
proof -
  have ok: "timers_ok tm" using assms by (auto simp: timed_world_def)
  let ?now = "w_clock w (w_reads w)"
  let ?tm = "snd (timer_PopExpired ?now tm)"
  let ?w = "w\<lparr>w_reads := w_reads w + 1, w_timers := Some ?tm\<rparr>"
  have "fire_timers h c s w = fire_all h (filter (\<lambda>t. te_FireAt t \<le> ?now) (tm_timers tm)) c s ?w"
    using assms(2) ok by (simp add: fire_timers_def Now_def timer_PopExpired_eq)
  moreover have "timed_world ?w"
    using assms ok by (auto simp: timed_world_def sends_ok_def timer_PopExpired_ok)
  ultimately show thesis
    using ok by (intro that [of ?w]) (simp_all add: timer_PopExpired_eq)
qed

lemma dedupKey_frame [simp]:
  "dedupKey msg (s\<lparr>dd_seen := m\<rparr>) = dedupKey msg s" "dedupKey msg (s\<lparr>dd_counter := n\<rparr>) = dedupKey msg s"
  by (simp_all add: dedupKey_def)

lemma dedup_history:
  assumes "timed_world w" "dedup_rel (w_clock w) (w_reads w) prev s"
  shows "\<exists>s' w'. timed_history Dedup_ProcessMessage Dedup_HandleTimer evs c s w = Some (s', w', None) \<and>
    w_sent w' = w_sent w @ concat (map (to_all (rc_outputs c))
      (dedup_spec (dd_Window s) (\<lambda>msg. dedupKey msg s) (w_clock w) evs (w_reads w) prev))"
  using assms
proof (induction evs arbitrary: s w prev)
  case (Cons ev evs)
  let ?n = "w_reads w" and ?clk = "w_clock w"
  have mono: "?clk ?n \<le> ?clk (Suc ?n)"
    using Cons.prems(1) by (auto simp: timed_world_def intro: monoD)
  obtain tm where tm: "w_timers w = Some tm" "timers_ok tm"
    using Cons.prems(1) by (auto simp: timed_world_def)
  show ?case
  proof (cases ev)
    case None
    let ?ts = "filter (\<lambda>t. te_FireAt t \<le> ?clk ?n) (tm_timers tm)"
    obtain w1 where w1: "fire_timers Dedup_HandleTimer c s w = fire_all Dedup_HandleTimer ?ts c s w1"
      "timed_world w1" "w_clock w1 = ?clk" "w_reads w1 = Suc ?n" "w_sent w1 = w_sent w"
      using timed_fire [OF Cons.prems(1) tm(1)] by metis
    let ?s = "s\<lparr>dd_seen := filter (\<lambda>(k, x). \<forall>t \<in> set ?ts. te_FireAt t < x) (dd_seen s)\<rparr>"
    have "dedup_rel (w_clock w1) (w_reads w1) prev ?s"
      using dedup_fire_rel [OF Cons.prems(2), of ?ts "Suc ?n"] mono w1(3,4) by simp
    from Cons.IH [OF w1(2) this] w1 None show ?thesis
      by (auto simp: fire_all_dedup)
  next
    case (Some msg)
    let ?k = "dedupKey msg s" and ?now = "?clk ?n"
    let ?w = "w\<lparr>w_reads := Suc ?n\<rparr>"
    have tw: "timed_world ?w" using Cons.prems(1) by (auto simp: timed_world_def sends_ok_def)
    have rel: "case map_of (dd_seen s) ?k of
          Some x \<Rightarrow> (\<exists>t. prev ?k = Some t \<and> x = t + dd_Window s)
        | None \<Rightarrow> (\<forall>t. prev ?k = Some t \<longrightarrow> t + dd_Window s \<le> ?now)"
      using Cons.prems(2) by (simp add: dedup_rel_def)
    then have drop: "(case map_of (dd_seen s) ?k of Some existing \<Rightarrow> ?now < existing | None \<Rightarrow> False) \<longleftrightarrow>
        (case prev ?k of Some t \<Rightarrow> ?now < t + dd_Window s | None \<Rightarrow> False)"
      by (auto split: option.splits)
    have later: "dedup_rel ?clk (Suc ?n) prev s"
      using dedup_fire_rel [OF Cons.prems(2), of "[]" "Suc ?n"] mono by simp
    show ?thesis
    proof (cases "case prev ?k of Some t \<Rightarrow> ?now < t + dd_Window s | None \<Rightarrow> False")
      case True
      have "Dedup_ProcessMessage msg c s w = Some (s, ?w, None)"
        using True drop by (simp add: Dedup_ProcessMessage_def Now_def Let_def)
      with Cons.IH [OF tw, of prev s] later Some True show ?thesis by auto
    next
      case False
      let ?s = "s\<lparr>dd_seen := AList.update ?k (?now + dd_Window s) (dd_seen s), dd_counter := dd_counter s + 1\<rparr>"
      let ?w1 = "RegisterTimer c (''dedup-expire-'' @ FormatUint (unat (dd_counter s + 1))) (?now + dd_Window s) ?w"
      have reg: "timed_world ?w1" "w_clock ?w1 = ?clk" "w_reads ?w1 = Suc ?n" "w_sent ?w1 = w_sent w"
        using timed_Register [OF tw] by auto
      obtain w2 where w2: "Emit c msg ?w1 = (w2, None)" "timed_world w2" "w_clock w2 = ?clk" "w_reads w2 = Suc ?n"
        "w_sent w2 = w_sent w @ to_all (rc_outputs c) msg"
        using timed_Emit [OF reg(1), of c msg] reg by auto
      have step: "Dedup_ProcessMessage msg c s w = Some (?s, w2, None)"
        using False drop w2(1) by (simp add: Dedup_ProcessMessage_def Now_def Let_def returning_def)
      define prev' where "prev' = prev(?k \<mapsto> ?now)"
      have "dedup_rel (w_clock w2) (w_reads w2) prev' ?s"
        using later w2(3,4) by (simp add: prev'_def dedup_rel_def go_maps distinct_update cong: option.case_cong)
      from Cons.IH [OF w2(2) this] obtain s' w' where
        "timed_history Dedup_ProcessMessage Dedup_HandleTimer evs c ?s w2 = Some (s', w', None)"
        "w_sent w' = w_sent w2 @ concat (map (to_all (rc_outputs c))
          (dedup_spec (dd_Window s) (\<lambda>msg. dedupKey msg s) ?clk evs (Suc ?n) prev'))"
        using w2(3,4) by auto
      with w2(5) step Some False show ?thesis
        by (intro exI [of _ s'] exI [of _ w']) (simp add: prev'_def)
    qed
  qed
qed simp

section \<open>Delaying operators\<close>

text \<open>
  The specification that \<open>Sleep\<close> and \<open>Debounce\<close> share: a list of deadlines and messages, in order of
  deadline, first come first among equals. A message enters with its deadline, after those it
  supersedes (\<open>clash\<close>) have been dropped; firing at a time emits those that are due, in order.
\<close>

definition insert_deadline :: "time \<Rightarrow> 'u DataMessage \<Rightarrow> (time \<times> 'u DataMessage) list \<Rightarrow> (time \<times> 'u DataMessage) list" where
  "insert_deadline d msg P = filter (\<lambda>(d', _). d' \<le> d) P @ (d, msg) # filter (\<lambda>(d', _). \<not> d' \<le> d) P"

primrec delay_spec ::
  "('u DataMessage \<Rightarrow> 'u DataMessage \<Rightarrow> bool) \<Rightarrow> duration \<Rightarrow> (nat \<Rightarrow> time) \<Rightarrow> 'u DataMessage option list \<Rightarrow> nat \<Rightarrow>
     (time \<times> 'u DataMessage) list \<Rightarrow> 'u DataMessage list" where
  "delay_spec clash delay clk [] n P = []"
| "delay_spec clash delay clk (ev # evs) n P =
     (case ev of
        Some msg \<Rightarrow>
          delay_spec clash delay clk evs (Suc n)
            (insert_deadline (clk n + delay) msg (filter (\<lambda>(_, m). \<not> clash msg m) P))
      | None \<Rightarrow>
          map snd (filter (\<lambda>(d, _). d \<le> clk n) P)
            @ delay_spec clash delay clk evs (Suc n) (filter (\<lambda>(d, _). \<not> d \<le> clk n) P))"

text \<open>
  What the operators must provide: \<open>pend s name\<close> is the message that waits for the timer \<open>name\<close>;
  a message registers the timer with the next index, and a timer emits what waits for it.
\<close>

locale delaying_operator =
  fixes p :: "'u DataMessage \<Rightarrow> ('s, 'u) handler"
    and h :: "string \<Rightarrow> time \<Rightarrow> ('s, 'u) handler"
    and pend :: "'s \<Rightarrow> string \<Rightarrow> 'u DataMessage option"
    and idx :: "'s \<Rightarrow> nat"
    and nm :: "nat \<Rightarrow> string"
    and delay :: "'s \<Rightarrow> duration"
    and clash :: "'u DataMessage \<Rightarrow> 'u DataMessage \<Rightarrow> bool"
    and inv :: "'s \<Rightarrow> bool"
  assumes nm_inject: "nm i = nm j \<longleftrightarrow> i = j"
    and pend_names: "inv s \<Longrightarrow> pend s n \<noteq> None \<Longrightarrow> \<exists>k \<le> idx s. n = nm k"
    and process: "inv s \<Longrightarrow> Suc (idx s) < 2 ^ 64 \<Longrightarrow>
      \<exists>s'. inv s' \<and> idx s' = Suc (idx s) \<and> delay s' = delay s \<and>
        pend s' = (\<lambda>n. if n = nm (Suc (idx s)) then Some msg
                       else case pend s n of None \<Rightarrow> None | Some m \<Rightarrow> if clash msg m then None else Some m) \<and>
        (\<forall>w. p msg c s w = Some (s', RegisterTimer c (nm (Suc (idx s))) (fst (Now w) + delay s) (snd (Now w)), None))"
    and fire_none: "inv s \<Longrightarrow> pend s n = None \<Longrightarrow> h n t c s w = Some (s, w, None)"
    and fire_some: "inv s \<Longrightarrow> pend s n = Some m \<Longrightarrow>
      \<exists>s'. inv s' \<and> idx s' = idx s \<and> delay s' = delay s \<and> pend s' = (pend s)(n := None) \<and>
        (\<forall>w. h n t c s w = returning s' (Emit c m w))"
begin

definition live :: "'s \<Rightarrow> timerEntry list \<Rightarrow> (time \<times> 'u DataMessage) list" where
  "live s ts = concat (map (\<lambda>t. case pend s (te_Name t) of None \<Rightarrow> [] | Some m \<Rightarrow> [(te_FireAt t, m)]) ts)"

lemma live_simps [simp]:
  "live s [] = []"
  "live s (t # ts) = (case pend s (te_Name t) of None \<Rightarrow> [] | Some m \<Rightarrow> [(te_FireAt t, m)]) @ live s ts"
  "live s (xs @ ys) = live s xs @ live s ys"
  by (simp_all add: live_def)

lemma live_filter: "live s (filter (\<lambda>t. P (te_FireAt t)) ts) = filter (\<lambda>(d, _). P d) (live s ts)"
  by (induction ts) (auto split: option.splits)

lemma live_cong: "(\<And>t. t \<in> set ts \<Longrightarrow> pend s' (te_Name t) = pend s (te_Name t)) \<Longrightarrow> live s' ts = live s ts"
  by (induction ts) simp_all

lemma live_clash:
  "(\<And>t. t \<in> set ts \<Longrightarrow> pend s' (te_Name t) =
      (case pend s (te_Name t) of None \<Rightarrow> None | Some m \<Rightarrow> if clash msg m then None else Some m)) \<Longrightarrow>
   live s' ts = filter (\<lambda>(_, m). \<not> clash msg m) (live s ts)"
  by (induction ts) (auto split: option.splits)

text \<open>The timers of the node: distinct names of used indices, and no message waits without one.\<close>

definition timers_rel :: "'s \<Rightarrow> timerEntry list \<Rightarrow> bool" where
  "timers_rel s ts \<longleftrightarrow> distinct (map te_Name ts) \<and> (\<forall>t \<in> set ts. \<exists>k \<le> idx s. te_Name t = nm k) \<and>
     (\<forall>n. pend s n \<noteq> None \<longrightarrow> n \<in> te_Name ` set ts)"

lemma fire_all_live:
  assumes "inv s" "distinct (map te_Name ts)" "timed_world w"
  shows "\<exists>s' w'. fire_all h ts c s w = Some (s', w', None) \<and> inv s' \<and> idx s' = idx s \<and> delay s' = delay s \<and>
    pend s' = (\<lambda>n. if n \<in> te_Name ` set ts then None else pend s n) \<and>
    timed_world w' \<and> w_clock w' = w_clock w \<and> w_reads w' = w_reads w \<and> w_timers w' = w_timers w \<and>
    w_sent w' = w_sent w @ concat (map (to_all (rc_outputs c)) (map snd (live s ts)))"
  using assms
proof (induction ts arbitrary: s w)
  case Nil
  then show ?case by auto
next
  case (Cons t ts)
  let ?n = "te_Name t"
  have d: "distinct (map te_Name ts)" "?n \<notin> te_Name ` set ts" using Cons.prems(2) by auto
  show ?case
  proof (cases "pend s ?n")
    case None
    from Cons.IH [OF Cons.prems(1) d(1) Cons.prems(3)] show ?thesis
      using fire_none [OF Cons.prems(1) None] None by (fastforce simp: fun_eq_iff)
  next
    case (Some m)
    obtain s1 where s1: "inv s1" "idx s1 = idx s" "delay s1 = delay s" "pend s1 = (pend s)(?n := None)"
      "\<And>w. h ?n (te_FireAt t) c s w = returning s1 (Emit c m w)"
      using fire_some [OF Cons.prems(1) Some, of "te_FireAt t" c] by blast
    obtain w1 where w1: "Emit c m w = (w1, None)" "timed_world w1" "w_clock w1 = w_clock w" "w_reads w1 = w_reads w"
      "w_timers w1 = w_timers w" "w_sent w1 = w_sent w @ to_all (rc_outputs c) m"
      using timed_Emit [OF Cons.prems(3)] by metis
    have lv: "live s1 ts = live s ts"
      by (rule live_cong) (use d(2) s1(4) in \<open>auto simp: image_iff\<close>)
    from Cons.IH [OF s1(1) d(1) w1(2)] obtain s2 w2 where
      r: "fire_all h ts c s1 w1 = Some (s2, w2, None)" "inv s2" "idx s2 = idx s" "delay s2 = delay s"
        "pend s2 = (\<lambda>n. if n \<in> te_Name ` set ts then None else pend s1 n)"
        "timed_world w2" "w_clock w2 = w_clock w" "w_reads w2 = w_reads w" "w_timers w2 = w_timers w"
        "w_sent w2 = w_sent w1 @ concat (map (to_all (rc_outputs c)) (map snd (live s ts)))"
      using s1(2,3) w1(3-5) lv by auto
    have "fire_all h (t # ts) c s w = Some (s2, w2, None)"
      using r(1) s1(5) w1(1) by (simp add: returning_def)
    moreover have "pend s2 = (\<lambda>n. if n \<in> te_Name ` set (t # ts) then None else pend s n)"
      using r(5) s1(4) by (auto simp: fun_eq_iff)
    ultimately show ?thesis
      using r w1(6) Some by (intro exI [of _ s2] exI [of _ w2]) simp
  qed
qed

lemma live_register:
  assumes "timers_ok tm" "timers_rel s (tm_timers tm)"
    and "pend s' = (\<lambda>n. if n = nm (Suc (idx s)) then Some msg
           else case pend s n of None \<Rightarrow> None | Some m \<Rightarrow> if clash msg m then None else Some m)"
    and "idx s' = Suc (idx s)"
  shows "live s' (tm_timers (timer_Register (nm (Suc (idx s))) d tm)) =
      insert_deadline d msg (filter (\<lambda>(_, m). \<not> clash msg m) (live s (tm_timers tm)))"
    and "timers_rel s' (tm_timers (timer_Register (nm (Suc (idx s))) d tm))"
proof -
  let ?new = "nm (Suc (idx s))" and ?ts = "tm_timers tm"
  have fresh: "te_Name t \<noteq> ?new" if "t \<in> set ?ts" for t
    using assms(2) that nm_inject by (fastforce simp: timers_rel_def)
  have lv: "live s' ?ts = filter (\<lambda>(_, m). \<not> clash msg m) (live s ?ts)"
    by (rule live_clash) (use fresh assms(3) in auto)
  show "live s' (tm_timers (timer_Register ?new d tm)) =
      insert_deadline d msg (filter (\<lambda>(_, m). \<not> clash msg m) (live s ?ts))"
    unfolding timer_Register_filter [OF assms(1)] insert_deadline_def live_simps
      live_filter [where P = "\<lambda>x. x \<le> d"] live_filter [where P = "\<lambda>x. \<not> x \<le> d"] lv
    by (simp add: assms(3))
  have set: "set (tm_timers (timer_Register ?new d tm)) = insert \<lparr>te_Name = ?new, te_FireAt = d\<rparr> (set ?ts)"
    using timer_Register_mset [OF assms(1), of ?new d] by (metis set_mset_add_mset_insert set_mset_mset)
  have "mset (map te_Name (tm_timers (timer_Register ?new d tm))) = add_mset ?new (mset (map te_Name ?ts))"
    using timer_Register_mset [OF assms(1), of ?new d] by simp
  then have "distinct (map te_Name (tm_timers (timer_Register ?new d tm))) = distinct (?new # map te_Name ?ts)"
    by (metis mset.simps(2) mset_eq_imp_distinct_iff)
  moreover have "?new \<notin> te_Name ` set ?ts" using fresh by (metis imageE)
  ultimately show "timers_rel s' (tm_timers (timer_Register ?new d tm))"
    using assms(2-4) unfolding timers_rel_def set
    by (auto simp: le_Suc_eq split: option.splits if_splits)
qed

lemma delay_history:
  assumes "inv s" "timed_world w" "w_timers w = Some tm" "timers_rel s (tm_timers tm)" "rc_timerMgr c"
    and "idx s + length evs < 2 ^ 64"
  shows "\<exists>s' w'. timed_history p h evs c s w = Some (s', w', None) \<and>
    w_sent w' = w_sent w @ concat (map (to_all (rc_outputs c))
      (delay_spec clash (delay s) (w_clock w) evs (w_reads w) (live s (tm_timers tm))))"
  using assms
proof (induction evs arbitrary: s w tm)
  case (Cons ev evs)
  let ?now = "w_clock w (w_reads w)"
  have ok: "timers_ok tm" using Cons.prems(2,3) by (auto simp: timed_world_def)
  show ?case
  proof (cases ev)
    case (Some msg)
    let ?d = "?now + delay s" and ?new = "nm (Suc (idx s))"
    obtain s1 where s1: "inv s1" "idx s1 = Suc (idx s)" "delay s1 = delay s"
      "pend s1 = (\<lambda>n. if n = ?new then Some msg
         else case pend s n of None \<Rightarrow> None | Some m \<Rightarrow> if clash msg m then None else Some m)"
      "p msg c s w = Some (s1, RegisterTimer c ?new ?d (w\<lparr>w_reads := Suc (w_reads w)\<rparr>), None)"
      using process [OF Cons.prems(1), of msg c] Cons.prems(6) by (auto simp: Now_def)
    let ?w = "w\<lparr>w_reads := Suc (w_reads w)\<rparr>"
    let ?w1 = "RegisterTimer c ?new ?d ?w" and ?tm = "timer_Register ?new ?d tm"
    have "timed_world ?w" using Cons.prems(2) by (auto simp: timed_world_def sends_ok_def)
    from timed_Register [OF this] have w1: "timed_world ?w1" "w_clock ?w1 = w_clock w" "w_reads ?w1 = Suc (w_reads w)"
      "w_sent ?w1 = w_sent w" by auto
    have tm: "w_timers ?w1 = Some ?tm"
      using Cons.prems(3,5) by (simp add: RegisterTimer_def)
    note lr = live_register [OF ok Cons.prems(4) s1(4,2)]
    from Cons.IH [OF s1(1) w1(1) tm lr(2) Cons.prems(5)] Cons.prems(6) s1 w1 Some lr(1) show ?thesis by simp
  next
    case None
    let ?ex = "filter (\<lambda>t. te_FireAt t \<le> ?now) (tm_timers tm)" and ?rest = "filter (\<lambda>t. \<not> te_FireAt t \<le> ?now) (tm_timers tm)"
    obtain w1 where w1: "fire_timers h c s w = fire_all h ?ex c s w1" "timed_world w1" "w_clock w1 = w_clock w"
      "w_reads w1 = Suc (w_reads w)" "w_sent w1 = w_sent w" "w_timers w1 = Some \<lparr>tm_timers = ?rest\<rparr>"
      using timed_fire [OF Cons.prems(2,3)] by metis
    have names: "distinct (map te_Name (tm_timers tm))" using Cons.prems(4) by (simp add: timers_rel_def)
    then have "distinct (map te_Name ?ex)" by (simp add: distinct_map_filter)
    from fire_all_live [OF Cons.prems(1) this w1(2)] obtain s2 w2 where
      r: "fire_all h ?ex c s w1 = Some (s2, w2, None)" "inv s2" "idx s2 = idx s" "delay s2 = delay s"
        "pend s2 = (\<lambda>n. if n \<in> te_Name ` set ?ex then None else pend s n)"
        "timed_world w2" "w_clock w2 = w_clock w1" "w_reads w2 = w_reads w1" "w_timers w2 = w_timers w1"
        "w_sent w2 = w_sent w1 @ concat (map (to_all (rc_outputs c)) (map snd (live s ?ex)))"
      by blast
    note r = r(1-6) r(7-10) [unfolded w1(3-6)]
    have apart: "te_Name t \<notin> te_Name ` set ?ex" if "t \<in> set ?rest" for t
      using that names by (auto simp: distinct_map inj_on_def image_iff)
    have "live s2 ?rest = live s ?rest"
      by (rule live_cong) (use apart r(5) in simp)
    moreover have "timers_rel s2 ?rest"
      using Cons.prems(4) r(3,5) unfolding timers_rel_def
      by (auto simp: distinct_map_filter image_iff split: if_splits) blast
    ultimately show ?thesis
      using Cons.IH [OF r(2,6,9) _ Cons.prems(5)] Cons.prems(6) r w1(1) None
        live_filter [where P = "\<lambda>x. x \<le> ?now"] live_filter [where P = "\<lambda>x. \<not> x \<le> ?now"]
      by simp
  qed
qed simp

end

section \<open>Sleep and Debounce are delaying operators\<close>

lemma unat_Suc_u64: "Suc (unat (c::u64)) < 2 ^ 64 \<Longrightarrow> unat (c + 1) = Suc (unat c)"
  by (simp add: unat_word_ariths)

definition sleep_inv :: "'u SleepOperator \<Rightarrow> bool" where
  "sleep_inv s \<longleftrightarrow> (\<forall>n. map_of (sl_pending s) n \<noteq> None \<longrightarrow> (\<exists>k \<le> unat (sl_counter s). n = ''sleep-'' @ FormatUint k))"

interpretation sleep: delaying_operator Sleep_ProcessMessage Sleep_HandleTimer
  "\<lambda>s. map_of (sl_pending s)" "\<lambda>s. unat (sl_counter s)" "\<lambda>k. ''sleep-'' @ FormatUint k" sl_Delay "\<lambda>_ _. False" sleep_inv
proof (unfold_locales, goal_cases)
  case 1
  then show ?case by simp
next
  case 2
  then show ?case by (simp add: sleep_inv_def)
next
  case (3 s msg c)
  let ?k = "sl_counter s + 1"
  let ?s = "s\<lparr>sl_counter := ?k, sl_pending := AList.update (sleep_name ?k) msg (sl_pending s)\<rparr>"
  have k: "unat ?k = Suc (unat (sl_counter s))" by (rule unat_Suc_u64 [OF 3(2)])
  have "sleep_inv ?s"
    using 3(1) unfolding sleep_inv_def by (auto simp: go_maps k sleep_name_def le_Suc_eq)
  then show ?case
    using k by (intro exI [of _ ?s])
      (simp add: Sleep_ProcessMessage_def Let_def Now_def go_maps sleep_name_def fun_eq_iff split: option.splits)
next
  case (4 s n t c w)
  then show ?case by (simp add: Sleep_HandleTimer_def)
next
  case (5 s n m t c)
  then show ?case
    by (intro exI [of _ "s\<lparr>sl_pending := AList.delete n (sl_pending s)\<rparr>"])
      (simp add: Sleep_HandleTimer_def go_maps sleep_inv_def)
qed

definition debounce_pend :: "'u DebounceOperator \<Rightarrow> string \<Rightarrow> 'u DataMessage option" where
  "debounce_pend s n = map_option (\<lambda>(_, e). de_Msg e) (find (\<lambda>(_, e). de_TimerName e = n) (db_pending s))"

definition debounce_inv :: "'u DebounceOperator \<Rightarrow> bool" where
  "debounce_inv s \<longleftrightarrow> gomap_ok (db_pending s) \<and>
     (\<forall>k e. map_of (db_pending s) k = Some e \<longrightarrow> dm_Key (de_Msg e) = k \<and>
        (\<exists>j \<le> unat (db_counter s). de_TimerName e = ''debounce-'' @ FormatUint j)) \<and>
     (\<forall>k e k' e'. map_of (db_pending s) k = Some e \<longrightarrow> map_of (db_pending s) k' = Some e' \<longrightarrow>
        de_TimerName e = de_TimerName e' \<longrightarrow> k = k')"

lemma debounce_unique:
  "debounce_inv s \<Longrightarrow> map_of (db_pending s) k = Some e \<Longrightarrow> map_of (db_pending s) k' = Some e' \<Longrightarrow>
   de_TimerName e = de_TimerName e' \<Longrightarrow> k = k'"
  by (simp only: debounce_inv_def)

lemma debounce_entry:
  "debounce_inv s \<Longrightarrow> map_of (db_pending s) k = Some e \<Longrightarrow> dm_Key (de_Msg e) = k \<and>
   (\<exists>j \<le> unat (db_counter s). de_TimerName e = ''debounce-'' @ FormatUint j)"
  by (simp only: debounce_inv_def)

lemma debounce_pend_iff:
  assumes "debounce_inv s"
  shows "debounce_pend s n = Some m \<longleftrightarrow>
    (\<exists>k e. map_of (db_pending s) k = Some e \<and> de_TimerName e = n \<and> de_Msg e = m)"
proof
  have ok: "gomap_ok (db_pending s)" using assms by (simp add: debounce_inv_def)
  note mem = map_of_eq_Some_iff [OF ok]
  {
    assume "debounce_pend s n = Some m"
    then obtain k e where "find (\<lambda>(_, e). de_TimerName e = n) (db_pending s) = Some (k, e)" "de_Msg e = m"
      by (auto simp: debounce_pend_def)
    moreover from this(1) have "(k, e) \<in> set (db_pending s)" "de_TimerName e = n"
      by (auto simp: find_Some_iff in_set_conv_nth)
    ultimately show "\<exists>k e. map_of (db_pending s) k = Some e \<and> de_TimerName e = n \<and> de_Msg e = m"
      using mem by metis
  next
    assume "\<exists>k e. map_of (db_pending s) k = Some e \<and> de_TimerName e = n \<and> de_Msg e = m"
    then obtain k e where e: "map_of (db_pending s) k = Some e" "de_TimerName e = n" "de_Msg e = m" by blast
    then have "(k, e) \<in> set (db_pending s)" using mem by simp
    then have "find (\<lambda>(_, e). de_TimerName e = n) (db_pending s) \<noteq> None"
      using e(2) by (auto simp: find_None_iff)
    then obtain k' e' where f: "find (\<lambda>(_, e). de_TimerName e = n) (db_pending s) = Some (k', e')" by auto
    then have "(k', e') \<in> set (db_pending s)" "de_TimerName e' = n"
      by (auto simp: find_Some_iff in_set_conv_nth)
    then have e': "map_of (db_pending s) k' = Some e'" "de_TimerName e = de_TimerName e'" using mem e(2) by simp_all
    have "k = k'" by (rule debounce_unique [OF assms e(1) e'])
    with e(1) e'(1) have "e' = e" by simp
    with f e(3) show "debounce_pend s n = Some m" by (simp add: debounce_pend_def)
  }
qed

text \<open>The orders in which \<open>range\<close> may visit a map, whatever the map.\<close>

definition order_ok :: "((string, 'v) gomap \<Rightarrow> string list) \<Rightarrow> bool" where
  "order_ok order \<longleftrightarrow> (\<forall>m. gomap_ok m \<longrightarrow> range_order (order m) m)"

lemma debounce_find_none:
  assumes "debounce_inv s" "order_ok order" "debounce_pend s n = None"
  shows "find (\<lambda>key. de_TimerName (the (map_of (db_pending s) key)) = n) (order (db_pending s)) = None"
proof -
  have "range_order (order (db_pending s)) (db_pending s)"
    using assms(1,2) by (simp add: order_ok_def debounce_inv_def)
  moreover have "de_TimerName e \<noteq> n" if "map_of (db_pending s) k = Some e" for k e
    using debounce_pend_iff [OF assms(1), of n "de_Msg e"] that assms(3) by auto
  ultimately show ?thesis
    by (fastforce simp: find_None_iff range_order_mem)
qed

lemma debounce_find_some:
  assumes "debounce_inv s" "order_ok order" "map_of (db_pending s) k = Some e" "de_TimerName e = n"
  shows "find (\<lambda>key. de_TimerName (the (map_of (db_pending s) key)) = n) (order (db_pending s)) = Some k"
proof -
  let ?P = "\<lambda>key. de_TimerName (the (map_of (db_pending s) key)) = n"
  have ro: "range_order (order (db_pending s)) (db_pending s)"
    using assms(1,2) by (simp add: order_ok_def debounce_inv_def)
  have "k \<in> set (order (db_pending s))"
    using assms(3) range_order_mem [OF ro] by simp
  then have "find ?P (order (db_pending s)) \<noteq> None"
    using assms(3,4) by (auto simp: find_None_iff)
  then obtain k' where k': "find ?P (order (db_pending s)) = Some k'" by blast
  then have "k' \<in> set (order (db_pending s))" "?P k'"
    by (auto simp: find_Some_iff)
  then obtain e' where "map_of (db_pending s) k' = Some e'" "de_TimerName e = de_TimerName e'"
    using range_order_mem [OF ro] assms(4) by auto
  from debounce_unique [OF assms(1,3) this] k' show ?thesis by simp
qed

lemma option_ext: "(\<And>m. x = Some m \<longleftrightarrow> y = Some m) \<Longrightarrow> x = y"
  by (metis option.exhaust)

lemma debounce_inv_process:
  assumes inv: "debounce_inv s" and k: "Suc (unat (db_counter s)) < 2 ^ 64"
    and s': "s' = s\<lparr>db_counter := db_counter s + 1,
      db_pending := AList.update (dm_Key msg) \<lparr>de_Msg = msg, de_TimerName = debounce_name (db_counter s + 1)\<rparr> (db_pending s)\<rparr>"
  shows "debounce_inv s'"
    and "debounce_pend s' = (\<lambda>n. if n = ''debounce-'' @ FormatUint (Suc (unat (db_counter s))) then Some msg
       else case debounce_pend s n of None \<Rightarrow> None | Some m \<Rightarrow> if dm_Key m = dm_Key msg then None else Some m)"
proof -
  let ?new = "''debounce-'' @ FormatUint (Suc (unat (db_counter s)))"
  have name: "debounce_name (db_counter s + 1) = ?new" and c': "unat (db_counter s') = Suc (unat (db_counter s))"
    using unat_Suc_u64 [OF k] by (simp_all add: debounce_name_def s')
  have pend': "map_of (db_pending s') = (map_of (db_pending s))(dm_Key msg \<mapsto> \<lparr>de_Msg = msg, de_TimerName = ?new\<rparr>)"
    by (simp add: s' go_maps name)
  have fresh: "de_TimerName e \<noteq> ?new" if "map_of (db_pending s) k = Some e" for k e
    using debounce_entry [OF inv that] by auto
  show inv': "debounce_inv s'"
    unfolding debounce_inv_def
  proof (intro conjI allI impI)
    show "gomap_ok (db_pending s')" using inv by (simp add: s' debounce_inv_def distinct_update)
  next
    fix k e assume "map_of (db_pending s') k = Some e"
    then have cases: "k = dm_Key msg \<and> e = \<lparr>de_Msg = msg, de_TimerName = ?new\<rparr> \<or> map_of (db_pending s) k = Some e"
      unfolding pend' by (metis fun_upd_apply option.inject)
    then show "dm_Key (de_Msg e) = k"
      using debounce_entry [OF inv, of k e] by auto
    show "\<exists>j \<le> unat (db_counter s'). de_TimerName e = ''debounce-'' @ FormatUint j"
      using cases debounce_entry [OF inv, of k e] le_SucI [of _ "unat (db_counter s)"] unfolding c'
      by (metis debounceEntry.select_convs(2) order_refl)
  next
    fix k e k' e'
    assume "map_of (db_pending s') k = Some e" "map_of (db_pending s') k' = Some e'" "de_TimerName e = de_TimerName e'"
    then show "k = k'"
      using fresh [of k e] fresh [of k' e'] debounce_unique [OF inv, of k e k' e']
      by (auto simp: pend' split: if_splits)
  qed
  show "debounce_pend s' = (\<lambda>n. if n = ?new then Some msg
       else case debounce_pend s n of None \<Rightarrow> None | Some m \<Rightarrow> if dm_Key m = dm_Key msg then None else Some m)"
  proof
    fix n
    have "debounce_pend s' n = Some m \<longleftrightarrow> (if n = ?new then m = msg
        else debounce_pend s n = Some m \<and> dm_Key m \<noteq> dm_Key msg)" for m
    proof (cases "n = ?new")
      case True
      have "(\<exists>k e. map_of (db_pending s') k = Some e \<and> de_TimerName e = ?new \<and> de_Msg e = m) \<longleftrightarrow> m = msg"
        unfolding pend' using fresh by (auto split: if_splits)
      with True show ?thesis using debounce_pend_iff [OF inv', of n m] by simp
    next
      case False
      have "map_of (db_pending s') k = Some e \<and> de_TimerName e = n \<and> de_Msg e = m \<longleftrightarrow>
          map_of (db_pending s) k = Some e \<and> de_TimerName e = n \<and> de_Msg e = m \<and> dm_Key m \<noteq> dm_Key msg" for k e
        unfolding pend' using False debounce_entry [OF inv, of k e] by auto
      with False show ?thesis
        using debounce_pend_iff [OF inv', of n m] debounce_pend_iff [OF inv, of n m] by auto
    qed
    then show "debounce_pend s' n = (if n = ?new then Some msg
        else case debounce_pend s n of None \<Rightarrow> None | Some m \<Rightarrow> if dm_Key m = dm_Key msg then None else Some m)"
      by (intro option_ext) (auto split: option.splits)
  qed
qed

lemma debounce_inv_fire:
  assumes inv: "debounce_inv s" and e: "map_of (db_pending s) k = Some e"
    and s': "s' = s\<lparr>db_pending := AList.delete k (db_pending s)\<rparr>"
  shows "debounce_inv s'" and "debounce_pend s' = (debounce_pend s)(de_TimerName e := None)"
proof -
  have pend': "map_of (db_pending s') = (map_of (db_pending s))(k := None)" "db_counter s' = db_counter s"
    by (simp_all add: s' go_maps)
  show inv': "debounce_inv s'"
    unfolding debounce_inv_def
  proof (intro conjI allI impI)
    show "gomap_ok (db_pending s')" using inv by (simp add: s' debounce_inv_def distinct_delete)
  next
    fix k1 e1 assume "map_of (db_pending s') k1 = Some e1"
    then have "map_of (db_pending s) k1 = Some e1" by (simp add: pend' split: if_splits)
    from debounce_entry [OF inv this] show "dm_Key (de_Msg e1) = k1"
      "\<exists>j \<le> unat (db_counter s'). de_TimerName e1 = ''debounce-'' @ FormatUint j" by (simp_all add: pend'(2))
  next
    fix k1 e1 k2 e2
    assume "map_of (db_pending s') k1 = Some e1" "map_of (db_pending s') k2 = Some e2" "de_TimerName e1 = de_TimerName e2"
    then show "k1 = k2"
      using debounce_unique [OF inv, of k1 e1 k2 e2] by (simp add: pend' split: if_splits)
  qed
  show "debounce_pend s' = (debounce_pend s)(de_TimerName e := None)"
  proof
    fix n
    have "debounce_pend s' n = Some m \<longleftrightarrow> n \<noteq> de_TimerName e \<and> debounce_pend s n = Some m" for m
    proof -
      have "map_of (db_pending s') k1 = Some e1 \<and> de_TimerName e1 = n \<and> de_Msg e1 = m \<longleftrightarrow>
          map_of (db_pending s) k1 = Some e1 \<and> de_TimerName e1 = n \<and> de_Msg e1 = m \<and> n \<noteq> de_TimerName e" for k1 e1
        unfolding pend' using debounce_unique [OF inv e, of k1 e1] e by auto
      then show ?thesis
        using debounce_pend_iff [OF inv', of n m] debounce_pend_iff [OF inv, of n m] by auto
    qed
    then show "debounce_pend s' n = ((debounce_pend s)(de_TimerName e := None)) n"
      by (intro option_ext) auto
  qed
qed

lemma debounce_delaying:
  assumes "order_ok order"
  shows "delaying_operator Debounce_ProcessMessage (Debounce_HandleTimer order)
    debounce_pend (\<lambda>s. unat (db_counter s)) (\<lambda>k. ''debounce-'' @ FormatUint k) db_Window
    (\<lambda>msg m. dm_Key m = dm_Key msg) debounce_inv"
proof (unfold_locales, goal_cases)
  case 1
  then show ?case by simp
next
  case (2 s n)
  then obtain m where "debounce_pend s n = Some m" by blast
  then obtain k e where "map_of (db_pending s) k = Some e" "de_TimerName e = n"
    using debounce_pend_iff [OF 2(1)] by blast
  with debounce_entry [OF 2(1)] show ?case by blast
next
  case (3 s msg c)
  let ?s = "s\<lparr>db_counter := db_counter s + 1,
      db_pending := AList.update (dm_Key msg) \<lparr>de_Msg = msg, de_TimerName = debounce_name (db_counter s + 1)\<rparr> (db_pending s)\<rparr>"
  show ?case
    using debounce_inv_process [OF 3 refl, of msg] unat_Suc_u64 [OF 3(2)]
    by (intro exI [of _ ?s]) (simp add: Debounce_ProcessMessage_def Let_def Now_def debounce_name_def)
next
  case (4 s n t c w)
  then show ?case using debounce_find_none [OF 4(1) assms 4(2)] by (simp add: Debounce_HandleTimer_def)
next
  case (5 s n m t c)
  then obtain k e where e: "map_of (db_pending s) k = Some e" "de_TimerName e = n" "de_Msg e = m"
    using debounce_pend_iff by blast
  show ?case
    using debounce_inv_fire [OF 5(1) e(1) refl] debounce_find_some [OF 5(1) assms e(1,2)] e
    by (intro exI [of _ "s\<lparr>db_pending := AList.delete k (db_pending s)\<rparr>"]) (simp add: Debounce_HandleTimer_def)
qed

section \<open>Properties\<close>

text \<open>
  C24. Deduplication. Over any history of messages and timer firings, with a clock that does not go
  back and no context cancelled, the operator emits exactly the messages that the specification
  lets pass: those of whose key no message passed less than a window ago. The clean-up of expired
  keys never lets a duplicate through and never holds a message back.
\<close>

theorem dedup_refines:
  assumes "timed_world w" "s = (NewDeduplicateOperator window)\<lparr>dd_KeyFn := keyFn\<rparr>"
  shows "\<exists>s' w'. timed_history Dedup_ProcessMessage Dedup_HandleTimer evs c s w = Some (s', w', None) \<and>
    w_sent w' = w_sent w @ concat (map (to_all (rc_outputs c))
      (dedup_spec window (\<lambda>msg. dedupKey msg s) (w_clock w) evs (w_reads w) Map.empty))"
proof -
  have "dedup_rel (w_clock w) (w_reads w) Map.empty s"
    by (simp add: dedup_rel_def assms(2) NewDeduplicateOperator_def)
  from dedup_history [OF assms(1) this] show ?thesis
    by (simp add: assms(2) NewDeduplicateOperator_def)
qed

theorem dedup_refines_witness:
  "\<exists>s' w'. timed_history Dedup_ProcessMessage Dedup_HandleTimer
       [Some (DataMessage ''k'' AnyNil 0), Some (DataMessage ''k'' AnyNil 1), None, Some (DataMessage ''k'' AnyNil 2)]
       \<lparr>rc_outputs = [0], rc_portOutputs = [], rc_timerMgr = True, rc_nodeID = ''d'', rc_onError = None\<rparr>
       ((NewDeduplicateOperator 2)\<lparr>dd_KeyFn := None\<rparr>)
       (\<lparr>w_sent = [], w_outcome = (\<lambda>_. None), w_sends = 0, w_timers = Some newTimerManager, w_counts = [],
         w_clock = int, w_reads = 0\<rparr> :: int World) = Some (s', w', None) \<and>
     w_sent w' = [(0, NewDataMessage ''k'' AnyNil 0), (0, NewDataMessage ''k'' AnyNil 2)]"
proof -
  let ?w = "\<lparr>w_sent = [], w_outcome = (\<lambda>_. None), w_sends = 0, w_timers = Some newTimerManager, w_counts = [],
         w_clock = int, w_reads = 0\<rparr> :: int World"
  have "timed_world ?w"
    by (simp add: timed_world_def sends_ok_def timers_ok_def newTimerManager_def mono_def)
  from dedup_refines [OF this refl, where window = 2 and keyFn = None and evs = "[Some (DataMessage ''k'' AnyNil 0), Some (DataMessage ''k'' AnyNil 1), None, Some (DataMessage ''k'' AnyNil 2)]"
      and c = "\<lparr>rc_outputs = [0], rc_portOutputs = [], rc_timerMgr = True, rc_nodeID = ''d'', rc_onError = None\<rparr>"]
  show ?thesis
    by (simp add: dedupKey_def NewDeduplicateOperator_def to_all_def del: timed_history.simps)
qed

text \<open>
  C25. Sleep. Over any history of messages and timer firings the operator emits exactly what the
  specification with no superseding emits: every message once, unchanged, when the timers are first
  fired at or after its arrival plus the delay, in order of deadline.
\<close>

theorem sleep_refines:
  assumes "timed_world w" "w_timers w = Some newTimerManager" "rc_timerMgr c" "length evs < 2 ^ 64"
  shows "\<exists>s' w'. timed_history Sleep_ProcessMessage Sleep_HandleTimer evs c (NewSleepOperator delay) w = Some (s', w', None) \<and>
    w_sent w' = w_sent w @ concat (map (to_all (rc_outputs c))
      (delay_spec (\<lambda>_ _. False) delay (w_clock w) evs (w_reads w) []))"
proof -
  have "sleep_inv (NewSleepOperator delay)"
    by (simp add: sleep_inv_def NewSleepOperator_def)
  moreover have "sleep.timers_rel (NewSleepOperator delay) (tm_timers newTimerManager)"
    unfolding sleep.timers_rel_def by (simp add: NewSleepOperator_def newTimerManager_def)
  ultimately show ?thesis
    using sleep.delay_history [OF _ assms(1,2) _ assms(3), of "NewSleepOperator delay" evs] assms(4)
    by (simp add: NewSleepOperator_def newTimerManager_def)
qed

theorem sleep_refines_witness:
  "\<exists>s' w'. timed_history Sleep_ProcessMessage Sleep_HandleTimer
       [Some (DataMessage ''k'' AnyNil 0), None, None]
       \<lparr>rc_outputs = [0], rc_portOutputs = [], rc_timerMgr = True, rc_nodeID = ''d'', rc_onError = None\<rparr> (NewSleepOperator 2)
       (\<lparr>w_sent = [], w_outcome = (\<lambda>_. None), w_sends = 0, w_timers = Some newTimerManager, w_counts = [],
         w_clock = int, w_reads = 0\<rparr> :: int World) = Some (s', w', None) \<and>
     w_sent w' = [(0, NewDataMessage ''k'' AnyNil 0)]"
proof -
  let ?w = "\<lparr>w_sent = [], w_outcome = (\<lambda>_. None), w_sends = 0, w_timers = Some newTimerManager, w_counts = [],
         w_clock = int, w_reads = 0\<rparr> :: int World"
  have "timed_world ?w"
    by (simp add: timed_world_def sends_ok_def timers_ok_def newTimerManager_def mono_def)
  from sleep_refines [OF this, where evs = "[Some (DataMessage ''k'' AnyNil 0), None, None]" and delay = 2
      and c = "\<lparr>rc_outputs = [0], rc_portOutputs = [], rc_timerMgr = True, rc_nodeID = ''d'', rc_onError = None\<rparr>"]
  show ?thesis
    by (simp add: insert_deadline_def to_all_def del: timed_history.simps)
qed

text \<open>
  C26. Debounce. Over any history the operator emits exactly what the specification in which a message
  supersedes the waiting one of its key emits: a message comes out if and only if no other message of
  its key arrives before the timers are fired at or after its deadline; timers of superseded messages
  have no effect. This holds for every order in which the pending map is searched.
\<close>

theorem debounce_refines:
  fixes w :: "'u World"
  assumes "order_ok order" "timed_world w" "w_timers w = Some newTimerManager" "rc_timerMgr c" "length evs < 2 ^ 64"
  shows "\<exists>s' w'. timed_history Debounce_ProcessMessage (Debounce_HandleTimer order) evs c (NewDebounceOperator window) w
      = Some (s', w', None) \<and>
    w_sent w' = w_sent w @ concat (map (to_all (rc_outputs c))
      (delay_spec (\<lambda>msg m. dm_Key m = dm_Key msg) window (w_clock w) evs (w_reads w) []))"
proof -
  note del = debounce_delaying [OF assms(1)]
  have inv: "debounce_inv (NewDebounceOperator window)"
    by (simp add: debounce_inv_def NewDebounceOperator_def)
  have rel: "delaying_operator.timers_rel debounce_pend (\<lambda>s. unat (db_counter s)) (\<lambda>k. ''debounce-'' @ FormatUint k)
      (NewDebounceOperator window :: 'u DebounceOperator) (tm_timers newTimerManager)"
    unfolding delaying_operator.timers_rel_def [OF del]
    by (simp add: debounce_pend_def NewDebounceOperator_def newTimerManager_def)
  show ?thesis
    using delaying_operator.delay_history [OF del inv assms(2,3) rel assms(4), of evs] assms(5)
    by (simp add: NewDebounceOperator_def newTimerManager_def delaying_operator.live_def [OF del])
qed

theorem debounce_refines_witness:
  "\<exists>s' w'. timed_history Debounce_ProcessMessage (Debounce_HandleTimer (map fst))
       [Some (DataMessage ''k'' AnyNil 0), Some (DataMessage ''k'' AnyNil 1), None, None]
       \<lparr>rc_outputs = [0], rc_portOutputs = [], rc_timerMgr = True, rc_nodeID = ''d'', rc_onError = None\<rparr> (NewDebounceOperator 2)
       (\<lparr>w_sent = [], w_outcome = (\<lambda>_. None), w_sends = 0, w_timers = Some newTimerManager, w_counts = [],
         w_clock = int, w_reads = 0\<rparr> :: int World) = Some (s', w', None) \<and>
     w_sent w' = [(0, NewDataMessage ''k'' AnyNil 1)]"
proof -
  let ?w = "\<lparr>w_sent = [], w_outcome = (\<lambda>_. None), w_sends = 0, w_timers = Some newTimerManager, w_counts = [],
         w_clock = int, w_reads = 0\<rparr> :: int World"
  have "timed_world ?w"
    by (simp add: timed_world_def sends_ok_def timers_ok_def newTimerManager_def mono_def)
  moreover have "order_ok (map fst)" by (simp add: order_ok_def)
  ultimately show ?thesis
    using debounce_refines [where w = ?w and order = "map fst" and window = 2
      and evs = "[Some (DataMessage ''k'' AnyNil 0), Some (DataMessage ''k'' AnyNil 1), None, None]"
      and c = "\<lparr>rc_outputs = [0], rc_portOutputs = [], rc_timerMgr = True, rc_nodeID = ''d'', rc_onError = None\<rparr>"]
    by (simp add: insert_deadline_def to_all_def del: timed_history.simps)
qed

end
