(* ===== verification/Barrier_Aligner.thy ===== *)
theory Barrier_Aligner
  imports Message
begin

text \<open>
  The barrier alignment protocol of \<open>internal/engine/barrier_aligner.go\<close>: the aligner's state
  and operations, its invariant, and the functional description of a whole alignment round.
  Input indices and counts come from slices and are never negative, so they are \<open>nat\<close>.
\<close>

record 'u indexedMessage =
  im_InputIndex :: nat
  im_Msg :: "'u Message"

record 'u BarrierAligner =
  ba_numInputs :: nat
  ba_currentEpoch :: u64
  ba_received :: "(nat, bool) gomap"
  ba_buffered :: "'u Message list"
  ba_aligning :: bool
  ba_currentBarrier :: "BarrierSignal option"

definition NewBarrierAligner :: "nat \<Rightarrow> 'u BarrierAligner" where
  "NewBarrierAligner numInputs =
     \<lparr>ba_numInputs = numInputs, ba_currentEpoch = 0, ba_received = [], ba_buffered = [],
      ba_aligning = False, ba_currentBarrier = None\<rparr>"

text \<open>Reading a \<open>map[int]bool\<close>: an absent key reads false.\<close>

definition received_at :: "(nat, bool) gomap \<Rightarrow> nat \<Rightarrow> bool" where
  "received_at m i = (map_of m i = Some True)"

definition onBarrier ::
  "nat \<Rightarrow> BarrierSignal \<Rightarrow> 'u BarrierAligner \<Rightarrow>
     'u Message list \<times> BarrierSignal option \<times> 'u BarrierAligner" where
  "onBarrier inputIndex barrier ba =
     (if ba_numInputs ba \<le> 1 then ([], Some barrier, ba)
      else
        let ba = (if \<not> ba_aligning ba
                  then ba\<lparr>ba_aligning := True, ba_currentEpoch := bs_Epoch barrier,
                          ba_currentBarrier := Some barrier, ba_received := [],
                          ba_buffered := []\<rparr>
                  else ba);
            ba = ba\<lparr>ba_received := AList.update inputIndex True (ba_received ba)\<rparr>
        in if length (ba_received ba) = ba_numInputs ba
           then (ba_buffered ba, ba_currentBarrier ba,
                 ba\<lparr>ba_aligning := False, ba_currentEpoch := 0, ba_currentBarrier := None,
                    ba_received := [], ba_buffered := []\<rparr>)
           else ([], None, ba))"

definition OnMessage ::
  "'u indexedMessage \<Rightarrow> 'u BarrierAligner \<Rightarrow>
     'u Message list \<times> BarrierSignal option \<times> 'u BarrierAligner" where
  "OnMessage im ba =
     (case barrier_of (im_Msg im) of
        Some barrier \<Rightarrow> onBarrier (im_InputIndex im) barrier ba
      | None \<Rightarrow>
          if ba_aligning ba \<and> received_at (ba_received ba) (im_InputIndex im)
          then ([], None, ba\<lparr>ba_buffered := ba_buffered ba @ [im_Msg im]\<rparr>)
          else ([im_Msg im], None, ba))"

definition IsAligning :: "'u BarrierAligner \<Rightarrow> bool" where
  "IsAligning ba = ba_aligning ba"

section \<open>The invariant\<close>

text \<open>
  Between calls an idle aligner holds nothing. While it aligns it has a barrier, has seen it on
  some but not all inputs, each input known to it exists, and a node with a single input never
  aligns.
\<close>

definition aligner_ok :: "'u BarrierAligner \<Rightarrow> bool" where
  "aligner_ok ba \<longleftrightarrow>
     (if ba_aligning ba
      then ba_currentBarrier ba \<noteq> None \<and> gomap_ok (ba_received ba) \<and> ba_received ba \<noteq> [] \<and>
           list_all (\<lambda>(i, seen). seen \<and> i < ba_numInputs ba) (ba_received ba) \<and>
           length (ba_received ba) < ba_numInputs ba \<and>
           map_option bs_Epoch (ba_currentBarrier ba) = Some (ba_currentEpoch ba)
      else ba_currentBarrier ba = None \<and> ba_received ba = [] \<and> ba_buffered ba = [] \<and>
           ba_currentEpoch ba = 0)"

lemma aligner_ok_new [simp]: "aligner_ok (NewBarrierAligner n)"
  by (simp add: aligner_ok_def NewBarrierAligner_def)

lemma received_at_ok:
  "list_all (\<lambda>(i, seen). seen \<and> P i) m \<Longrightarrow> received_at m i \<longleftrightarrow> i \<in> set (map fst m)"
  unfolding received_at_def
  by (induction m) (auto simp: list_all_iff)

lemma list_all_update:
  "list_all (\<lambda>(i, seen). seen \<and> P i) m \<Longrightarrow> P i \<Longrightarrow>
   list_all (\<lambda>(i, seen). seen \<and> P i) (AList.update i True m)"
  by (induction m) auto

lemma length_update_le: "length (AList.update k v m) \<le> Suc (length m)"
  by (simp add: length_update)

lemma update_nonempty [simp]: "AList.update k v m \<noteq> []"
  by (cases m) (auto split: if_splits)

lemma onBarrier_ok:
  assumes "aligner_ok ba" "i < ba_numInputs ba" "onBarrier i b ba = (out, ab, ba')"
  shows "aligner_ok ba'" and "ba_numInputs ba' = ba_numInputs ba"
proof -
  consider (single) "ba_numInputs ba \<le> 1" | (first) "\<not> ba_numInputs ba \<le> 1" "\<not> ba_aligning ba"
    | (later) "\<not> ba_numInputs ba \<le> 1" "ba_aligning ba" by blast
  then have "aligner_ok ba' \<and> ba_numInputs ba' = ba_numInputs ba"
  proof cases
    case single
    with assms show ?thesis by (simp add: onBarrier_def)
  next
    case first
    with assms show ?thesis by (auto simp: onBarrier_def Let_def aligner_ok_def)
  next
    case later
    let ?r = "AList.update i True (ba_received ba)"
    have "length ?r \<le> ba_numInputs ba" "list_all (\<lambda>(i, seen). seen \<and> i < ba_numInputs ba) ?r"
      "gomap_ok ?r"
      using assms(1,2) later length_update_le [of i True "ba_received ba"]
      by (auto simp: aligner_ok_def intro: list_all_update)
    with assms later show ?thesis
      by (auto simp: onBarrier_def Let_def aligner_ok_def split: if_splits)
  qed
  then show "aligner_ok ba'" "ba_numInputs ba' = ba_numInputs ba" by auto
qed

lemma OnMessage_ok:
  assumes "aligner_ok ba" "im_InputIndex im < ba_numInputs ba" "OnMessage im ba = (out, ab, ba')"
  shows "aligner_ok ba' \<and> ba_numInputs ba' = ba_numInputs ba"
proof (cases "barrier_of (im_Msg im)")
  case None
  with assms show ?thesis by (auto simp: OnMessage_def aligner_ok_def split: if_splits)
next
  case (Some b)
  with assms show ?thesis using onBarrier_ok by (auto simp: OnMessage_def)
qed

section \<open>Runs\<close>

text \<open>The aligner fed a sequence of messages: what it released, the barriers it reported.\<close>

primrec align_run ::
  "'u indexedMessage list \<Rightarrow> 'u BarrierAligner \<Rightarrow>
     'u Message list \<times> BarrierSignal list \<times> 'u BarrierAligner" where
  "align_run [] ba = ([], [], ba)"
| "align_run (im # ims) ba =
     (case OnMessage im ba of (out, ab, ba') \<Rightarrow>
        case align_run ims ba' of (out', bars, ba'') \<Rightarrow>
          (out @ out', (case ab of None \<Rightarrow> bars | Some b \<Rightarrow> b # bars), ba''))"

lemma align_run_append:
  "align_run (xs @ ys) ba =
     (case align_run xs ba of (out, bars, ba') \<Rightarrow>
        case align_run ys ba' of (out', bars', ba'') \<Rightarrow> (out @ out', bars @ bars', ba''))"
  by (induction xs arbitrary: ba) (auto split: prod.splits option.splits)

lemma align_run_ok:
  "aligner_ok ba \<Longrightarrow> list_all (\<lambda>im. im_InputIndex im < ba_numInputs ba) ims \<Longrightarrow>
   align_run ims ba = (out, bars, ba') \<Longrightarrow> aligner_ok ba' \<and> ba_numInputs ba' = ba_numInputs ba"
proof (induction ims arbitrary: ba out bars)
  case (Cons im ims)
  obtain o1 a1 ba1 where 1: "OnMessage im ba = (o1, a1, ba1)" by (cases "OnMessage im ba") auto
  obtain o2 a2 ba2 where 2: "align_run ims ba1 = (o2, a2, ba2)" by (cases "align_run ims ba1") auto
  have "aligner_ok ba1 \<and> ba_numInputs ba1 = ba_numInputs ba"
    using OnMessage_ok [OF Cons.prems(1) _ 1] Cons.prems(2) by simp
  moreover have "align_run ims ba1 = (o2, a2, ba')" using Cons.prems(3) 1 2 by simp
  ultimately show ?case using Cons.IH [of ba1 o2 a2] Cons.prems(2) by simp
qed simp

text \<open>
  The messages of a trace before and after the barrier of their own input; \<open>B\<close> is the set of
  inputs that have already delivered their barrier.
\<close>

primrec pre_barrier :: "nat set \<Rightarrow> 'u indexedMessage list \<Rightarrow> 'u Message list" where
  "pre_barrier B [] = []"
| "pre_barrier B (im # ims) =
     (case barrier_of (im_Msg im) of
        Some _ \<Rightarrow> pre_barrier (insert (im_InputIndex im) B) ims
      | None \<Rightarrow> (if im_InputIndex im \<in> B then [] else [im_Msg im]) @ pre_barrier B ims)"

primrec post_barrier :: "nat set \<Rightarrow> 'u indexedMessage list \<Rightarrow> 'u Message list" where
  "post_barrier B [] = []"
| "post_barrier B (im # ims) =
     (case barrier_of (im_Msg im) of
        Some _ \<Rightarrow> post_barrier (insert (im_InputIndex im) B) ims
      | None \<Rightarrow> (if im_InputIndex im \<in> B then [im_Msg im] else []) @ post_barrier B ims)"

text \<open>The barriers of a trace with the inputs that deliver them.\<close>

definition barriers :: "'u indexedMessage list \<Rightarrow> (nat \<times> BarrierSignal) list" where
  "barriers ims = concat (map (\<lambda>im. case barrier_of (im_Msg im) of
     None \<Rightarrow> [] | Some b \<Rightarrow> [(im_InputIndex im, b)]) ims)"

lemma barriers_simps [simp]:
  "barriers [] = []"
  "barrier_of (im_Msg im) = None \<Longrightarrow> barriers (im # ims) = barriers ims"
  "barrier_of (im_Msg im) = Some b \<Longrightarrow> barriers (im # ims) = (im_InputIndex im, b) # barriers ims"
  "barriers (xs @ ys) = barriers xs @ barriers ys"
  by (simp_all add: barriers_def)

text \<open>
  While not every input has delivered its barrier, a trace releases its pre-barrier messages in
  order, holds back its post-barrier messages in order, and reports nothing.
\<close>

lemma align_run_pending:
  assumes "aligner_ok ba" "1 < ba_numInputs ba" "ba_aligning ba"
    and "distinct (map fst (barriers ims))"
    and "set (map fst (barriers ims)) \<inter> set (map fst (ba_received ba)) = {}"
    and "list_all (\<lambda>im. im_InputIndex im < ba_numInputs ba) ims"
    and "length (ba_received ba) + length (barriers ims) < ba_numInputs ba"
  shows "\<exists>ba'. align_run ims ba = (pre_barrier (set (map fst (ba_received ba))) ims, [], ba') \<and>
    ba_aligning ba' \<and> ba_numInputs ba' = ba_numInputs ba \<and>
    ba_currentBarrier ba' = ba_currentBarrier ba \<and>
    ba_buffered ba' = ba_buffered ba @ post_barrier (set (map fst (ba_received ba))) ims \<and>
    set (map fst (ba_received ba')) = set (map fst (ba_received ba)) \<union> set (map fst (barriers ims)) \<and>
    length (ba_received ba') = length (ba_received ba) + length (barriers ims)"
  using assms
proof (induction ims arbitrary: ba)
  case Nil
  then show ?case by simp
next
  case (Cons im ims)
  show ?case
  proof (cases "barrier_of (im_Msg im)")
    case None
    have recv: "received_at (ba_received ba) (im_InputIndex im) \<longleftrightarrow>
        im_InputIndex im \<in> set (map fst (ba_received ba))"
      by (rule received_at_ok [where P = "\<lambda>i. i < ba_numInputs ba"]) (use Cons.prems(1,3) in \<open>simp add: aligner_ok_def\<close>)
    show ?thesis
    proof (cases "im_InputIndex im \<in> set (map fst (ba_received ba))")
      case True
      let ?ba = "ba\<lparr>ba_buffered := ba_buffered ba @ [im_Msg im]\<rparr>"
      have "OnMessage im ba = ([], None, ?ba)"
        using None True recv Cons.prems(3) by (simp add: OnMessage_def)
      moreover have "aligner_ok ?ba"
        using Cons.prems(1,3) by (simp add: aligner_ok_def)
      ultimately show ?thesis
        using Cons.IH [of ?ba] Cons.prems None True by auto
    next
      case False
      have "OnMessage im ba = ([im_Msg im], None, ba)"
        using None False recv by (simp add: OnMessage_def)
      then show ?thesis
        using Cons.IH [of ba] Cons.prems None False by auto
    qed
  next
    case (Some b)
    let ?ba = "ba\<lparr>ba_received := AList.update (im_InputIndex im) True (ba_received ba)\<rparr>"
    have new: "im_InputIndex im \<notin> set (map fst (ba_received ba))"
      using Cons.prems(5) Some by auto
    have len: "length (ba_received ?ba) = Suc (length (ba_received ba))"
      using new by (simp add: length_update)
    have on: "OnMessage im ba = ([], None, ?ba)"
      using Some Cons.prems(2,3,7) len by (simp add: OnMessage_def onBarrier_def Let_def)
    have ok: "aligner_ok ?ba"
      using OnMessage_ok [OF Cons.prems(1) _ on] Cons.prems(6) by simp
    have keys: "set (map fst (ba_received ?ba)) = insert (im_InputIndex im) (set (map fst (ba_received ba)))"
      using keys_update [of "im_InputIndex im" True "ba_received ba"] by simp
    have "\<exists>ba'. align_run ims ?ba = (pre_barrier (set (map fst (ba_received ?ba))) ims, [], ba') \<and>
      ba_aligning ba' \<and> ba_numInputs ba' = ba_numInputs ?ba \<and>
      ba_currentBarrier ba' = ba_currentBarrier ?ba \<and>
      ba_buffered ba' = ba_buffered ?ba @ post_barrier (set (map fst (ba_received ?ba))) ims \<and>
      set (map fst (ba_received ba')) = set (map fst (ba_received ?ba)) \<union> set (map fst (barriers ims)) \<and>
      length (ba_received ba') = length (ba_received ?ba) + length (barriers ims)"
    proof (rule Cons.IH [OF ok])
      show "set (map fst (barriers ims)) \<inter> set (map fst (ba_received ?ba)) = {}"
        using Cons.prems(4,5) Some unfolding keys by auto
    qed (use Cons.prems Some len in auto)
    then show ?thesis
      unfolding keys len using on Some by auto
  qed
qed

text \<open>
  A whole round, from an idle aligner: \<open>ims\<close> brings the barrier on all inputs but one, at least
  one message of it being the first barrier, and then input \<open>i\<close> delivers the missing one.
\<close>

lemma pre_post_no_barrier:
  "barriers ims = [] \<Longrightarrow> pre_barrier {} ims = map im_Msg ims \<and> post_barrier {} ims = []"
proof (induction ims)
  case (Cons im ims)
  then show ?case by (cases "barrier_of (im_Msg im)") auto
qed simp

lemma align_run_idle:
  assumes "\<not> ba_aligning ba" "barriers ims = []"
  shows "align_run ims ba = (map im_Msg ims, [], ba)"
  using assms(2)
proof (induction ims)
  case (Cons im ims)
  then have "barrier_of (im_Msg im) = None" "barriers ims = []"
    by (cases "barrier_of (im_Msg im)"; simp)+
  with Cons.IH assms(1) show ?case by (simp add: OnMessage_def)
qed simp

lemma pre_barrier_append:
  "pre_barrier B (xs @ ys) = pre_barrier B xs @ pre_barrier (B \<union> set (map fst (barriers xs))) ys"
proof (induction xs arbitrary: B)
  case (Cons im xs)
  then show ?case by (cases "barrier_of (im_Msg im)") simp_all
qed simp

lemma post_barrier_append:
  "post_barrier B (xs @ ys) = post_barrier B xs @ post_barrier (B \<union> set (map fst (barriers xs))) ys"
proof (induction xs arbitrary: B)
  case (Cons im xs)
  then show ?case by (cases "barrier_of (im_Msg im)") simp_all
qed simp

lemma barriers_split:
  "barriers ims = (j, b) # bs \<Longrightarrow>
   \<exists>xs im ys. ims = xs @ im # ys \<and> barriers xs = [] \<and> barrier_of (im_Msg im) = Some b \<and>
     im_InputIndex im = j \<and> barriers ys = bs"
proof (induction ims)
  case (Cons im ims)
  show ?case
  proof (cases "barrier_of (im_Msg im)")
    case None
    with Cons.prems Cons.IH obtain xs im' ys where
      "ims = xs @ im' # ys \<and> barriers xs = [] \<and> barrier_of (im_Msg im') = Some b \<and>
       im_InputIndex im' = j \<and> barriers ys = bs" by auto
    then show ?thesis
      using None by (intro exI [of _ "im # xs"] exI [of _ im'] exI [of _ ys]) simp
  next
    case (Some b')
    with Cons.prems show ?thesis
      by (intro exI [of _ "[]"] exI [of _ im] exI [of _ ims]) simp
  qed
qed simp

text \<open>From an idle aligner to the state before the last barrier.\<close>

lemma align_run_first:
  assumes ok: "aligner_ok ba" "\<not> ba_aligning ba" "1 < ba_numInputs ba"
    and bars: "barriers ims = (j, b) # bs" "distinct (map fst (barriers ims))"
    and idx: "list_all (\<lambda>im. im_InputIndex im < ba_numInputs ba) ims"
    and few: "length (barriers ims) < ba_numInputs ba"
  shows "\<exists>ba'. align_run ims ba = (pre_barrier {} ims, [], ba') \<and> aligner_ok ba' \<and>
    ba_aligning ba' \<and> ba_numInputs ba' = ba_numInputs ba \<and> ba_currentBarrier ba' = Some b \<and>
    ba_buffered ba' = post_barrier {} ims \<and>
    set (map fst (ba_received ba')) = set (map fst (barriers ims)) \<and>
    length (ba_received ba') = length (barriers ims)"
proof -
  from barriers_split [OF bars(1)] obtain xs im ys where
    ims: "ims = xs @ im # ys" and xs: "barriers xs = []" and im: "barrier_of (im_Msg im) = Some b"
    "im_InputIndex im = j" and ys: "barriers ys = bs" by blast
  let ?ba = "ba\<lparr>ba_aligning := True, ba_currentEpoch := bs_Epoch b, ba_currentBarrier := Some b,
     ba_received := [(j, True)], ba_buffered := []\<rparr>"
  have on: "OnMessage im ba = ([], None, ?ba)"
    using ok im by (simp add: OnMessage_def onBarrier_def Let_def)
  have okba: "aligner_ok ?ba"
    using OnMessage_ok [OF ok(1) _ on] idx ims by simp
  obtain ba' where ba': "align_run ys ?ba = (pre_barrier {j} ys, [], ba')" "ba_aligning ba'"
      "ba_numInputs ba' = ba_numInputs ba" "ba_currentBarrier ba' = Some b"
      "ba_buffered ba' = post_barrier {j} ys"
      "set (map fst (ba_received ba')) = insert j (set (map fst bs))"
      "length (ba_received ba') = Suc (length bs)"
    using align_run_pending [OF okba, of ys] ok bars idx few ims ys by auto
  have run: "align_run ims ba = (pre_barrier {} ims, [], ba')"
    using align_run_idle [OF ok(2) xs] on ba'(1) im pre_post_no_barrier [OF xs]
    by (simp add: ims align_run_append pre_barrier_append xs)
  moreover have "aligner_ok ba'"
    using align_run_ok [OF ok(1) idx run] by simp
  ultimately show ?thesis
    using ba' bars(1) im pre_post_no_barrier [OF xs] by (auto simp: ims post_barrier_append xs)
qed

lemma OnMessage_completes:
  assumes "aligner_ok ba" "ba_aligning ba" "1 < ba_numInputs ba"
    and "barrier_of (im_Msg im) = Some b" "im_InputIndex im \<notin> set (map fst (ba_received ba))"
    and "Suc (length (ba_received ba)) = ba_numInputs ba"
  shows "OnMessage im ba = (ba_buffered ba, ba_currentBarrier ba, NewBarrierAligner (ba_numInputs ba))"
  using assms by (simp add: OnMessage_def onBarrier_def Let_def length_update NewBarrierAligner_def)

section \<open>Properties\<close>

text \<open>
  Every state the aligner reaches from a new one, whatever messages arrive on whatever
  inputs of the node, satisfies the alignment invariant: an idle aligner holds no messages and
  no barrier; an aligning one has seen its barrier on at least one input and not on all.
\<close>

theorem aligner_invariant:
  assumes "list_all (\<lambda>im. im_InputIndex im < n) ims" "align_run ims (NewBarrierAligner n) = (out, bars, ba)"
  shows "aligner_ok ba \<and> ba_numInputs ba = n \<and> (n \<le> 1 \<longrightarrow> \<not> IsAligning ba)"
proof -
  have "aligner_ok ba \<and> ba_numInputs ba = n"
    using align_run_ok [OF aligner_ok_new [of n] _ assms(2)] assms(1)
    by (simp add: NewBarrierAligner_def)
  then show ?thesis
    by (auto simp: aligner_ok_def IsAligning_def neq_Nil_conv Suc_le_eq)
qed

theorem aligner_invariant_witness:
  "aligner_ok (snd (snd (align_run
     [\<lparr>im_InputIndex = 1, im_Msg = NewSignalMessage (NewBarrierSignal 0 7 0 False)\<rparr>,
      \<lparr>im_InputIndex = 1, im_Msg = NewDataMessage ''k'' AnyNil 0\<rparr>] (NewBarrierAligner 2 :: int BarrierAligner))))"
proof -
  let ?ims = "[\<lparr>im_InputIndex = 1, im_Msg = NewSignalMessage (NewBarrierSignal 0 7 0 False)\<rparr>,
      \<lparr>im_InputIndex = 1, im_Msg = NewDataMessage ''k'' AnyNil 0\<rparr>] :: int indexedMessage list"
  obtain out bars ba where run: "align_run ?ims (NewBarrierAligner 2) = (out, bars, ba)"
    using prod_cases3 by blast
  show ?thesis
    unfolding run using aligner_invariant [OF _ run] by simp
qed

lemma alignment_round:
  fixes ims :: "'u indexedMessage list"
  assumes "1 < n" "barriers ims = (j, b) # bs" "distinct (map fst (barriers ims))"
    and "list_all (\<lambda>im. im_InputIndex im < n) ims"
    and "barrier_of (im_Msg im) = Some b'" "im_InputIndex im < n"
    and "set (map fst (barriers ims)) = {..<n} - {im_InputIndex im}"
  shows "\<exists>ba. align_run ims (NewBarrierAligner n) = (pre_barrier {} ims, [], ba) \<and>
    OnMessage im ba = (post_barrier {} ims, Some b, NewBarrierAligner n)"
proof -
  let ?new = "NewBarrierAligner n :: 'u BarrierAligner"
  have len: "Suc (length (barriers ims)) = n"
    using distinct_card [OF assms(3)] assms(6,7) by simp
  have new: "aligner_ok ?new" "\<not> ba_aligning ?new" "1 < ba_numInputs ?new" "ba_numInputs ?new = n"
    using assms(1) by (simp_all) (simp_all add: NewBarrierAligner_def)
  have "\<exists>ba'. align_run ims ?new = (pre_barrier {} ims, [], ba') \<and> aligner_ok ba' \<and>
    ba_aligning ba' \<and> ba_numInputs ba' = ba_numInputs ?new \<and> ba_currentBarrier ba' = Some b \<and>
    ba_buffered ba' = post_barrier {} ims \<and>
    set (map fst (ba_received ba')) = set (map fst (barriers ims)) \<and>
    length (ba_received ba') = length (barriers ims)"
    by (rule align_run_first) (use new assms len in auto)
  then obtain ba' where ba': "align_run ims ?new = (pre_barrier {} ims, [], ba')" "aligner_ok ba'"
    "ba_aligning ba'" "ba_numInputs ba' = n" "ba_currentBarrier ba' = Some b"
    "ba_buffered ba' = post_barrier {} ims"
    "set (map fst (ba_received ba')) = set (map fst (barriers ims))"
    "length (ba_received ba') = length (barriers ims)"
    using new(4) by auto
  have last: "OnMessage im ba' = (post_barrier {} ims, Some b, ?new)"
    using OnMessage_completes [OF ba'(2,3)] ba' assms len by auto
  with ba'(1) show ?thesis by blast
qed

text \<open>
  C10. A full alignment round of a node with several inputs: if a trace carries one barrier from
  every input but \<open>i\<close>, starting with \<open>b\<close>, and input \<open>i\<close> then delivers its own, the aligner
  has passed on at once exactly the messages that preceded the barrier of their input, in order
  of arrival; it releases with the last barrier exactly the messages that followed theirs, in
  order of arrival; it reports the first barrier, once; and it is idle again.
\<close>

theorem align_round:
  fixes ims :: "'u indexedMessage list"
  assumes "1 < n" "barriers ims = (j, b) # bs" "distinct (map fst (barriers ims))"
    and "list_all (\<lambda>im. im_InputIndex im < n) ims"
    and "barrier_of (im_Msg im) = Some b'" "im_InputIndex im < n"
    and "set (map fst (barriers ims)) = {..<n} - {im_InputIndex im}"
  shows "\<exists>ba. align_run ims (NewBarrierAligner n) = (pre_barrier {} ims, [], ba) \<and>
    OnMessage im ba = (post_barrier {} ims, Some b, NewBarrierAligner n)"
  using assms by (rule alignment_round)

theorem align_round_witness:
  "\<exists>ba. align_run [\<lparr>im_InputIndex = 0, im_Msg = NewSignalMessage (NewBarrierSignal 0 7 0 False)\<rparr>,
          \<lparr>im_InputIndex = 0, im_Msg = NewDataMessage ''late'' AnyNil 0\<rparr>,
          \<lparr>im_InputIndex = 1, im_Msg = NewDataMessage ''early'' AnyNil 0\<rparr>]
        (NewBarrierAligner 2 :: int BarrierAligner) = ([NewDataMessage ''early'' AnyNil 0], [], ba) \<and>
     OnMessage \<lparr>im_InputIndex = 1, im_Msg = NewSignalMessage (NewBarrierSignal 0 7 0 False)\<rparr> ba =
       ([NewDataMessage ''late'' AnyNil 0],
        Some \<lparr>bs_Epoch = 7, bs_MinEpoch = 0, bs_Timestamp = 0, bs_ThenStop = False\<rparr>, NewBarrierAligner 2)"
proof -
  let ?b = "\<lparr>bs_Epoch = 7, bs_MinEpoch = 0, bs_Timestamp = 0, bs_ThenStop = False\<rparr> :: BarrierSignal"
  let ?ims = "[\<lparr>im_InputIndex = 0, im_Msg = NewSignalMessage (NewBarrierSignal 0 7 0 False)\<rparr>,
          \<lparr>im_InputIndex = 0, im_Msg = NewDataMessage ''late'' AnyNil 0\<rparr>,
          \<lparr>im_InputIndex = 1, im_Msg = NewDataMessage ''early'' AnyNil 0\<rparr>] :: int indexedMessage list"
  let ?im = "\<lparr>im_InputIndex = 1, im_Msg = NewSignalMessage (NewBarrierSignal 0 7 0 False)\<rparr> :: int indexedMessage"
  have bar: "barrier_of (NewSignalMessage (NewBarrierSignal 0 7 0 False) :: int Message) = Some ?b"
    by (simp add: NewBarrierSignal_def)
  have "pre_barrier {} ?ims = [NewDataMessage ''early'' AnyNil 0]"
    "post_barrier {} ?ims = [NewDataMessage ''late'' AnyNil 0]" "barriers ?ims = [(0, ?b)]"
    by (simp_all add: bar)
  moreover have "{..<2::nat} - {1} = {0}"
    by auto
  ultimately show ?thesis
    using align_round [where n = 2 and ims = ?ims and j = 0 and b = ?b and bs = "[]" and im = ?im and b' = ?b]
    by (simp add: bar del: align_run.simps)
qed

end
