(* ===== verification/Watermark.thy ===== *)
theory Watermark
  imports Message
begin

text \<open>
  Watermark tracking, \<open>internal/engine/watermark.go\<close>: the per-input watermarks of a node, the
  loops of \<open>tryAdvance\<close> as folds, and the proof that they compute a minimum (or, with every
  input idle, a maximum) and only ever advance.
\<close>

record inputWatermark =
  iw_eventTime :: time
  iw_idle :: bool
  iw_received :: bool

record WatermarkHolder =
  wh_numInputs :: nat
  wh_perInput :: "inputWatermark list"
  wh_current :: time

definition NewWatermarkHolder :: "int \<Rightarrow> WatermarkHolder" where
  "NewWatermarkHolder numInputs =
     (let n = nat (if numInputs \<le> 0 then 1 else numInputs)
      in \<lparr>wh_numInputs = n,
          wh_perInput = replicate n \<lparr>iw_eventTime = zero_time, iw_idle = False, iw_received = False\<rparr>,
          wh_current = zero_time\<rparr>)"

text \<open>The variables of \<open>tryAdvance\<close> and the bodies of its two loops.\<close>

record advance_vars =
  av_minTime :: time
  av_allIdle :: bool
  av_hasNonIdle :: bool
  av_initialized :: bool

definition min_body :: "inputWatermark \<Rightarrow> advance_vars \<Rightarrow> advance_vars" where
  "min_body iw v =
     (if \<not> iw_received iw then v
      else if \<not> iw_idle iw then
        let v = v\<lparr>av_allIdle := False, av_hasNonIdle := True\<rparr>
        in if \<not> av_initialized v \<or> iw_eventTime iw < av_minTime v
           then v\<lparr>av_minTime := iw_eventTime iw, av_initialized := True\<rparr> else v
      else v)"

definition max_body :: "inputWatermark \<Rightarrow> advance_vars \<Rightarrow> advance_vars" where
  "max_body iw v =
     (if \<not> iw_received iw then v
      else if \<not> av_initialized v \<or> av_minTime v < iw_eventTime iw
           then v\<lparr>av_minTime := iw_eventTime iw, av_initialized := True\<rparr> else v)"

definition tryAdvance :: "WatermarkHolder \<Rightarrow> WatermarkSignal option \<times> WatermarkHolder" where
  "tryAdvance wh =
     (let v = fold min_body (wh_perInput wh)
                \<lparr>av_minTime = zero_time, av_allIdle = True, av_hasNonIdle = False, av_initialized = False\<rparr>
      in if av_allIdle v then
           let v = fold max_body (wh_perInput wh) v
           in if \<not> av_initialized v then (None, wh)
              else if \<not> wh_current wh < av_minTime v then (None, wh)
              else (Some \<lparr>ws_EventTime = av_minTime v, ws_Idle = True\<rparr>,
                    wh\<lparr>wh_current := av_minTime v\<rparr>)
         else if \<not> av_hasNonIdle v \<or> \<not> av_initialized v then (None, wh)
         else if \<not> wh_current wh < av_minTime v then (None, wh)
         else (Some \<lparr>ws_EventTime = av_minTime v, ws_Idle = False\<rparr>, wh\<lparr>wh_current := av_minTime v\<rparr>))"

definition Watermark_Update ::
  "int \<Rightarrow> WatermarkSignal \<Rightarrow> WatermarkHolder \<Rightarrow> WatermarkSignal option \<times> WatermarkHolder" where
  "Watermark_Update inputIndex wm wh =
     (if inputIndex < 0 \<or> inputIndex \<ge> int (wh_numInputs wh) then (None, wh)
      else
        let wh = wh\<lparr>wh_perInput := (wh_perInput wh)[nat inputIndex :=
                   \<lparr>iw_eventTime = ws_EventTime wm, iw_idle = ws_Idle wm, iw_received = True\<rparr>]\<rparr>
        in if wh_numInputs wh = 1 then tryAdvance wh
           else if list_ex (\<lambda>iw. \<not> iw_received iw) (wh_perInput wh) then (None, wh)
           else tryAdvance wh)"

definition Watermark_Current :: "WatermarkHolder \<Rightarrow> time" where
  "Watermark_Current wh = wh_current wh"

section \<open>What the loops compute\<close>

definition holder_ok :: "WatermarkHolder \<Rightarrow> bool" where
  "holder_ok wh \<longleftrightarrow> length (wh_perInput wh) = wh_numInputs wh \<and> 0 < wh_numInputs wh"

text \<open>The event times of the inputs that have reported and are not idle, and of all that have reported.\<close>

definition active_times :: "WatermarkHolder \<Rightarrow> time set" where
  "active_times wh = iw_eventTime ` {iw \<in> set (wh_perInput wh). iw_received iw \<and> \<not> iw_idle iw}"

definition reported_times :: "WatermarkHolder \<Rightarrow> time set" where
  "reported_times wh = iw_eventTime ` {iw \<in> set (wh_perInput wh). iw_received iw}"

lemma finite_times [simp]: "finite (active_times wh)" "finite (reported_times wh)"
  by (simp_all add: active_times_def reported_times_def)

lemma min_fold:
  assumes "av_hasNonIdle v \<longleftrightarrow> \<not> av_allIdle v" "av_initialized v \<longleftrightarrow> \<not> av_allIdle v"
  shows "fold min_body iws v =
    (let ts = iw_eventTime ` {iw \<in> set iws. iw_received iw \<and> \<not> iw_idle iw}
     in if ts = {} then v
        else \<lparr>av_minTime = (if av_initialized v then Min (insert (av_minTime v) ts) else Min ts),
              av_allIdle = False, av_hasNonIdle = True, av_initialized = True\<rparr>)"
  using assms
proof (induction iws arbitrary: v)
  case Nil
  then show ?case by simp
next
  case (Cons iw iws)
  let ?T = "\<lambda>iws. iw_eventTime ` {iw \<in> set iws. iw_received iw \<and> \<not> iw_idle iw}"
  show ?case
  proof (cases "iw_received iw \<and> \<not> iw_idle iw")
    case False
    then have "min_body iw v = v" "?T (iw # iws) = ?T iws"
      by (auto simp: min_body_def)
    then show ?thesis using Cons by (simp only: fold_simps o_apply)
  next
    case True
    let ?v = "min_body iw v"
    have T: "?T (iw # iws) = insert (iw_eventTime iw) (?T iws)"
      using True by auto
    have v: "av_hasNonIdle ?v" "\<not> av_allIdle ?v" "av_initialized ?v"
      "av_minTime ?v = (if av_initialized v then min (av_minTime v) (iw_eventTime iw) else iw_eventTime iw)"
      using True Cons.prems by (auto simp: min_body_def Let_def min_def)
    have eq: "?v = \<lparr>av_minTime = av_minTime ?v, av_allIdle = False, av_hasNonIdle = True, av_initialized = True\<rparr>"
      using v by simp
    have fin: "finite (?T iws)" by simp
    show ?thesis
    proof (cases "?T iws = {}")
      case True
      then show ?thesis
        using Cons.IH [of ?v] v eq unfolding T True Let_def by (simp add: min.commute)
    next
      case False
      then show ?thesis
        using Cons.IH [of ?v] v fin unfolding T Let_def by (auto simp: min.assoc)
    qed
  qed
qed

lemma max_fold:
  "fold max_body iws v =
    (let ts = iw_eventTime ` {iw \<in> set iws. iw_received iw}
     in if ts = {} then v
        else v\<lparr>av_minTime := (if av_initialized v then Max (insert (av_minTime v) ts) else Max ts),
               av_initialized := True\<rparr>)"
proof (induction iws arbitrary: v)
  case Nil
  then show ?case by simp
next
  case (Cons iw iws)
  let ?T = "\<lambda>iws. iw_eventTime ` {iw \<in> set iws. iw_received iw}"
  show ?case
  proof (cases "iw_received iw")
    case False
    then have "max_body iw v = v" "?T (iw # iws) = ?T iws"
      by (auto simp: max_body_def)
    then show ?thesis using Cons by (simp only: fold_simps o_apply)
  next
    case True
    have T: "?T (iw # iws) = insert (iw_eventTime iw) (?T iws)"
      using True by auto
    have v: "max_body iw v = v\<lparr>av_minTime := (if av_initialized v then max (av_minTime v) (iw_eventTime iw)
        else iw_eventTime iw), av_initialized := True\<rparr>"
      using True by (auto simp: max_body_def max_def)
    have fin: "finite (?T iws)" by simp
    show ?thesis
    proof (cases "?T iws = {}")
      case True
      then show ?thesis
        using Cons.IH [of "max_body iw v"] unfolding T True Let_def by (simp add: v max.commute)
    next
      case False
      then show ?thesis
        using Cons.IH [of "max_body iw v"] fin unfolding T Let_def by (auto simp: v max.assoc)
    qed
  qed
qed

text \<open>The candidate for the output watermark: the minimum of the active inputs, or with none active the maximum of the reported ones.\<close>

definition candidate :: "WatermarkHolder \<Rightarrow> (time \<times> bool) option" where
  "candidate wh =
     (if active_times wh \<noteq> {} then Some (Min (active_times wh), False)
      else if reported_times wh \<noteq> {} then Some (Max (reported_times wh), True)
      else None)"

lemma tryAdvance_eq:
  "tryAdvance wh =
     (case candidate wh of
        None \<Rightarrow> (None, wh)
      | Some (t, idle) \<Rightarrow>
          if wh_current wh < t
          then (Some \<lparr>ws_EventTime = t, ws_Idle = idle\<rparr>, wh\<lparr>wh_current := t\<rparr>) else (None, wh))"
  unfolding tryAdvance_def candidate_def
  by (auto simp: min_fold max_fold Let_def active_times_def [symmetric] reported_times_def [symmetric])

lemma Watermark_Update_ok:
  "holder_ok wh \<Longrightarrow> holder_ok (snd (Watermark_Update i wm wh))"
  by (auto simp: Watermark_Update_def Let_def holder_ok_def tryAdvance_eq split: option.splits)

lemma holder_ok_new [simp]: "holder_ok (NewWatermarkHolder n)"
  by (simp add: holder_ok_def NewWatermarkHolder_def Let_def)

text \<open>The holder after the report of one input has been recorded.\<close>

definition record_report :: "nat \<Rightarrow> WatermarkSignal \<Rightarrow> WatermarkHolder \<Rightarrow> WatermarkHolder" where
  "record_report i wm wh = wh\<lparr>wh_perInput := (wh_perInput wh)[i :=
     \<lparr>iw_eventTime = ws_EventTime wm, iw_idle = ws_Idle wm, iw_received = True\<rparr>]\<rparr>"

lemma Watermark_Update_eq:
  assumes "holder_ok wh" "i < wh_numInputs wh"
  shows "Watermark_Update (int i) wm wh =
    (if list_all iw_received (wh_perInput (record_report i wm wh))
     then tryAdvance (record_report i wm wh) else (None, record_report i wm wh))"
proof (cases "wh_numInputs wh = 1")
  case True
  then obtain iw where "wh_perInput wh = [iw]"
    using assms(1) by (auto simp: holder_ok_def length_Suc_conv)
  with True assms show ?thesis
    by (simp add: Watermark_Update_def Let_def record_report_def)
next
  case False
  with assms show ?thesis
    by (auto simp: Watermark_Update_def Let_def record_report_def list_all_iff list_ex_iff)
qed

section \<open>Properties\<close>

text \<open>
  C17. What \<open>Update\<close> answers. It emits a watermark exactly when every input has reported and the
  candidate (the minimum over the inputs that are not idle, or with all inputs idle the maximum
  over all) is later than the watermark emitted last; the emitted time is that candidate, it
  becomes the current watermark, and only the report of the input concerned is changed
  otherwise.
\<close>

theorem Watermark_Update_functional:
  assumes "holder_ok wh" "i < wh_numInputs wh" and wh'_def: "wh' = record_report i wm wh"
  shows "Watermark_Update (int i) wm wh =
    (if list_all iw_received (wh_perInput wh')
     then if active_times wh' \<noteq> {} then
            if wh_current wh < Min (active_times wh')
            then (Some \<lparr>ws_EventTime = Min (active_times wh'), ws_Idle = False\<rparr>,
                  wh'\<lparr>wh_current := Min (active_times wh')\<rparr>)
            else (None, wh')
          else
            if wh_current wh < Max (reported_times wh')
            then (Some \<lparr>ws_EventTime = Max (reported_times wh'), ws_Idle = True\<rparr>,
                  wh'\<lparr>wh_current := Max (reported_times wh')\<rparr>)
            else (None, wh')
     else (None, wh'))"
proof (cases "list_all iw_received (wh_perInput wh')")
  case True
  have cur: "wh_current wh' = wh_current wh"
    by (simp add: wh'_def record_report_def)
  have "wh_perInput wh' \<noteq> []"
    using assms(1) by (auto simp: wh'_def record_report_def holder_ok_def)
  then have "reported_times wh' \<noteq> {}"
    using True by (auto simp: reported_times_def list_all_iff neq_Nil_conv)
  then show ?thesis
    using True Watermark_Update_eq [OF assms(1,2), of wm]
    by (auto simp: wh'_def [symmetric] tryAdvance_eq candidate_def cur)
next
  case False
  then show ?thesis
    using Watermark_Update_eq [OF assms(1,2), of wm] by (auto simp: wh'_def)
qed

text \<open>A node's watermark history: the watermarks emitted for a sequence of reports.\<close>

primrec watermark_run ::
  "(int \<times> WatermarkSignal) list \<Rightarrow> WatermarkHolder \<Rightarrow> WatermarkSignal list \<times> WatermarkHolder" where
  "watermark_run [] wh = ([], wh)"
| "watermark_run (r # rs) wh =
     (case Watermark_Update (fst r) (snd r) wh of (out, wh') \<Rightarrow>
        case watermark_run rs wh' of (outs, wh'') \<Rightarrow>
          ((case out of None \<Rightarrow> outs | Some w \<Rightarrow> w # outs), wh''))"

lemma Watermark_Update_current:
  "Watermark_Update i wm wh = (None, wh') \<Longrightarrow> wh_current wh' = wh_current wh"
  "Watermark_Update i wm wh = (Some w, wh') \<Longrightarrow>
     wh_current wh < ws_EventTime w \<and> wh_current wh' = ws_EventTime w"
  by (auto simp: Watermark_Update_def Let_def tryAdvance_eq split: if_splits option.splits)

lemma watermark_run_current:
  "watermark_run rs wh = (outs, wh') \<Longrightarrow>
   sorted_wrt (<) (wh_current wh # map ws_EventTime outs) \<and>
   wh_current wh' = last (wh_current wh # map ws_EventTime outs)"
proof (induction rs arbitrary: wh outs)
  case (Cons r rs)
  obtain o1 wh1 where 1: "Watermark_Update (fst r) (snd r) wh = (o1, wh1)" by fastforce
  obtain outs2 where 2: "watermark_run rs wh1 = (outs2, wh')"
    "outs = (case o1 of None \<Rightarrow> outs2 | Some w \<Rightarrow> w # outs2)"
    using Cons.prems 1 by (auto split: prod.splits)
  show ?case
  proof (cases o1)
    case None
    then show ?thesis
      using Cons.IH [OF 2(1)] 2(2) 1 Watermark_Update_current(1) by simp
  next
    case (Some w)
    then have "wh_current wh < ws_EventTime w" "wh_current wh1 = ws_EventTime w"
      using 1 Watermark_Update_current(2) by blast+
    then show ?thesis
      using Cons.IH [OF 2(1)] 2(2) Some by (auto dest: less_trans)
  qed
qed simp

theorem Watermark_Update_functional_witness:
  "Watermark_Update 1 \<lparr>ws_EventTime = 7, ws_Idle = False\<rparr>
     (record_report 0 \<lparr>ws_EventTime = 5, ws_Idle = False\<rparr> (NewWatermarkHolder 2))
   = (Some \<lparr>ws_EventTime = 5, ws_Idle = False\<rparr>,
      \<lparr>wh_numInputs = 2,
       wh_perInput = [\<lparr>iw_eventTime = 5, iw_idle = False, iw_received = True\<rparr>,
                      \<lparr>iw_eventTime = 7, iw_idle = False, iw_received = True\<rparr>],
       wh_current = 5\<rparr>)"
proof -
  let ?wm = "\<lparr>ws_EventTime = 7, ws_Idle = False\<rparr> :: WatermarkSignal"
  let ?wh = "record_report 0 \<lparr>ws_EventTime = 5, ws_Idle = False\<rparr> (NewWatermarkHolder 2)"
  have wh: "?wh = \<lparr>wh_numInputs = 2,
       wh_perInput = [\<lparr>iw_eventTime = 5, iw_idle = False, iw_received = True\<rparr>,
                      \<lparr>iw_eventTime = zero_time, iw_idle = False, iw_received = False\<rparr>],
       wh_current = zero_time\<rparr>"
    by (simp add: record_report_def NewWatermarkHolder_def Let_def numeral_2_eq_2)
  have wh': "record_report 1 ?wm ?wh = \<lparr>wh_numInputs = 2,
       wh_perInput = [\<lparr>iw_eventTime = 5, iw_idle = False, iw_received = True\<rparr>,
                      \<lparr>iw_eventTime = 7, iw_idle = False, iw_received = True\<rparr>],
       wh_current = zero_time\<rparr>"
    unfolding wh by (simp add: record_report_def)
  have "active_times (record_report 1 ?wm ?wh) = {5, 7}"
  proof -
    have "{iw \<in> set (wh_perInput (record_report 1 ?wm ?wh)). iw_received iw \<and> \<not> iw_idle iw} =
      set (wh_perInput (record_report 1 ?wm ?wh))"
      unfolding wh' by auto
    then show ?thesis
      unfolding active_times_def wh' by simp
  qed
  moreover have "holder_ok ?wh" "1 < wh_numInputs ?wh" "wh_current ?wh = zero_time"
    unfolding wh by (simp_all add: holder_ok_def)
  moreover have "list_all iw_received (wh_perInput (record_report 1 ?wm ?wh))"
    unfolding wh' by simp
  ultimately show ?thesis
    using Watermark_Update_functional [of ?wh 1 "record_report 1 ?wm ?wh" ?wm] wh'
    by (simp add: zero_time_def)
qed

text \<open>
  Event time never goes back: over any sequence of reports the emitted watermarks increase
  strictly, all of them after the zero time a holder starts from, and \<open>Current\<close> is the last one.
\<close>

theorem watermarks_monotone:
  "case watermark_run rs (NewWatermarkHolder n) of (outs, wh) \<Rightarrow>
     sorted_wrt (<) (zero_time # map ws_EventTime outs) \<and>
     Watermark_Current wh = last (zero_time # map ws_EventTime outs)"
  using watermark_run_current [of rs "NewWatermarkHolder n"]
  by (auto simp: NewWatermarkHolder_def Let_def Watermark_Current_def split: prod.splits)

text \<open>
  Idle reports made by \<open>NewIdleWatermarkSignal\<close> carry the zero time and overwrite the last
  event time of their input: once every input is idle through such reports, the maximum over the
  inputs is the zero time, and the output watermark does not advance, whatever the inputs had
  reported before.
\<close>

theorem all_idle_never_advances:
  assumes "holder_ok wh" "i < wh_numInputs wh" "zero_time \<le> wh_current wh"
    and "list_all (\<lambda>j. j = i \<or> wh_perInput wh ! j =
           \<lparr>iw_eventTime = zero_time, iw_idle = True, iw_received = True\<rparr>) [0..<wh_numInputs wh]"
    and "sm_Watermark NewIdleWatermarkSignal = Some wm"
  shows "fst (Watermark_Update (int i) wm wh) = None"
proof -
  let ?idle = "\<lparr>iw_eventTime = zero_time, iw_idle = True, iw_received = True\<rparr>"
  let ?wh = "record_report i wm wh"
  have wm: "wm = \<lparr>ws_EventTime = zero_time, ws_Idle = True\<rparr>"
    using assms(5) by (simp add: NewIdleWatermarkSignal_def)
  have "wh_perInput ?wh ! j = ?idle" if "j < length (wh_perInput ?wh)" for j
    using that assms(1,2,4)
    by (auto simp: record_report_def wm holder_ok_def list_all_iff nth_list_update)
  then have "set (wh_perInput ?wh) \<subseteq> {?idle}"
    by (auto simp: in_set_conv_nth)
  then have "active_times ?wh = {}" "reported_times ?wh \<subseteq> {zero_time}"
    by (auto simp: active_times_def reported_times_def)
  then have "candidate ?wh = None \<or> candidate ?wh = Some (zero_time, True)"
    by (auto simp: candidate_def subset_singleton_iff)
  moreover have "wh_current ?wh = wh_current wh"
    by (simp add: record_report_def)
  ultimately show ?thesis
    using Watermark_Update_eq [OF assms(1,2)] assms(3) by (auto simp: tryAdvance_eq)
qed

theorem all_idle_never_advances_witness:
  "fst (Watermark_Update 0 \<lparr>ws_EventTime = zero_time, ws_Idle = True\<rparr>
     \<lparr>wh_numInputs = 2,
      wh_perInput = [\<lparr>iw_eventTime = 50, iw_idle = False, iw_received = True\<rparr>,
                     \<lparr>iw_eventTime = zero_time, iw_idle = True, iw_received = True\<rparr>],
      wh_current = 40\<rparr>) = None"
  using all_idle_never_advances [where i = 0 and wm = "\<lparr>ws_EventTime = zero_time, ws_Idle = True\<rparr>" and
    wh = "\<lparr>wh_numInputs = 2,
      wh_perInput = [\<lparr>iw_eventTime = 50, iw_idle = False, iw_received = True\<rparr>,
                     \<lparr>iw_eventTime = zero_time, iw_idle = True, iw_received = True\<rparr>],
      wh_current = 40\<rparr>"]
  by (simp add: holder_ok_def NewIdleWatermarkSignal_def zero_time_def upt_rec)

end
