(* ===== verification/Runtime.thy ===== *)
theory Runtime
  imports Timed_Operators Barrier_Aligner Watermark
begin

text \<open>
  The handlers of a node's runtime, \<open>internal/engine/runtime.go\<close>, and the \<open>Node\<close> interface of
  \<open>internal/engine/node.go\<close>: what a node does with a data message, a watermark, an aligned barrier,
  a stop signal, an expired timer and a control message. The loop that selects among them is in
  \<open>Run_Loop\<close>. Sends to the completion and stop channels wait until the controller takes the report;
  the channel is the list of the reports made. \<open>None\<close> is a panic.
\<close>

section \<open>Nodes\<close>

text \<open>The two implementations of the \<open>Node\<close> interface and the dispatch of its methods.\<close>

datatype ('s, 'u) Node = OpNode "('s, 'u) OperatorNode" | SrcNode "'u SourceNode"

primrec Node_ID :: "('s, 'u) Node \<Rightarrow> string" where
  "Node_ID (OpNode n) = on_id n"
| "Node_ID (SrcNode n) = sn_id n"

type_synonym ('s, 'u) Node_result = "(('s, 'u) Node \<times> 'u World \<times> error option) option"

definition as_OpNode :: "('s, 'u) node_result \<Rightarrow> ('s, 'u) Node_result" where
  "as_OpNode r = map_option (\<lambda>(n, w, err). (OpNode n, w, err)) r"

primrec Node_ProcessMessage :: "'u DataMessage \<Rightarrow> ('s, 'u) Node \<Rightarrow> 'u World \<Rightarrow> ('s, 'u) Node_result" where
  "Node_ProcessMessage msg (OpNode n) w = as_OpNode (OperatorNode_ProcessMessage msg n w)"
| "Node_ProcessMessage msg (SrcNode n) w = Some (SrcNode n, w, None)"

primrec Node_HandleWatermark :: "WatermarkSignal \<Rightarrow> ('s, 'u) Node \<Rightarrow> 'u World \<Rightarrow> ('s, 'u) Node_result" where
  "Node_HandleWatermark wm (OpNode n) w = as_OpNode (OperatorNode_HandleWatermark wm n w)"
| "Node_HandleWatermark wm (SrcNode n) w = Some (SrcNode n, w, None)"

primrec Node_HandleCheckpoint ::
  "BarrierSignal \<Rightarrow> ('s, 'u) Node \<Rightarrow> 'u World \<Rightarrow> ('s, 'u) Node \<times> (error + bytes)" where
  "Node_HandleCheckpoint barrier (OpNode n) w =
     (case OperatorNode_HandleCheckpoint barrier n w of (n, r) \<Rightarrow> (OpNode n, r))"
| "Node_HandleCheckpoint barrier (SrcNode n) w = (SrcNode n, SourceNode_HandleCheckpoint barrier n)"

text \<open>Only an \<open>OperatorNode\<close> is a \<open>TimerHandler\<close>, a \<open>TickHandler\<close> and has a timer manager.\<close>

primrec Node_HandleTimer :: "string \<Rightarrow> time \<Rightarrow> ('s, 'u) Node \<Rightarrow> 'u World \<Rightarrow> ('s, 'u) Node_result" where
  "Node_HandleTimer name fireAt (OpNode n) w = as_OpNode (OperatorNode_HandleTimer name fireAt n w)"
| "Node_HandleTimer name fireAt (SrcNode n) w = Some (SrcNode n, w, None)"

primrec Node_HandleTick :: "('s, 'u) Node \<Rightarrow> 'u World \<Rightarrow> ('s, 'u) Node_result" where
  "Node_HandleTick (OpNode n) w = as_OpNode (OperatorNode_HandleTick n w)"
| "Node_HandleTick (SrcNode n) w = Some (SrcNode n, w, None)"

primrec getTimerManager :: "('s, 'u) Node \<Rightarrow> 'u World \<Rightarrow> timerManager option" where
  "getTimerManager (OpNode n) w = (if on_timerMgr n then w_timers w else None)"
| "getTimerManager (SrcNode n) w = None"

section \<open>The runtime\<close>

text \<open>
  \<open>nr_cancel\<close> is nil before \<open>Start\<close>; afterwards it tells whether the runtime's context is cancelled.
  Buffers are numbers; \<open>nr_merged\<close> is nil for a node without inputs.
\<close>

record ('s, 'u) NodeRuntime =
  nr_node :: "('s, 'u) Node"
  nr_nodeType :: NodeType
  nr_inputs :: "nat list"
  nr_outputs :: "nat list"
  nr_controlCh :: "ControlMessage list"
  nr_controlCap :: nat
  nr_tickInterval :: duration
  nr_merged :: "'u indexedMessage list option"
  nr_aligner :: "'u BarrierAligner"
  nr_watermarks :: WatermarkHolder
  nr_activeInputs :: int
  nr_paused :: bool
  nr_completionCh :: "NodeCompletion list option"
  nr_stoppedCh :: "NodeStopped list option"
  nr_onError :: "'u errorHandler option"
  nr_cancel :: "bool option"
  nr_done :: bool
  nr_err :: "error option"

record ('s, 'u) NodeRuntimeConfig =
  cfg_Node :: "('s, 'u) Node"
  cfg_NodeType :: NodeType
  cfg_Inputs :: "nat list"
  cfg_Outputs :: "nat list"
  cfg_TickInterval :: duration
  cfg_ControlBufferSize :: int
  cfg_CompletionCh :: "NodeCompletion list option"
  cfg_StoppedCh :: "NodeStopped list option"
  cfg_OnError :: "'u errorHandler option"

definition NewNodeRuntime :: "('s, 'u) NodeRuntimeConfig \<Rightarrow> ('s, 'u) NodeRuntime" where
  "NewNodeRuntime cfg =
     (let ctrlSize = (if cfg_ControlBufferSize cfg \<le> 0 then 16 else cfg_ControlBufferSize cfg);
          numInputs = (if length (cfg_Inputs cfg) = 0 then 1 else length (cfg_Inputs cfg))
      in \<lparr>nr_node = cfg_Node cfg, nr_nodeType = cfg_NodeType cfg,
          nr_inputs = cfg_Inputs cfg, nr_outputs = cfg_Outputs cfg,
          nr_controlCh = [], nr_controlCap = nat ctrlSize,
          nr_tickInterval = cfg_TickInterval cfg, nr_merged = Some [],
          nr_aligner = NewBarrierAligner (length (cfg_Inputs cfg)),
          nr_watermarks = NewWatermarkHolder (int (length (cfg_Inputs cfg))),
          nr_activeInputs = int numInputs, nr_paused = False,
          nr_completionCh = cfg_CompletionCh cfg, nr_stoppedCh = cfg_StoppedCh cfg,
          nr_onError = cfg_OnError cfg, nr_cancel = None, nr_done = False, nr_err = None\<rparr>)"

definition Runtime_Stop :: "('s, 'u) NodeRuntime \<Rightarrow> ('s, 'u) NodeRuntime" where
  "Runtime_Stop nr = nr\<lparr>nr_cancel := map_option (\<lambda>_. True) (nr_cancel nr)\<rparr>"

text \<open>
  \<open>Start\<close> derives the runtime's context from its argument and gives a node without inputs a nil
  channel. The merger goroutines that it starts are in \<open>Run_Loop\<close>.
\<close>

definition Runtime_Start :: "bool \<Rightarrow> ('s, 'u) NodeRuntime \<Rightarrow> ('s, 'u) NodeRuntime" where
  "Runtime_Start parent_cancelled nr =
     (let nr = nr\<lparr>nr_cancel := Some parent_cancelled\<rparr>
      in if 0 < length (nr_inputs nr) then nr else nr\<lparr>nr_merged := None\<rparr>)"

text \<open>\<open>SendControl\<close> waits while the channel is full and the context is alive; with both ready, \<open>pick\<close> decides.\<close>

datatype ('s, 'u) control_outcome = ControlSent "('s, 'u) NodeRuntime" | ControlErr error | ControlBlocks

definition SendControl ::
  "bool \<Rightarrow> error option \<Rightarrow> ControlMessage \<Rightarrow> ('s, 'u) NodeRuntime \<Rightarrow> ('s, 'u) control_outcome" where
  "SendControl pick ctx msg nr =
     (let sent = ControlSent (nr\<lparr>nr_controlCh := nr_controlCh nr @ [msg]\<rparr>);
          room = length (nr_controlCh nr) < nr_controlCap nr
      in case ctx of
           None \<Rightarrow> if room then sent else ControlBlocks
         | Some err \<Rightarrow> if room \<and> pick then sent else ControlErr err)"

definition runtimeEmitter_Emit :: "nat list \<Rightarrow> 'u Message \<Rightarrow> 'u World \<Rightarrow> 'u World \<times> error option" where
  "runtimeEmitter_Emit outputs msg w = broadcast Send outputs msg w"

section \<open>Handlers\<close>

type_synonym ('s, 'u) rt_result = "(('s, 'u) NodeRuntime \<times> 'u World \<times> error option) option"

definition with_node :: "('s, 'u) NodeRuntime \<Rightarrow> ('s, 'u) Node_result \<Rightarrow> ('s, 'u) rt_result" where
  "with_node nr r = map_option (\<lambda>(n, w, err). (nr\<lparr>nr_node := n\<rparr>, w, err)) r"

definition report_completion :: "NodeCompletion \<Rightarrow> ('s, 'u) NodeRuntime \<Rightarrow> ('s, 'u) NodeRuntime" where
  "report_completion c nr = nr\<lparr>nr_completionCh := map_option (\<lambda>cs. cs @ [c]) (nr_completionCh nr)\<rparr>"

definition barrier_message :: "BarrierSignal \<Rightarrow> 'u Message" where
  "barrier_message barrier =
     NewSignalMessage \<lparr>sm_SignalType = SignalTypeBarrier, sm_Barrier = Some barrier, sm_Watermark = None\<rparr>"

definition watermark_message :: "WatermarkSignal \<Rightarrow> 'u Message" where
  "watermark_message wm =
     NewSignalMessage \<lparr>sm_SignalType = SignalTypeWatermark, sm_Barrier = None, sm_Watermark = Some wm\<rparr>"

definition handleAlignedBarrier ::
  "BarrierSignal \<Rightarrow> ('s, 'u) NodeRuntime \<Rightarrow> 'u World \<Rightarrow> ('s, 'u) NodeRuntime \<times> 'u World \<times> error option" where
  "handleAlignedBarrier barrier nr w =
     (case Node_HandleCheckpoint barrier (nr_node nr) w of
        (n, Inl err) \<Rightarrow> (nr\<lparr>nr_node := n\<rparr>, w, Some err)
      | (n, Inr state) \<Rightarrow>
          let nr = nr\<lparr>nr_node := n\<rparr>
          in case broadcast Send (nr_outputs nr) (barrier_message barrier) w of
               (w, Some err) \<Rightarrow> (nr, w, Some err)
             | (w, None) \<Rightarrow>
                 let nr = report_completion
                            \<lparr>nc_NodeID = Node_ID n, nc_Epoch = bs_Epoch barrier, nc_State = state\<rparr> nr;
                     nr = (if bs_ThenStop barrier then Runtime_Stop nr else nr)
                 in (nr, w, None))"

definition handleIndexedWatermark ::
  "nat \<Rightarrow> WatermarkSignal \<Rightarrow> ('s, 'u) NodeRuntime \<Rightarrow> 'u World \<Rightarrow> ('s, 'u) rt_result" where
  "handleIndexedWatermark inputIndex wm nr w =
     (case Watermark_Update (int inputIndex) wm (nr_watermarks nr) of
        (None, wh) \<Rightarrow> Some (nr\<lparr>nr_watermarks := wh\<rparr>, w, None)
      | (Some advanced, wh) \<Rightarrow>
          let nr = nr\<lparr>nr_watermarks := wh\<rparr>
          in case with_node nr (Node_HandleWatermark advanced (nr_node nr) w) of
               None \<Rightarrow> None
             | Some (nr, w, Some err) \<Rightarrow> Some (nr, w, Some err)
             | Some (nr, w, None) \<Rightarrow>
                 (case broadcast Send (nr_outputs nr) (watermark_message advanced) w of
                    (w, err) \<Rightarrow> Some (nr, w, err)))"

text \<open>The state of a drained operator and what it sent are kept also when \<open>Drain\<close> reports an error.\<close>

definition drainIfDrainable ::
  "('s, 'u) NodeRuntime \<Rightarrow> 'u World \<Rightarrow> ('s, 'u) NodeRuntime \<times> 'u World" where
  "drainIfDrainable nr w =
     (case nr_node nr of
        SrcNode _ \<Rightarrow> (nr, w)
      | OpNode n \<Rightarrow>
          (case op_Drain (on_operator n) of
             None \<Rightarrow> (nr, w)
           | Some drain \<Rightarrow>
               (case drain (on_state n) w of
                  (s, w, err) \<Rightarrow>
                    let nr = nr\<lparr>nr_node := OpNode (n\<lparr>on_state := s\<rparr>)\<rparr>
                    in (if err = None then nr else nr\<lparr>nr_err := err\<rparr>, w))))"

definition handleSignal ::
  "'u Message \<Rightarrow> SignalMessage \<Rightarrow> ('s, 'u) NodeRuntime \<Rightarrow> 'u World \<Rightarrow> ('s, 'u) NodeRuntime \<times> 'u World \<times> error option" where
  "handleSignal msg sig nr w =
     (case sm_SignalType sig of
        SignalTypeBarrier \<Rightarrow>
          (case sm_Barrier sig of Some barrier \<Rightarrow> handleAlignedBarrier barrier nr w | None \<Rightarrow> (nr, w, None))
      | SignalTypeWatermark \<Rightarrow> (nr, w, None)
      | SignalTypeStop \<Rightarrow>
          let nr = nr\<lparr>nr_activeInputs := nr_activeInputs nr - 1\<rparr>
          in if nr_activeInputs nr \<le> 0 then
               (case drainIfDrainable nr w of
                  (nr, w) \<Rightarrow>
                    (case broadcast Send (nr_outputs nr) msg w of
                       (w, Some err) \<Rightarrow> (nr, w, Some err)
                     | (w, None) \<Rightarrow> (Runtime_Stop nr, w, None)))
             else (nr, w, None))"

definition handleMessage :: "'u Message \<Rightarrow> ('s, 'u) NodeRuntime \<Rightarrow> 'u World \<Rightarrow> ('s, 'u) rt_result" where
  "handleMessage msg nr w =
     (if IsData msg then
        (case m_Data msg of
           None \<Rightarrow> None
         | Some d \<Rightarrow>
             (case with_node nr (Node_ProcessMessage d (nr_node nr) w) of
                None \<Rightarrow> None
              | Some (nr, w, None) \<Rightarrow> Some (nr, w, None)
              | Some (nr, w, Some err) \<Rightarrow>
                  (case nr_onError nr of
                     None \<Rightarrow> Some (nr, w, Some err)
                   | Some h \<Rightarrow> map_option (\<lambda>(w, err). (nr, w, err)) (h (Node_ID (nr_node nr)) d err w))))
      else case (if IsSignal msg then m_Signal msg else None) of
             Some sig \<Rightarrow> Some (handleSignal msg sig nr w)
           | None \<Rightarrow> Some (nr, w, None))"

primrec process_released :: "'u Message list \<Rightarrow> ('s, 'u) NodeRuntime \<Rightarrow> 'u World \<Rightarrow> ('s, 'u) rt_result" where
  "process_released [] nr w = Some (nr, w, None)"
| "process_released (msg # msgs) nr w =
     (case handleMessage msg nr w of
        None \<Rightarrow> None
      | Some (nr, w, Some err) \<Rightarrow> Some (nr, w, Some err)
      | Some (nr, w, None) \<Rightarrow> process_released msgs nr w)"

definition handleIndexedMessage ::
  "'u indexedMessage \<Rightarrow> ('s, 'u) NodeRuntime \<Rightarrow> 'u World \<Rightarrow> ('s, 'u) rt_result" where
  "handleIndexedMessage im nr w =
     (case watermark_of (im_Msg im) of
        Some wm \<Rightarrow> handleIndexedWatermark (im_InputIndex im) wm nr w
      | None \<Rightarrow>
          (case OnMessage im (nr_aligner nr) of
             (toProcess, alignedBarrier, ba) \<Rightarrow>
               (case process_released toProcess (nr\<lparr>nr_aligner := ba\<rparr>) w of
                  None \<Rightarrow> None
                | Some (nr, w, Some err) \<Rightarrow> Some (nr, w, Some err)
                | Some (nr, w, None) \<Rightarrow>
                    (case alignedBarrier of
                       None \<Rightarrow> Some (nr, w, None)
                     | Some barrier \<Rightarrow> Some (handleAlignedBarrier barrier nr w)))))"

primrec handle_timers :: "timerEntry list \<Rightarrow> ('s, 'u) NodeRuntime \<Rightarrow> 'u World \<Rightarrow> ('s, 'u) rt_result" where
  "handle_timers [] nr w = Some (nr, w, None)"
| "handle_timers (entry # expired) nr w =
     (case with_node nr (Node_HandleTimer (te_Name entry) (te_FireAt entry) (nr_node nr) w) of
        None \<Rightarrow> None
      | Some (nr, w, Some err) \<Rightarrow> Some (nr, w, Some err)
      | Some (nr, w, None) \<Rightarrow> handle_timers expired nr w)"

definition fireExpiredTimers :: "timerManager \<Rightarrow> ('s, 'u) NodeRuntime \<Rightarrow> 'u World \<Rightarrow> ('s, 'u) rt_result" where
  "fireExpiredTimers tmr nr w =
     (case Now w of (now, w) \<Rightarrow>
        (case timer_PopExpired now tmr of
           (expired, tmr) \<Rightarrow> handle_timers expired nr (w\<lparr>w_timers := Some tmr\<rparr>)))"

text \<open>The sends of \<open>handleControl\<close> ignore errors; so does its snapshot, whose value is then nil.\<close>

definition send_ignoring :: "'u Message \<Rightarrow> nat list \<Rightarrow> 'u World \<Rightarrow> 'u World" where
  "send_ignoring msg outs w = fold (\<lambda>out w. fst (Send out msg w)) outs w"

definition handleControl ::
  "ControlMessage \<Rightarrow> ('s, 'u) NodeRuntime \<Rightarrow> 'u World \<Rightarrow> ('s, 'u) NodeRuntime \<times> 'u World" where
  "handleControl ctrl nr w =
     (case cm_Type ctrl of
        ControlTypeCheckpointRequest \<Rightarrow>
          (case cm_Checkpoint ctrl of
             None \<Rightarrow> (nr, w)
           | Some req \<Rightarrow>
               (case Now w of (now, w) \<Rightarrow>
                  let barrier = NewBarrierSignal now (cr_Epoch req) (cr_MinEpoch req) (cr_ThenStop req);
                      msg = NewSignalMessage barrier
                  in case Node_HandleCheckpoint (the (sm_Barrier barrier)) (nr_node nr) w of
                       (n, r) \<Rightarrow>
                         let state = (case r of Inl _ \<Rightarrow> [] | Inr state \<Rightarrow> state);
                             nr = nr\<lparr>nr_node := n\<rparr>;
                             w = send_ignoring msg (nr_outputs nr) w;
                             nr = report_completion
                                    \<lparr>nc_NodeID = Node_ID n, nc_Epoch = cr_Epoch req, nc_State = state\<rparr> nr
                         in (if cr_ThenStop req then Runtime_Stop nr else nr, w)))
      | ControlTypePause \<Rightarrow> (nr\<lparr>nr_paused := True\<rparr>, w)
      | ControlTypeResume \<Rightarrow> (nr\<lparr>nr_paused := False\<rparr>, w)
      | ControlTypeTerminate \<Rightarrow> (nr, w))"

definition isPaused :: "('s, 'u) NodeRuntime \<Rightarrow> bool" where
  "isPaused nr = nr_paused nr"

section \<open>Alignment and the other state of a runtime\<close>

text \<open>Only \<open>handleIndexedMessage\<close> looks at the aligner: the other handlers commute with replacing it.\<close>

definition set_aligner :: "'u BarrierAligner \<Rightarrow> ('s, 'u) rt_result \<Rightarrow> ('s, 'u) rt_result" where
  "set_aligner a r = map_option (\<lambda>(nr, w, err). (nr\<lparr>nr_aligner := a\<rparr>, w, err)) r"

lemma set_aligner_simps [simp]:
  "set_aligner a None = None"
  "set_aligner a (Some (nr, w, err)) = Some (nr\<lparr>nr_aligner := a\<rparr>, w, err)"
  "set_aligner a (set_aligner b r) = set_aligner a r"
  by (cases r; auto simp: set_aligner_def)+

lemma handleAlignedBarrier_aligner:
  "Some (handleAlignedBarrier b (nr\<lparr>nr_aligner := a\<rparr>) w) = set_aligner a (Some (handleAlignedBarrier b nr w))"
  by (simp add: handleAlignedBarrier_def report_completion_def Runtime_Stop_def Let_def
      split: prod.splits sum.splits option.splits)

lemma drain_aligner:
  "drainIfDrainable (nr\<lparr>nr_aligner := a\<rparr>) w = apfst (\<lambda>nr. nr\<lparr>nr_aligner := a\<rparr>) (drainIfDrainable nr w)"
  by (simp add: drainIfDrainable_def Let_def split: prod.splits option.splits Node.splits)

lemma handleSignal_aligner:
  "Some (handleSignal msg sig (nr\<lparr>nr_aligner := a\<rparr>) w) = set_aligner a (Some (handleSignal msg sig nr w))"
proof (cases "sm_SignalType sig")
  case SignalTypeBarrier
  then show ?thesis
    by (cases "sm_Barrier sig") (simp_all add: handleSignal_def handleAlignedBarrier_aligner)
next
  case SignalTypeStop
  let ?nr = "nr\<lparr>nr_activeInputs := nr_activeInputs nr - 1\<rparr>"
  obtain nr' w' where dr: "drainIfDrainable ?nr w = (nr', w')"
    by fastforce
  have eq: "nr\<lparr>nr_aligner := a, nr_activeInputs := nr_activeInputs nr - 1\<rparr> = ?nr\<lparr>nr_aligner := a\<rparr>" by simp
  have "drainIfDrainable (nr\<lparr>nr_aligner := a, nr_activeInputs := nr_activeInputs nr - 1\<rparr>) w = (nr'\<lparr>nr_aligner := a\<rparr>, w')"
    unfolding eq drain_aligner dr by simp
  with dr SignalTypeStop show ?thesis
    by (simp add: handleSignal_def Runtime_Stop_def Let_def split: prod.splits option.splits)
qed (simp add: handleSignal_def)

lemma node_aligner_commute: "nr\<lparr>nr_aligner := a, nr_node := n\<rparr> = nr\<lparr>nr_node := n, nr_aligner := a\<rparr>"
  by simp

lemma handleMessage_aligner:
  "handleMessage msg (nr\<lparr>nr_aligner := a\<rparr>) w = set_aligner a (handleMessage msg nr w)"
proof (cases "IsData msg")
  case True
  then show ?thesis
    by (simp add: handleMessage_def with_node_def option.map_comp set_aligner_def comp_def case_prod_beta
        node_aligner_commute         split: option.splits prod.splits)
next
  case False
  then show ?thesis
    by (simp add: handleMessage_def handleSignal_aligner split: option.splits)
qed

lemma process_released_aligner:
  "process_released msgs (nr\<lparr>nr_aligner := a\<rparr>) w = set_aligner a (process_released msgs nr w)"
  by (induction msgs arbitrary: nr w) (simp_all add: handleMessage_aligner split: option.splits prod.splits)

section \<open>A checkpoint round through a node\<close>

text \<open>A trace of messages received by the runtime, up to the first error.\<close>

primrec handle_all :: "'u indexedMessage list \<Rightarrow> ('s, 'u) NodeRuntime \<Rightarrow> 'u World \<Rightarrow> ('s, 'u) rt_result" where
  "handle_all [] nr w = Some (nr, w, None)"
| "handle_all (im # ims) nr w =
     (case handleIndexedMessage im nr w of
        None \<Rightarrow> None
      | Some (nr, w, Some err) \<Rightarrow> Some (nr, w, Some err)
      | Some (nr, w, None) \<Rightarrow> handle_all ims nr w)"

text \<open>Continue with \<open>f\<close> unless there was an error or a panic.\<close>

definition and_then ::
  "('s, 'u) rt_result \<Rightarrow> (('s, 'u) NodeRuntime \<Rightarrow> 'u World \<Rightarrow> ('s, 'u) rt_result) \<Rightarrow> ('s, 'u) rt_result" where
  "and_then r f =
     (case r of
        None \<Rightarrow> None
      | Some (nr, w, Some err) \<Rightarrow> Some (nr, w, Some err)
      | Some (nr, w, None) \<Rightarrow> f nr w)"

lemma and_then_simps [simp]:
  "and_then None f = None"
  "and_then (Some (nr, w, None)) f = f nr w"
  "and_then (Some (nr, w, Some err)) f = Some (nr, w, Some err)"
  by (simp_all add: and_then_def)

lemma and_then_assoc: "and_then (and_then r f) g = and_then r (\<lambda>nr w. and_then (f nr w) g)"
  by (auto simp: and_then_def split: option.splits)

lemma and_then_return [simp]: "and_then r (\<lambda>nr w. Some (nr, w, None)) = r"
  by (auto simp: and_then_def split: option.splits)

lemma process_released_append:
  "process_released (xs @ ys) nr w = and_then (process_released xs nr w) (process_released ys)"
  by (induction xs arbitrary: nr w) (auto simp: and_then_def split: option.splits)

lemma handle_all_append:
  "handle_all (xs @ ys) nr w = and_then (handle_all xs nr w) (handle_all ys)"
  by (induction xs arbitrary: nr w) (auto simp: and_then_def split: option.splits)

lemma handle_all_Cons: "handle_all (im # ims) nr w = and_then (handleIndexedMessage im nr w) (handle_all ims)"
  by (auto simp: and_then_def split: option.splits)

declare handle_all.simps(2) [simp del]

lemma handle_all_Nil: "handle_all [] = (\<lambda>nr w. Some (nr, w, None))"
  by (intro ext) simp

lemma handle_all_single [simp]: "handle_all [im] nr w = handleIndexedMessage im nr w"
  by (simp add: handle_all_Cons handle_all_Nil)

lemma set_aligner_SomeD:
  "set_aligner a r = Some (nr, w, err) \<Longrightarrow> \<exists>nr'. r = Some (nr', w, err) \<and> nr_completionCh nr' = nr_completionCh nr"
  by (auto simp: set_aligner_def)

lemma set_aligner_and_then:
  assumes "\<And>nr w. f (nr\<lparr>nr_aligner := a\<rparr>) w = set_aligner a (f nr w)"
  shows "set_aligner a (and_then r f) = and_then (set_aligner a r) f"
  using assms by (auto simp: and_then_def split: option.splits)

lemma handleIndexed_no_barrier:
  assumes "watermark_of (im_Msg im) = None" "OnMessage im (nr_aligner nr) = (out, None, ba)"
  shows "handleIndexedMessage im nr w = set_aligner ba (process_released out nr w)"
  using assms process_released_aligner [of out ba nr w]
  by (auto simp: handleIndexedMessage_def split: option.splits)

text \<open>
  Without watermarks, what a trace does to a node while no alignment completes is what the messages
  released by the aligner do, in the order of their release.
\<close>

lemma handle_all_released:
  fixes nr :: "('s, 'u) NodeRuntime"
  assumes "list_all (\<lambda>im. watermark_of (im_Msg im) = None) ims"
    and "align_run ims (nr_aligner nr) = (out, [], ba)"
  shows "set_aligner ba (handle_all ims nr w) = set_aligner ba (process_released out nr w) \<and>
    (\<forall>nr' w'. handle_all ims nr w = Some (nr', w', None) \<longrightarrow> nr_aligner nr' = ba)"
  using assms
proof (induction ims arbitrary: nr w out)
  case (Cons im ims)
  obtain o1 a1 ba1 where 1: "OnMessage im (nr_aligner nr) = (o1, a1, ba1)" by (metis prod_cases3)
  obtain o2 bs2 ba2 where 2: "align_run ims ba1 = (o2, bs2, ba2)" by (metis prod_cases3)
  have eq: "a1 = None" "out = o1 @ o2" "align_run ims ba1 = (o2, [], ba)"
    using Cons.prems(2) 1 2 by (auto split: option.splits)
  have IH: "nr_aligner nr' = ba1 \<Longrightarrow> set_aligner ba (handle_all ims nr' w') = set_aligner ba (process_released o2 nr' w') \<and>
      (\<forall>nr'' w''. handle_all ims nr' w' = Some (nr'', w'', None) \<longrightarrow> nr_aligner nr'' = ba)"
    for nr' :: "('s, 'u) NodeRuntime" and w'
    using Cons.IH [of nr' o2 w'] Cons.prems(1) eq(3) by simp
  have step: "handleIndexedMessage im nr w = set_aligner ba1 (process_released o1 nr w)"
    using handleIndexed_no_barrier [of im nr o1 ba1 w] Cons.prems(1) 1 eq(1) by simp
  consider "process_released o1 nr w = None" | nr' w' err where "process_released o1 nr w = Some (nr', w', Some err)"
    | nr' w' where "process_released o1 nr w = Some (nr', w', None)"
    by (metis option.exhaust prod_cases3)
  then show ?case
  proof cases
    case 3
    have "set_aligner ba (process_released o2 (nr'\<lparr>nr_aligner := ba1\<rparr>) w') = set_aligner ba (process_released o2 nr' w')"
      by (simp add: process_released_aligner)
    with IH [of "nr'\<lparr>nr_aligner := ba1\<rparr>" w'] 3 step eq(2) show ?thesis
      by (simp add: handle_all_Cons process_released_append)
  qed (simp_all add: handle_all_Cons step eq(2) process_released_append)
qed simp


text \<open>
  An operator that counts its messages and passes them on, in a node with two inputs: the barrier of
  epoch 7 is the first message of both inputs, yet the state reported for the epoch counts a message
  and that message is sent ahead of the barrier.
\<close>

definition counting :: "(nat, unit) Operator" where
  "counting = BaseOperator\<lparr>op_ProcessMessage := (\<lambda>msg c s w. returning (Suc s) (Emit c msg w)),
     op_HandleCheckpoint := (\<lambda>barrier s. (s, Inr [of_nat s]))\<rparr>"

definition counting_runtime :: "(nat, unit) NodeRuntime" where
  "counting_runtime = NewNodeRuntime
     \<lparr>cfg_Node = OpNode (OperatorNode_SetOutputs [5] (NewOperatorNode ''c'' counting 0)), cfg_NodeType = NodeTypeOperator,
      cfg_Inputs = [0, 1], cfg_Outputs = [5], cfg_TickInterval = 0, cfg_ControlBufferSize = 0,
      cfg_CompletionCh = Some [], cfg_StoppedCh = None, cfg_OnError = None\<rparr>"

definition quiet_world :: "'u World" where
  "quiet_world = \<lparr>w_sent = [], w_outcome = (\<lambda>_. None), w_sends = 0, w_timers = None, w_counts = [],
     w_clock = int, w_reads = 0\<rparr>"


section \<open>Nodes with one input\<close>

text \<open>Handling messages one after the other in the order of arrival, barriers included.\<close>

primrec in_order :: "'u Message list \<Rightarrow> ('s, 'u) NodeRuntime \<Rightarrow> 'u World \<Rightarrow> ('s, 'u) rt_result" where
  "in_order [] nr w = Some (nr, w, None)"
| "in_order (m # ms) nr w =
     and_then (case barrier_of m of Some b \<Rightarrow> Some (handleAlignedBarrier b nr w) | None \<Rightarrow> handleMessage m nr w)
       (in_order ms)"

definition idle_single :: "('s, 'u) NodeRuntime \<Rightarrow> bool" where
  "idle_single nr \<longleftrightarrow> ba_numInputs (nr_aligner nr) \<le> 1 \<and> \<not> ba_aligning (nr_aligner nr)"

lemma keeps_aligner:
  "handleMessage m nr w = Some (nr', w', err) \<Longrightarrow> nr_aligner nr' = nr_aligner nr"
  "handleAlignedBarrier b nr w = (nr', w', err) \<Longrightarrow> nr_aligner nr' = nr_aligner nr"
proof -
  have same: "nr\<lparr>nr_aligner := nr_aligner nr\<rparr> = nr" by (cases nr) simp
  show "nr_aligner nr' = nr_aligner nr" if "handleMessage m nr w = Some (nr', w', err)"
    using handleMessage_aligner [of m "nr_aligner nr" nr w] that same by (cases nr') auto
  show "nr_aligner nr' = nr_aligner nr" if "handleAlignedBarrier b nr w = (nr', w', err)"
    using handleAlignedBarrier_aligner [of b "nr_aligner nr" nr w] that same by (cases nr') auto
qed

lemma handle_single:
  assumes "idle_single nr" "watermark_of (im_Msg im) = None"
  shows "handleIndexedMessage im nr w =
    (case barrier_of (im_Msg im) of Some b \<Rightarrow> Some (handleAlignedBarrier b nr w) | None \<Rightarrow> handleMessage (im_Msg im) nr w)"
proof -
  have same: "nr\<lparr>nr_aligner := nr_aligner nr\<rparr> = nr" by (cases nr) simp
  with assms show ?thesis
    by (auto simp: handleIndexedMessage_def OnMessage_def onBarrier_def idle_single_def split: option.splits)
qed

lemma handle_all_in_order:
  assumes "idle_single nr" "list_all (\<lambda>im. watermark_of (im_Msg im) = None) ims"
  shows "handle_all ims nr w = in_order (map im_Msg ims) nr w"
  using assms
proof (induction ims arbitrary: nr w)
  case (Cons im ims)
  let ?step = "case barrier_of (im_Msg im) of Some b \<Rightarrow> Some (handleAlignedBarrier b nr w) | None \<Rightarrow> handleMessage (im_Msg im) nr w"
  have "handleIndexedMessage im nr w = ?step" using handle_single [OF Cons.prems(1)] Cons.prems(2) by simp
  moreover have "idle_single nr'" if "?step = Some (nr', w', err)" for nr' w' err
    using that Cons.prems(1) keeps_aligner(1) [of "im_Msg im" nr w nr' w' err] keeps_aligner(2) [of _ nr w nr' w' err]
    by (auto simp: idle_single_def split: option.splits)
  ultimately show ?case
    using Cons.IH Cons.prems(2)
    by (simp only: handle_all_Cons list.map in_order.simps) (auto simp: and_then_def split: option.splits)
qed simp

text \<open>
  A node with one input takes consistent snapshots: however many checkpoints pass through it, it
  behaves exactly as one that handles its messages in their order of arrival, each barrier at its
  place in the stream. So the state reported for a checkpoint is the state after the messages before
  its barrier and no other, and an output sees the barrier between what those messages and what the
  later ones produced.
\<close>

theorem single_input_consistent:
  assumes "length (cfg_Inputs cfg) \<le> 1" "list_all (\<lambda>im. watermark_of (im_Msg im) = None) ims"
  shows "handle_all ims (Runtime_Start pc (NewNodeRuntime cfg)) w =
    in_order (map im_Msg ims) (Runtime_Start pc (NewNodeRuntime cfg)) w"
proof (rule handle_all_in_order [OF _ assms(2)])
  show "idle_single (Runtime_Start pc (NewNodeRuntime cfg))"
    using assms(1) by (simp add: idle_single_def Runtime_Start_def NewNodeRuntime_def NewBarrierAligner_def Let_def)
qed

definition pass_config :: "(nat, unit) NodeRuntimeConfig" where
  "pass_config =
     \<lparr>cfg_Node = OpNode (OperatorNode_SetOutputs [5] (NewOperatorNode ''c'' counting 0)), cfg_NodeType = NodeTypeOperator,
      cfg_Inputs = [0], cfg_Outputs = [5], cfg_TickInterval = 0, cfg_ControlBufferSize = 0,
      cfg_CompletionCh = Some [], cfg_StoppedCh = None, cfg_OnError = None\<rparr>"

theorem single_input_consistent_witness:
  "handle_all [\<lparr>im_InputIndex = 0, im_Msg = NewSignalMessage (NewBarrierSignal 0 7 0 False)\<rparr>,
       \<lparr>im_InputIndex = 0, im_Msg = NewDataMessage ''late'' AnyNil 0\<rparr>] (Runtime_Start False (NewNodeRuntime pass_config)) quiet_world =
   in_order [NewSignalMessage (NewBarrierSignal 0 7 0 False), NewDataMessage ''late'' AnyNil 0]
     (Runtime_Start False (NewNodeRuntime pass_config)) quiet_world"
  using single_input_consistent [of pass_config "[\<lparr>im_InputIndex = 0, im_Msg = NewSignalMessage (NewBarrierSignal 0 7 0 False)\<rparr>,
       \<lparr>im_InputIndex = 0, im_Msg = NewDataMessage ''late'' AnyNil 0\<rparr>]" False quiet_world]
  by (simp add: pass_config_def NewBarrierSignal_def)

section \<open>Error strategies\<close>

definition data_message :: "'u DataMessage \<Rightarrow> 'u Message" where
  "data_message d = NewDataMessage (dm_Key d) (dm_Value d) (dm_EventTime d)"

definition never_panics :: "('s, 'u) Operator \<Rightarrow> bool" where
  "never_panics op \<longleftrightarrow> (\<forall>msg c s w. op_ProcessMessage op msg c s w \<noteq> None)"

text \<open>The strategies after which a node goes on; a dead-letter sink has to be configured for its strategy.\<close>

definition tolerant :: "'op ErrorConfig \<Rightarrow> nat option \<Rightarrow> bool" where
  "tolerant cfg dl \<longleftrightarrow> ec_Strategy cfg \<noteq> ErrorStrategyFailPipeline \<and>
     (ec_Strategy cfg = ErrorStrategyDeadLetter \<longrightarrow> dl \<noteq> None)"

lemma tolerant_handler: "tolerant cfg dl \<Longrightarrow> \<exists>w'. makeErrorHandler cfg dl nid msg err w = Some (w', None)"
  by (auto simp: tolerant_def makeErrorHandler_def Let_def split: ErrorStrategy.splits)

lemma handle_data:
  assumes "nr_node nr = OpNode n" "op_ProcessMessage (on_operator n) d (newCollector n) (on_state n) w = Some (s', w', err)"
  shows "handleMessage (data_message d) nr w =
    (let nr' = nr\<lparr>nr_node := OpNode (n\<lparr>on_state := s'\<rparr>)\<rparr>
     in case err of
          None \<Rightarrow> Some (nr', w', None)
        | Some e \<Rightarrow> (case nr_onError nr of
             None \<Rightarrow> Some (nr', w', Some e)
           | Some h \<Rightarrow> map_option (\<lambda>(w, r). (nr', w, r)) (h (on_id n) d e w')))"
  using assms
  by (simp add: handleMessage_def data_message_def NewDataMessage_def IsData_def OperatorNode_ProcessMessage_def
      with_state_def as_OpNode_def with_node_def Let_def split: option.splits)

lemma data_keeps_going:
  assumes "nr_node nr = OpNode n" "on_operator n = op" "never_panics op" "nr_onError nr = Some (makeErrorHandler cfg dl)"
    and "tolerant cfg dl"
  shows "\<exists>nr' n' w'. handleMessage (data_message d) nr w = Some (nr', w', None) \<and> nr_node nr' = OpNode n' \<and>
    on_operator n' = op \<and> nr_onError nr' = nr_onError nr"
proof -
  obtain s' w' err where p: "op_ProcessMessage (on_operator n) d (newCollector n) (on_state n) w = Some (s', w', err)"
    using assms(2,3) by (metis never_panics_def option.exhaust prod_cases3)
  show ?thesis
    using handle_data [OF assms(1) p] assms(2,4) tolerant_handler [OF assms(5), of "on_id n" d _ w']
    by (cases err) (auto simp: Let_def)
qed

lemma process_data_keeps_going:
  assumes "nr_node nr = OpNode n" "on_operator n = op" "never_panics op" "nr_onError nr = Some (makeErrorHandler cfg dl)"
    and "tolerant cfg dl"
  shows "\<exists>nr' w'. process_released (map data_message ds) nr w = Some (nr', w', None)"
  using assms(1,2,4)
proof (induction ds arbitrary: nr n w)
  case (Cons d ds)
  obtain nr1 n1 w1 where 1: "handleMessage (data_message d) nr w = Some (nr1, w1, None)" "nr_node nr1 = OpNode n1"
    "on_operator n1 = op" "nr_onError nr1 = nr_onError nr"
    using data_keeps_going [OF Cons.prems(1,2) assms(3) Cons.prems(3) assms(5)] by blast
  with Cons.IH [OF 1(2,3)] Cons.prems(3) show ?case by simp
qed simp


definition failing_node :: "(nat, unit) OperatorNode" where
  "failing_node = NewOperatorNode ''x''
     (BaseOperator\<lparr>op_ProcessMessage := (\<lambda>msg c s w. Some (Suc s, w, Some (UserError ''bad'')))\<rparr>) 0"

definition failing_runtime :: "ErrorStrategy \<Rightarrow> (nat, unit) NodeRuntime" where
  "failing_runtime strategy = NewNodeRuntime
     \<lparr>cfg_Node = OpNode failing_node, cfg_NodeType = NodeTypeSink, cfg_Inputs = [0], cfg_Outputs = [],
      cfg_TickInterval = 0, cfg_ControlBufferSize = 0, cfg_CompletionCh = Some [], cfg_StoppedCh = None,
      cfg_OnError = Some (makeErrorHandler \<lparr>ec_Strategy = strategy, ec_DeadLetterSink = None :: unit option\<rparr> None)\<rparr>"


end
