(* ===== verification/Signals.thy ===== *)
theory Signals
  imports Runtime
begin

text \<open>
  The signals a node sends. Operator code reaches the buffers only through its collector, which
  makes data messages; so barriers, watermarks and stop signals on an output come from the runtime,
  and which ones come, and in which order, is determined by the messages the node received and not
  by its operator. The contract of operator code is the locale \<open>data_emitter\<close>, interpreted on the
  operators of the engine.
\<close>

section \<open>What operator code sends\<close>

definition sent_data :: "'u World \<Rightarrow> 'u World \<Rightarrow> bool" where
  "sent_data w w' \<longleftrightarrow> (\<exists>xs. w_sent w' = w_sent w @ xs \<and> list_all (\<lambda>(out, m). IsData m) xs)"

lemma sent_data_same: "w_sent w' = w_sent w \<Longrightarrow> sent_data w w'"
  by (simp add: sent_data_def)

lemma sent_data_trans: "sent_data w w' \<Longrightarrow> sent_data w' w'' \<Longrightarrow> sent_data w w''"
  by (fastforce simp: sent_data_def)

lemma broadcast_data: "sent_data w (fst (broadcast Send outs (NewDataMessage k v t) w))"
proof -
  obtain w' r where "broadcast Send outs (NewDataMessage k v t) w = (w', r)" by fastforce
  from net.broadcast_delivered [OF this] this show ?thesis
    by (force simp: sent_data_def list_all_iff)
qed

lemma Emit_data: "sent_data w (fst (Emit c msg w))"
  by (simp add: Emit_def broadcast_data Let_def)

lemma EmitToPort_data: "sent_data w (fst (EmitToPort c port msg w))"
  by (simp add: EmitToPort_def broadcast_data Emit_data Let_def split: option.splits)

lemma RegisterTimer_sent [simp]: "w_sent (RegisterTimer c name t w) = w_sent w"
  by (simp add: RegisterTimer_def)

lemma Now_sent [simp]: "w_sent (snd (Now w)) = w_sent w"
  by (simp add: Now_def)

locale data_emitter =
  fixes op :: "('s, 'u) Operator"
  assumes process: "op_ProcessMessage op msg c s w = Some (s', w', err) \<Longrightarrow> sent_data w w'"
    and watermark: "op_HandleWatermark op wm c s w = Some (s', w', err) \<Longrightarrow> sent_data w w'"
    and timer: "op_HandleTimer op = Some ht \<Longrightarrow> ht name t c s w = Some (s', w', err) \<Longrightarrow> sent_data w w'"
    and tick: "op_HandleTick op = Some hk \<Longrightarrow> hk c s w = Some (s', w', err) \<Longrightarrow> sent_data w w'"
    and drain: "op_Drain op = Some dr \<Longrightarrow> dr s w = (s', w', err') \<Longrightarrow> sent_data w w'"

definition handler_data :: "'u errorHandler \<Rightarrow> bool" where
  "handler_data h \<longleftrightarrow> (\<forall>nid msg err w w' r. h nid msg err w = Some (w', r) \<longrightarrow> sent_data w w')"

lemma makeErrorHandler_data: "handler_data (makeErrorHandler cfg dl)"
  by (auto simp: handler_data_def makeErrorHandler_def count_error_def sent_data_def Let_def dead_letter_def
      split: ErrorStrategy.splits option.splits)

section \<open>The specification\<close>

definition signals_to :: "nat \<Rightarrow> (nat \<times> 'u Message) list \<Rightarrow> 'u Message list" where
  "signals_to out log = map snd (filter (\<lambda>(i, m). i = out \<and> IsSignal m) log)"

definition is_stop :: "'u Message \<Rightarrow> bool" where
  "is_stop m \<longleftrightarrow> IsSignal m \<and> map_option sm_SignalType (m_Signal m) = Some SignalTypeStop"

text \<open>
  The state that matters: aligner, watermark holder and the number of inputs that have not stopped.
  A released stop signal is passed on once no input is left.
\<close>

primrec released_signals :: "'u Message list \<Rightarrow> int \<Rightarrow> 'u Message list \<times> int" where
  "released_signals [] active = ([], active)"
| "released_signals (m # ms) active =
     (let (here, active) =
        (if is_stop m then (if active - 1 \<le> 0 then [m] else [], active - 1)
         else (case barrier_of m of Some b \<Rightarrow> [barrier_message b] | None \<Rightarrow> [], active))
      in apfst ((@) here) (released_signals ms active))"

type_synonym 'u signal_state = "'u BarrierAligner \<times> WatermarkHolder \<times> int"

definition node_signals :: "'u indexedMessage \<Rightarrow> 'u signal_state \<Rightarrow> 'u Message list \<times> 'u signal_state" where
  "node_signals im st =
     (case st of (ba, wh, active) \<Rightarrow>
        case watermark_of (im_Msg im) of
          Some wm \<Rightarrow>
            (case Watermark_Update (int (im_InputIndex im)) wm wh of
               (None, wh) \<Rightarrow> ([], (ba, wh, active))
             | (Some advanced, wh) \<Rightarrow> ([watermark_message advanced], (ba, wh, active)))
        | None \<Rightarrow>
            (case OnMessage im ba of (released, aligned, ba) \<Rightarrow>
               (case released_signals released active of (sigs, active) \<Rightarrow>
                  (sigs @ (case aligned of None \<Rightarrow> [] | Some b \<Rightarrow> [barrier_message b]), (ba, wh, active)))))"

primrec signal_stream :: "'u indexedMessage list \<Rightarrow> 'u signal_state \<Rightarrow> 'u Message list" where
  "signal_stream [] st = []"
| "signal_stream (im # ims) st = (case node_signals im st of (sigs, st) \<Rightarrow> sigs @ signal_stream ims st)"

section \<open>The runtime sends these signals\<close>

lemma signals_to_append [simp]: "signals_to out (xs @ ys) = signals_to out xs @ signals_to out ys"
  by (simp add: signals_to_def)

lemma signals_to_data: "sent_data w w' \<Longrightarrow> signals_to out (w_sent w') = signals_to out (w_sent w)"
  by (force simp: sent_data_def signals_to_def list_all_iff filter_empty_conv IsData_IsSignal)

lemma signals_to_broadcast:
  assumes "broadcast Send outs m w = (w', None)" "count_list outs out = 1" "IsSignal m"
  shows "signals_to out (w_sent w') = signals_to out (w_sent w) @ [m]"
proof -
  have "signals_to out (map (\<lambda>out. (out, m)) outs) = replicate (count_list outs out) m" for outs
    using assms(3) by (induction outs) (auto simp: signals_to_def)
  with assms(2) net.broadcast_ok [OF assms(1)] show ?thesis by simp
qed

definition abs_signals :: "('s, 'u) NodeRuntime \<Rightarrow> 'u signal_state" where
  "abs_signals nr = (nr_aligner nr, nr_watermarks nr, nr_activeInputs nr)"

context data_emitter
begin

text \<open>What every handler keeps of a runtime: the operator of its node, the outputs, the error handler.\<close>

definition keeps :: "nat \<Rightarrow> ('s, 'u) NodeRuntime \<Rightarrow> bool" where
  "keeps out nr \<longleftrightarrow> (\<exists>n. nr_node nr = OpNode n \<and> on_operator n = op) \<and> count_list (nr_outputs nr) out = 1 \<and>
     (\<forall>h. nr_onError nr = Some h \<longrightarrow> handler_data h)"

definition sends :: "nat \<Rightarrow> ('s, 'u) NodeRuntime \<Rightarrow> 'u World \<Rightarrow> 'u Message list \<Rightarrow> 'u signal_state \<Rightarrow> ('s, 'u) rt_result \<Rightarrow> bool" where
  "sends out nr w sigs st r \<longleftrightarrow>
     (\<forall>nr' w'. r = Some (nr', w', None) \<longrightarrow>
        keeps out nr' \<and> abs_signals nr' = st \<and> signals_to out (w_sent w') = signals_to out (w_sent w) @ sigs)"

lemma handleAlignedBarrier_sends:
  assumes "keeps out nr"
  shows "sends out nr w [barrier_message b] (abs_signals nr) (Some (handleAlignedBarrier b nr w))"
proof -
  obtain n where n: "nr_node nr = OpNode n" "on_operator n = op" using assms by (auto simp: keeps_def)
  have 1: "count_list (nr_outputs nr) out = 1" using assms by (simp add: keeps_def)
  have sig: "IsSignal (barrier_message b :: 'u Message)" by (simp add: barrier_message_def)
  obtain n' r where hc: "OperatorNode_HandleCheckpoint b n w = (n', r)" by fastforce
  then have n': "on_operator n' = op"
    using n(2) by (auto simp: OperatorNode_HandleCheckpoint_def Let_def split: prod.splits sum.splits if_splits)
  show ?thesis
    using assms n n' hc signals_to_broadcast [OF _ 1 sig]
    by (auto simp: sends_def handleAlignedBarrier_def report_completion_def Runtime_Stop_def keeps_def abs_signals_def Let_def
        split: prod.splits sum.splits option.splits)
qed

lemma with_node_keeps:
  assumes "keeps out nr" "with_node nr (as_OpNode (with_state n r)) = Some (nr', w', err)"
    and "nr_node nr = OpNode n" "\<And>s. r = Some (s, w', err) \<Longrightarrow> sent_data w w'"
  shows "keeps out nr' \<and> abs_signals nr' = abs_signals nr \<and> sent_data w w'"
  using assms by (auto simp: with_node_def as_OpNode_def with_state_def keeps_def abs_signals_def)

lemma process_keeps:
  assumes "keeps out nr" "with_node nr (Node_ProcessMessage d (nr_node nr) w) = Some (nr', w', err)"
  shows "keeps out nr' \<and> abs_signals nr' = abs_signals nr \<and> sent_data w w'"
proof -
  obtain n where n: "nr_node nr = OpNode n" "on_operator n = op" using assms(1) by (auto simp: keeps_def)
  with assms(2) show ?thesis
    using with_node_keeps [OF assms(1) _ n(1)] process by (simp add: OperatorNode_ProcessMessage_def) blast
qed

lemma watermark_keeps:
  assumes "keeps out nr" "with_node nr (Node_HandleWatermark wm (nr_node nr) w) = Some (nr', w', err)"
  shows "keeps out nr' \<and> abs_signals nr' = abs_signals nr \<and> sent_data w w'"
proof -
  obtain n where n: "nr_node nr = OpNode n" "on_operator n = op" using assms(1) by (auto simp: keeps_def)
  with assms(2) show ?thesis
    using with_node_keeps [OF assms(1) _ n(1)] watermark by (simp add: OperatorNode_HandleWatermark_def) blast
qed

lemma drain_keeps:
  assumes "keeps out nr" "drainIfDrainable nr w = (nr', w')"
  shows "keeps out nr' \<and> abs_signals nr' = abs_signals nr \<and> sent_data w w'"
  using assms drain
  by (auto simp: drainIfDrainable_def keeps_def abs_signals_def Let_def sent_data_same
      split: Node.splits option.splits prod.splits if_splits)

lemma handleSignal_stop_sends:
  assumes "keeps out nr" "sm_SignalType sig = SignalTypeStop" "IsSignal msg"
  shows "sends out nr w (if nr_activeInputs nr - 1 \<le> 0 then [msg] else [])
    (nr_aligner nr, nr_watermarks nr, nr_activeInputs nr - 1) (Some (handleSignal msg sig nr w))"
proof (cases "nr_activeInputs nr - 1 \<le> 0")
  case True
  define nr1 where "nr1 = nr\<lparr>nr_activeInputs := nr_activeInputs nr - 1\<rparr>"
  have k1: "keeps out nr1" using assms(1) by (simp add: keeps_def nr1_def)
  obtain nr2 w2 where dr: "drainIfDrainable nr1 w = (nr2, w2)" by fastforce
  note k2 = drain_keeps [OF k1 dr]
  then have one: "count_list (nr_outputs nr2) out = 1" by (simp add: keeps_def)
  obtain w3 r where b: "broadcast Send (nr_outputs nr2) msg w2 = (w3, r)" by fastforce
  have "handleSignal msg sig nr w = (case r of Some err \<Rightarrow> (nr2, w3, Some err) | None \<Rightarrow> (Runtime_Stop nr2, w3, None))"
    using assms(2) True dr b by (simp add: handleSignal_def Let_def nr1_def split: option.splits)
  then show ?thesis
    using True k2 signals_to_broadcast [OF _ one assms(3), of w2 w3] b signals_to_data [of w w2 out]
    by (auto simp: sends_def Runtime_Stop_def keeps_def abs_signals_def nr1_def split: option.splits)
next
  case False
  with assms show ?thesis
    by (simp add: handleSignal_def sends_def keeps_def abs_signals_def Let_def)
qed

lemma handleMessage_sends:
  assumes "keeps out nr" "released_signals [msg] (nr_activeInputs nr) = (sigs, active)"
  shows "sends out nr w sigs (nr_aligner nr, nr_watermarks nr, active) (handleMessage msg nr w)"
proof (cases "IsData msg")
  case True
  then have "sigs = []" "active = nr_activeInputs nr"
    using assms(2) by (auto simp: is_stop_def IsData_IsSignal barrier_of_def)
  moreover have "keeps out nr' \<and> abs_signals nr' = abs_signals nr \<and> signals_to out (w_sent w') = signals_to out (w_sent w)"
    if hm: "handleMessage msg nr w = Some (nr', w', None)" for nr' w'
  proof -
    obtain d where m: "m_Data msg = Some d"
      using hm True by (auto simp: handleMessage_def split: option.splits)
    obtain nr1 w1 e1 where d: "with_node nr (Node_ProcessMessage d (nr_node nr) w) = Some (nr1, w1, e1)"
      using hm True m by (cases "with_node nr (Node_ProcessMessage d (nr_node nr) w)") (auto simp: handleMessage_def)
    note k = process_keeps [OF assms(1) d]
    have "nr' = nr1 \<and> sent_data w1 w'"
    proof (cases e1)
      case None
      with hm True m d show ?thesis by (simp add: handleMessage_def sent_data_same)
    next
      case (Some err)
      with hm True m d obtain h where "nr_onError nr1 = Some h" "nr' = nr1" "h (Node_ID (nr_node nr1)) d err w1 = Some (w', None)"
        by (auto simp: handleMessage_def split: option.splits)
      moreover from this k have "handler_data h" by (simp add: keeps_def)
      ultimately show ?thesis unfolding handler_data_def by blast
    qed
    with k show ?thesis using signals_to_data by metis
  qed
  ultimately show ?thesis
    by (simp add: sends_def abs_signals_def)
next
  case False
  then have sig: "IsSignal msg" by (simp add: IsData_IsSignal)
  show ?thesis
  proof (cases "m_Signal msg")
    case None
    then have "barrier_of msg = None" "\<not> is_stop msg" by (simp_all add: barrier_of_def is_stop_def)
    with None False assms show ?thesis
      by (auto simp: handleMessage_def sends_def abs_signals_def)
  next
    case (Some sg)
    then have hm: "handleMessage msg nr w = Some (handleSignal msg sg nr w)"
      using False sig by (simp add: handleMessage_def)
    show ?thesis
    proof (cases "sm_SignalType sg")
      case SignalTypeStop
      with Some sig assms handleSignal_stop_sends [OF assms(1) SignalTypeStop sig, of w] show ?thesis
        unfolding hm by (auto simp: is_stop_def split: if_splits)
    next
      case SignalTypeBarrier
      then show ?thesis
        using Some sig assms handleAlignedBarrier_sends [OF assms(1), of w]
        unfolding hm by (auto simp: is_stop_def barrier_of_def handleSignal_def abs_signals_def sends_def split: option.splits)
    next
      case SignalTypeWatermark
      with Some sig assms show ?thesis
        unfolding hm by (simp add: is_stop_def barrier_of_def handleSignal_def abs_signals_def sends_def)
    qed
  qed
qed

lemma process_released_sends:
  assumes "keeps out nr" "released_signals msgs (nr_activeInputs nr) = (sigs, active)"
  shows "sends out nr w sigs (nr_aligner nr, nr_watermarks nr, active) (process_released msgs nr w)"
  using assms
proof (induction msgs arbitrary: nr w sigs)
  case (Cons msg msgs)
  obtain s1 a1 where 1: "released_signals [msg] (nr_activeInputs nr) = (s1, a1)" by fastforce
  obtain s2 a2 where rs: "released_signals msgs a1 = (s2, a2)" by fastforce
  then have 2: "released_signals msgs a1 = (s2, active)" "sigs = s1 @ s2"
    using Cons.prems(2) 1 by (auto simp: Let_def split: prod.splits if_splits)
  have "sends out nr w s1 (nr_aligner nr, nr_watermarks nr, a1) (handleMessage msg nr w)"
    by (rule handleMessage_sends [OF Cons.prems(1) 1])
  then have m: "keeps out nr1 \<and> abs_signals nr1 = (nr_aligner nr, nr_watermarks nr, a1) \<and>
      signals_to out (w_sent w1) = signals_to out (w_sent w) @ s1"
    if "handleMessage msg nr w = Some (nr1, w1, None)" for nr1 w1
    using that by (simp add: sends_def)
  have "keeps out nr' \<and> abs_signals nr' = (nr_aligner nr, nr_watermarks nr, active) \<and>
      signals_to out (w_sent w') = signals_to out (w_sent w) @ sigs"
    if pr: "process_released (msg # msgs) nr w = Some (nr', w', None)" for nr' w'
  proof -
    obtain nr1 w1 where h: "handleMessage msg nr w = Some (nr1, w1, None)"
      and r: "process_released msgs nr1 w1 = Some (nr', w', None)"
      using pr by (auto split: option.splits)
    from m [OF h] have "keeps out nr1" "nr_activeInputs nr1 = a1" "nr_aligner nr1 = nr_aligner nr"
      "nr_watermarks nr1 = nr_watermarks nr" by (simp_all add: abs_signals_def)
    with Cons.IH [of nr1 s2 w1] 2 r m [OF h] show ?thesis
      by (simp add: sends_def)
  qed
  then show ?case unfolding sends_def by blast
qed (simp add: sends_def abs_signals_def)

lemma handleIndexedMessage_sends:
  assumes "keeps out nr" "node_signals im (abs_signals nr) = (sigs, st)"
  shows "sends out nr w sigs st (handleIndexedMessage im nr w)"
proof (cases "watermark_of (im_Msg im)")
  case (Some wm)
  obtain adv wh where u: "Watermark_Update (int (im_InputIndex im)) wm (nr_watermarks nr) = (adv, wh)" by fastforce
  define nr1 where "nr1 = nr\<lparr>nr_watermarks := wh\<rparr>"
  have k1: "keeps out nr1" using assms(1) by (simp add: keeps_def nr1_def)
  show ?thesis
  proof (cases adv)
    case None
    then show ?thesis
      using u Some assms k1
      by (simp add: handleIndexedMessage_def handleIndexedWatermark_def node_signals_def sends_def abs_signals_def nr1_def)
  next
    case (Some a)
    have eqs: "sigs = [watermark_message a]" "st = abs_signals nr1"
      using u Some \<open>watermark_of (im_Msg im) = Some wm\<close> assms(2) by (simp_all add: node_signals_def abs_signals_def nr1_def)
    have "keeps out nr' \<and> abs_signals nr' = st \<and> signals_to out (w_sent w') = signals_to out (w_sent w) @ sigs"
      if h: "handleIndexedMessage im nr w = Some (nr', w', None)" for nr' w'
    proof -
      have hw: "handleIndexedWatermark (im_InputIndex im) wm nr w = Some (nr', w', None)"
        using h \<open>watermark_of (im_Msg im) = Some wm\<close> by (simp add: handleIndexedMessage_def)
      obtain w2 where n: "with_node nr1 (Node_HandleWatermark a (nr_node nr1) w) = Some (nr', w2, None)"
        and b: "broadcast Send (nr_outputs nr') (watermark_message a) w2 = (w', None)"
        using hw u Some by (auto simp: handleIndexedWatermark_def nr1_def Let_def split: option.splits prod.splits)
      note k = watermark_keeps [OF k1 n]
      have "IsSignal (watermark_message a :: 'b Message)" by (simp add: watermark_message_def)
      then show ?thesis
        using k signals_to_broadcast [OF b, of out] signals_to_data [of w w2 out] eqs by (simp add: keeps_def)
    qed
    then show ?thesis unfolding sends_def by blast
  qed
next
  case None
  obtain rel al ba where om: "OnMessage im (nr_aligner nr) = (rel, al, ba)" by (metis prod_cases3)
  obtain s1 active where rs: "released_signals rel (nr_activeInputs nr) = (s1, active)" by fastforce
  define nr1 where "nr1 = nr\<lparr>nr_aligner := ba\<rparr>"
  have k1: "keeps out nr1" using assms(1) by (simp add: keeps_def nr1_def)
  have eqs: "sigs = s1 @ (case al of None \<Rightarrow> [] | Some b \<Rightarrow> [barrier_message b])" "st = (ba, nr_watermarks nr, active)"
    using None om rs assms(2) by (simp_all add: node_signals_def abs_signals_def)
  have pr: "sends out nr1 w s1 st (process_released rel nr1 w)"
    using process_released_sends [OF k1, of rel s1 active w] rs eqs(2) by (simp add: nr1_def)
  show ?thesis
  proof (cases al)
    case None
    with \<open>watermark_of (im_Msg im) = None\<close> om have "handleIndexedMessage im nr w = process_released rel nr1 w"
      by (simp add: handleIndexedMessage_def nr1_def [symmetric] split: option.splits)
    with pr None eqs(1) show ?thesis by (simp add: sends_def)
  next
    case (Some b)
    have "keeps out nr' \<and> abs_signals nr' = st \<and> signals_to out (w_sent w') = signals_to out (w_sent w) @ sigs"
      if h: "handleIndexedMessage im nr w = Some (nr', w', None)" for nr' w'
    proof -
      obtain nr2 w2 where p: "process_released rel nr1 w = Some (nr2, w2, None)"
        and hb: "handleAlignedBarrier b nr2 w2 = (nr', w', None)"
        using h None om Some by (auto simp: handleIndexedMessage_def nr1_def [symmetric] split: option.splits)
      from pr p have k: "keeps out nr2" "abs_signals nr2 = st" "signals_to out (w_sent w2) = signals_to out (w_sent w) @ s1"
        by (simp_all add: sends_def)
      with handleAlignedBarrier_sends [OF k(1), of w2 b] hb eqs(1) Some show ?thesis
        by (simp add: sends_def)
    qed
    then show ?thesis unfolding sends_def by blast
  qed
qed

lemma handle_all_sends:
  "keeps out nr \<Longrightarrow> handle_all ims nr w = Some (nr', w', None) \<Longrightarrow>
   signals_to out (w_sent w') = signals_to out (w_sent w) @ signal_stream ims (abs_signals nr)"
proof (induction ims arbitrary: nr w)
  case (Cons im ims)
  obtain sigs st where ns: "node_signals im (abs_signals nr) = (sigs, st)" by (metis surj_pair)
  obtain nr1 w1 where h: "handleIndexedMessage im nr w = Some (nr1, w1, None)"
    and r: "handle_all ims nr1 w1 = Some (nr', w', None)"
    using Cons.prems(2) by (auto simp: handle_all_Cons and_then_def split: option.splits)
  from handleIndexedMessage_sends [OF Cons.prems(1) ns, of w] h
  have "keeps out nr1" "abs_signals nr1 = st" "signals_to out (w_sent w1) = signals_to out (w_sent w) @ sigs"
    by (simp_all add: sends_def)
  with Cons.IH [OF _ r] ns show ?case by simp
qed simp

end

section \<open>The engine's operators\<close>

lemma data_emitter_base:
  assumes "\<And>msg c s w s' w' err. h msg c s w = Some (s', w', err) \<Longrightarrow> sent_data w w'"
  shows "data_emitter (BaseOperator\<lparr>op_ProcessMessage := h\<rparr>)"
  using assms by unfold_locales (auto simp: BaseOperator_def sent_data_same)

lemma returning_data: "sent_data w (fst r) \<Longrightarrow> returning s r = Some (s', w', err) \<Longrightarrow> sent_data w w'"
  by (simp add: returning_def)

lemmas emitting = returning_data [OF Emit_data] returning_data [OF EmitToPort_data] sent_data_same

interpretation map_emits: data_emitter "nodes_Map as_In box f" for as_In box f
  unfolding nodes_Map_def
  by (rule data_emitter_base) (auto simp: mapOp_ProcessMessage_def split: option.splits intro: emitting)

interpretation filter_emits: data_emitter "nodes_Filter as_T p" for as_T p
  unfolding nodes_Filter_def
  by (rule data_emitter_base) (auto simp: filterOp_ProcessMessage_def split: option.splits if_splits intro: emitting)

interpretation sink_emits: data_emitter "nodes_SinkFunc as_T f" for as_T f
  unfolding nodes_SinkFunc_def
  by (rule data_emitter_base)
    (auto simp: funcSink_ProcessMessage_def split: option.splits prod.splits intro: emitting)

interpretation fanout_emits: data_emitter nodes_FanOut
  unfolding nodes_FanOut_def by (rule data_emitter_base) (auto intro: emitting)

interpretation merge_emits: data_emitter nodes_Merge
  unfolding nodes_Merge_def by (rule data_emitter_base) (auto intro: emitting)

interpretation router_emits: data_emitter "nodes_Router routeFn defaultPort" for routeFn defaultPort
  unfolding nodes_Router_def
  by (rule data_emitter_base) (auto simp: routerOp_ProcessMessage_def Let_def split: if_splits intro: emitting)

lemma data_emitter_timed:
  assumes "\<And>msg c s w s' w' err. p msg c s w = Some (s', w', err) \<Longrightarrow> sent_data w w'"
    and "\<And>name t c s w s' w' err. h name t c s w = Some (s', w', err) \<Longrightarrow> sent_data w w'"
  shows "data_emitter (BaseOperator\<lparr>op_ProcessMessage := p, op_HandleTimer := Some h, op_HandleCheckpoint := hc\<rparr>)"
  using assms by unfold_locales (auto simp: BaseOperator_def sent_data_same)

interpretation sleep_emits: data_emitter "SleepOperator_op order" for order
  unfolding SleepOperator_op_def
  by (rule data_emitter_timed)
    (auto simp: Sleep_ProcessMessage_def Sleep_HandleTimer_def Now_def Let_def split: option.splits intro: emitting)

interpretation debounce_emits: data_emitter "DebounceOperator_op order" for order
  unfolding DebounceOperator_op_def
  by (rule data_emitter_timed)
    (auto simp: Debounce_ProcessMessage_def Debounce_HandleTimer_def Now_def Let_def split: option.splits intro: emitting)

lemma sent_data_after: "returning s (Emit c msg w1) = Some (s', w', err) \<Longrightarrow> w_sent w1 = w_sent w \<Longrightarrow> sent_data w w'"
  using emitting(1) [of s c msg w1 s' w' err] by (simp add: sent_data_def)

interpretation dedup_emits: data_emitter "DeduplicateOperator_op order" for order
  unfolding DeduplicateOperator_op_def
  by (rule data_emitter_timed)
    (auto simp: Dedup_ProcessMessage_def Dedup_HandleTimer_def Now_def Let_def
      split: option.splits if_splits intro: emitting(3) sent_data_after)

section \<open>Watermarks and stop signals of a node\<close>

lemma watermark_of_signals [simp]:
  "watermark_of (barrier_message b) = None" "watermark_of (watermark_message wm) = Some wm"
  "is_stop m \<Longrightarrow> watermark_of m = None" "\<not> is_stop (barrier_message b)" "\<not> is_stop (watermark_message wm)"
  by (auto simp: barrier_message_def watermark_message_def is_stop_def watermark_of_def NewSignalMessage_def IsSignal_def
      split: option.splits)

definition watermark_times :: "'u Message list \<Rightarrow> time list" where
  "watermark_times ms = map ws_EventTime (List.map_filter watermark_of ms)"

lemma watermark_times_simps [simp]:
  "watermark_times [] = []"
  "watermark_times (m # ms) = (case watermark_of m of None \<Rightarrow> [] | Some wm \<Rightarrow> [ws_EventTime wm]) @ watermark_times ms"
  "watermark_times (xs @ ys) = watermark_times xs @ watermark_times ys"
  by (simp_all add: watermark_times_def map_filter_simps map_filter_def split: option.splits)

lemma released_no_watermark [simp]: "watermark_times (fst (released_signals ms active)) = []"
  by (induction ms arbitrary: active) (auto simp: Let_def split: option.splits)

lemma signal_stream_watermarks:
  "sorted_wrt (<) (wh_current wh # watermark_times (signal_stream ims (ba, wh, active)))"
proof (induction ims arbitrary: ba wh active)
  case (Cons im ims)
  show ?case
  proof (cases "watermark_of (im_Msg im)")
    case None
    obtain rel al ba' where om: "OnMessage im ba = (rel, al, ba')" by (metis prod_cases3)
    obtain sigs a' where rs: "released_signals rel active = (sigs, a')" by fastforce
    then have "watermark_times sigs = []" using released_no_watermark [of rel active] by simp
    with Cons.IH [of wh ba' a'] None om rs show ?thesis
      by (simp add: node_signals_def split: option.splits)
  next
    case (Some wm)
    obtain adv wh' where u: "Watermark_Update (int (im_InputIndex im)) wm wh = (adv, wh')" by fastforce
    have IH: "sorted_wrt (<) (wh_current wh' # watermark_times (signal_stream ims (ba, wh', active)))" by (rule Cons.IH)
    show ?thesis
    proof (cases adv)
      case None
      with u Some IH Watermark_Update_current(1) [of _ wm wh wh'] show ?thesis
        by (simp add: node_signals_def)
    next
      case (Some a)
      with u have "wh_current wh < ws_EventTime a" "wh_current wh' = ws_EventTime a"
        using Watermark_Update_current(2) by blast+
      with u Some IH \<open>watermark_of (im_Msg im) = Some wm\<close> show ?thesis
        by (auto simp: node_signals_def intro: order.strict_trans)
    qed
  qed
qed simp

text \<open>Without barriers the aligner passes every message on, and the stop signals are counted.\<close>

definition stop_count :: "'u Message list \<Rightarrow> nat" where
  "stop_count ms = length (filter is_stop ms)"

lemma signal_stream_stops:
  assumes "\<not> ba_aligning ba" "barriers ims = []"
  shows "int (stop_count (signal_stream ims (ba, wh, active))) =
    max 0 (int (stop_count (map im_Msg ims)) - max 0 (active - 1))"
  using assms(2)
proof (induction ims arbitrary: wh active)
  case Nil
  then show ?case by (simp add: stop_count_def)
next
  case (Cons im ims)
  then have nb: "barrier_of (im_Msg im) = None" "barriers ims = []"
    by (cases "barrier_of (im_Msg im)"; simp)+
  note IH = Cons.IH [OF nb(2)]
  show ?case
  proof (cases "watermark_of (im_Msg im)")
    case None
    have "OnMessage im ba = ([im_Msg im], None, ba)" using assms(1) nb(1) by (simp add: OnMessage_def)
    with None nb(1) IH show ?thesis
      by (auto simp: node_signals_def stop_count_def)
  next
    case (Some wm)
    then have "\<not> is_stop (im_Msg im)" by auto
    with Some IH show ?thesis
      by (auto simp: node_signals_def stop_count_def split: prod.splits option.splits)
  qed
qed

section \<open>Properties\<close>

text \<open>A node of a data-emitting operator, as the builder configures it.\<close>

definition emitting_config :: "nat \<Rightarrow> ('s, 'u) NodeRuntimeConfig \<Rightarrow> bool" where
  "emitting_config out cfg \<longleftrightarrow>
     (case cfg_Node cfg of OpNode n \<Rightarrow> data_emitter (on_operator n) | SrcNode _ \<Rightarrow> False) \<and>
     count_list (cfg_Outputs cfg) out = 1 \<and>
     (case cfg_OnError cfg of None \<Rightarrow> True | Some h \<Rightarrow> handler_data h)"

definition initial_signals :: "nat \<Rightarrow> 'u signal_state" where
  "initial_signals n = (NewBarrierAligner n, NewWatermarkHolder (int n), int (max 1 n))"

lemma runtime_signals:
  assumes "emitting_config out cfg"
    and "handle_all ims (Runtime_Start pc (NewNodeRuntime cfg)) w = Some (nr', w', None)"
  shows "signals_to out (w_sent w') =
    signals_to out (w_sent w) @ signal_stream ims (initial_signals (length (cfg_Inputs cfg)))"
proof -
  let ?nr = "Runtime_Start pc (NewNodeRuntime cfg)"
  obtain n where n: "cfg_Node cfg = OpNode n" "data_emitter (on_operator n)"
    using assms(1) by (auto simp: emitting_config_def split: Node.splits)
  have "data_emitter.keeps (on_operator n) out ?nr"
    unfolding data_emitter.keeps_def [OF n(2)]
    using assms(1) n(1) by (auto simp: emitting_config_def Runtime_Start_def NewNodeRuntime_def Let_def)
  from data_emitter.handle_all_sends [OF n(2) this assms(2)]
  have "signals_to out (w_sent w') = signals_to out (w_sent w) @ signal_stream ims (abs_signals ?nr)" .
  moreover have "abs_signals ?nr = initial_signals (length (cfg_Inputs cfg))"
    by (cases "cfg_Inputs cfg") (simp_all add: abs_signals_def initial_signals_def Runtime_Start_def NewNodeRuntime_def)
  ultimately show ?thesis by simp
qed

text \<open>
  C28. The signals of a node do not depend on its operator. For any messages a node receives, as
  long as no error stops it, the barriers, watermarks and stop signals on each of its outputs are
  exactly those of the abstract signal stream: each advance of the combined watermark, each aligned
  barrier after the stop signals released with it, and a stop signal once no input is left. The
  hypothesis on user code is that it sends through its collector, which makes data messages; it
  holds of all operators of the engine.
\<close>

theorem signal_refinement:
  assumes "emitting_config out cfg"
    and "handle_all ims (Runtime_Start pc (NewNodeRuntime cfg)) w = Some (nr', w', None)"
  shows "signals_to out (w_sent w') =
    signals_to out (w_sent w) @ signal_stream ims (initial_signals (length (cfg_Inputs cfg)))"
  using assms by (rule runtime_signals)

definition filter_config :: "nat list \<Rightarrow> (unit, nat) NodeRuntimeConfig" where
  "filter_config ins =
     \<lparr>cfg_Node = OpNode (NewOperatorNode ''f'' (nodes_Filter (\<lambda>v. Some v) (\<lambda>_. True)) ()), cfg_NodeType = NodeTypeOperator,
      cfg_Inputs = ins, cfg_Outputs = [5], cfg_TickInterval = 0, cfg_ControlBufferSize = 0,
      cfg_CompletionCh = Some [], cfg_StoppedCh = None, cfg_OnError = None\<rparr>"

lemma filter_config_emitting: "emitting_config 5 (filter_config ins)"
  using filter_emits.data_emitter_axioms
  by (simp add: emitting_config_def filter_config_def NewOperatorNode_def)

abbreviation sample_trace :: "nat indexedMessage list" where
  "sample_trace \<equiv> [\<lparr>im_InputIndex = 0, im_Msg = NewSignalMessage (NewWatermarkSignal 5)\<rparr>,
     \<lparr>im_InputIndex = 0, im_Msg = NewSignalMessage NewStopSignal\<rparr>]"

lemma sample_run:
  "\<exists>nr w. handle_all sample_trace (Runtime_Start False (NewNodeRuntime (filter_config [0]))) quiet_world = Some (nr, w, None)"
  by (simp add: filter_config_def handle_all_Cons handleIndexedMessage_def NewWatermarkSignal_def handleIndexedWatermark_def
      Watermark_Update_def tryAdvance_def min_body_def max_body_def zero_time_def NewWatermarkHolder_def
      NewNodeRuntime_def Runtime_Start_def with_node_def as_OpNode_def with_state_def OperatorNode_HandleWatermark_def
      NewOperatorNode_def nodes_Filter_def BaseOperator_def Send_def quiet_world_def Let_def
      OnMessage_def NewBarrierAligner_def handleMessage_def handleSignal_def drainIfDrainable_def Runtime_Stop_def
      NewSignalMessage_def NewStopSignal_def IsData_def IsSignal_def watermark_of_def barrier_of_def)

theorem signal_refinement_witness:
  "\<exists>nr w. handle_all sample_trace (Runtime_Start False (NewNodeRuntime (filter_config [0]))) quiet_world = Some (nr, w, None) \<and>
     signals_to 5 (w_sent w) = signal_stream sample_trace (initial_signals 1)"
proof -
  obtain nr w where run: "handle_all sample_trace (Runtime_Start False (NewNodeRuntime (filter_config [0]))) quiet_world =
      Some (nr, w, None)" using sample_run by blast
  from signal_refinement [OF filter_config_emitting run] run show ?thesis
    by (simp add: filter_config_def quiet_world_def signals_to_def)
qed

text \<open>
  Event time never goes back. The watermarks that a node puts on an output, over everything it
  ever receives, increase strictly, whatever its operator, the interleaving of its inputs and the
  reports on them.
\<close>

theorem output_watermarks_increase:
  assumes "emitting_config out cfg" "signals_to out (w_sent w) = []"
    and "handle_all ims (Runtime_Start pc (NewNodeRuntime cfg)) w = Some (nr', w', None)"
  shows "sorted_wrt (<) (zero_time # watermark_times (signals_to out (w_sent w')))"
proof -
  have "wh_current (NewWatermarkHolder n) = zero_time" for n by (simp add: NewWatermarkHolder_def Let_def)
  with signal_stream_watermarks [of "NewWatermarkHolder (int (length (cfg_Inputs cfg)))" ims]
    runtime_signals [OF assms(1,3)] assms(2)
  show ?thesis by (simp add: initial_signals_def)
qed

theorem output_watermarks_increase_witness:
  "\<exists>nr w. handle_all sample_trace (Runtime_Start False (NewNodeRuntime (filter_config [0]))) quiet_world = Some (nr, w, None) \<and>
     sorted_wrt (<) (zero_time # watermark_times (signals_to 5 (w_sent w)))"
proof -
  obtain nr w where run: "handle_all sample_trace (Runtime_Start False (NewNodeRuntime (filter_config [0]))) quiet_world =
      Some (nr, w, None)" using sample_run by blast
  from output_watermarks_increase [OF filter_config_emitting _ run] run show ?thesis
    by (simp add: quiet_world_def signals_to_def)
qed

text \<open>
  Stop signals. A node whose inputs carry no barriers forwards no stop signal before all its
  inputs have stopped, and with the last of them forwards exactly one to each output.
\<close>

theorem stop_after_all_inputs:
  assumes "emitting_config out cfg" "signals_to out (w_sent w) = []" "barriers ims = []"
    and "handle_all ims (Runtime_Start pc (NewNodeRuntime cfg)) w = Some (nr', w', None)"
    and "stop_count (map im_Msg ims) \<le> max 1 (length (cfg_Inputs cfg))"
  shows "stop_count (signals_to out (w_sent w')) = (if stop_count (map im_Msg ims) = max 1 (length (cfg_Inputs cfg)) then 1 else 0)"
proof -
  have "\<not> ba_aligning (NewBarrierAligner (length (cfg_Inputs cfg)))" by (simp add: NewBarrierAligner_def)
  note signal_stream_stops [OF this assms(3), of "NewWatermarkHolder (int (length (cfg_Inputs cfg)))"
      "int (max 1 (length (cfg_Inputs cfg)))"]
  then show ?thesis
    using runtime_signals [OF assms(1,4)] assms(2,5) by (auto simp: initial_signals_def split: if_splits)
qed

theorem stop_after_all_inputs_witness:
  "\<exists>nr w. handle_all sample_trace (Runtime_Start False (NewNodeRuntime (filter_config [0]))) quiet_world = Some (nr, w, None) \<and>
     stop_count (signals_to 5 (w_sent w)) = 1"
proof -
  obtain nr w where run: "handle_all sample_trace (Runtime_Start False (NewNodeRuntime (filter_config [0]))) quiet_world =
      Some (nr, w, None)" using sample_run by blast
  have st: "stop_count (map im_Msg sample_trace) = 1" "barriers sample_trace = []"
    by (simp_all add: stop_count_def is_stop_def NewStopSignal_def NewWatermarkSignal_def barrier_of_def NewSignalMessage_def IsSignal_def)
  from stop_after_all_inputs [OF filter_config_emitting _ st(2) run] st(1) run show ?thesis
    by (simp add: quiet_world_def signals_to_def filter_config_def del: list.map)
qed

end
