(* ===== verification/Run_Loop.thy ===== *)
theory Run_Loop
  imports Signals "HOL-Library.Sublist"
begin

text \<open>
  The goroutines of a node's runtime, \<open>Start\<close>, \<open>run\<close> and \<open>waitForResume\<close> of
  \<open>internal/engine/runtime.go\<close>: one merger per input that moves messages from the input's buffer to
  the merged channel, and the main loop. A state has the program points of the goroutines; a step
  is one action of one of them, or of the environment (a message put into an input buffer, a control
  message, the cancellation of the parent context), and \<open>rt_exec ev st = None\<close> says that the action
  is not possible in \<open>st\<close>. Any interleaving is a list of actions. Handlers are atomic: they touch no
  state that another goroutine of the node changes. The control channel is never closed.
\<close>

section \<open>State\<close>

datatype 'u merger = MergerRecv | MergerHolds "'u Message" | MergerExited

text \<open>
  The points of the main loop: its head, the \<open>select\<close> (with a timer channel or without), inside
  \<open>waitForResume\<close> with the message received before, after the return and after a panic.
\<close>

datatype 'u loop_point = AtHead | AtSelect bool | Waiting "'u indexedMessage" | Exited | Panicked

text \<open>\<open>rt_sentTo\<close> and \<open>rt_taken\<close> are history variables: the messages put into the buffer of each input, and those the main loop has received.\<close>

record ('s, 'u) rt_state =
  rt_nr :: "('s, 'u) NodeRuntime"
  rt_w :: "'u World"
  rt_bufs :: "nat \<Rightarrow> 'u Message Buffer"
  rt_mergers :: "nat \<Rightarrow> 'u merger"
  rt_mergedClosed :: bool
  rt_point :: "'u loop_point"
  rt_sentTo :: "nat \<Rightarrow> 'u Message list"
  rt_taken :: "'u indexedMessage list"

definition cancelled :: "('s, 'u) NodeRuntime \<Rightarrow> bool" where
  "cancelled nr \<longleftrightarrow> nr_cancel nr = Some True"

definition ctx_Err :: "('s, 'u) NodeRuntime \<Rightarrow> error option" where
  "ctx_Err nr = (if cancelled nr then Some Canceled else None)"

definition start_state :: "bool \<Rightarrow> ('s, 'u) NodeRuntime \<Rightarrow> 'u World \<Rightarrow> (nat \<Rightarrow> 'u Message Buffer) \<Rightarrow> ('s, 'u) rt_state" where
  "start_state pc nr w bufs =
     \<lparr>rt_nr = Runtime_Start pc nr, rt_w = w, rt_bufs = bufs, rt_mergers = (\<lambda>_. MergerRecv), rt_mergedClosed = False,
      rt_point = AtHead, rt_sentTo = (\<lambda>i. b_ch (bufs i)), rt_taken = []\<rparr>"

section \<open>The main loop\<close>

text \<open>The deferred calls of \<open>run\<close>: the stop report, then the closing of \<open>done\<close>.\<close>

definition finish :: "('s, 'u) rt_state \<Rightarrow> ('s, 'u) rt_state" where
  "finish st =
     (let nr = rt_nr st;
          nr = nr\<lparr>nr_stoppedCh := map_option (\<lambda>rs. rs @ [\<lparr>ns_NodeID = Node_ID (nr_node nr)\<rparr>]) (nr_stoppedCh nr),
                  nr_done := True\<rparr>
      in st\<lparr>rt_nr := nr, rt_point := Exited\<rparr>)"

text \<open>After a handler: \<open>nr.err = err; return\<close> on an error, the next iteration otherwise.\<close>

definition loop_after :: "('s, 'u) rt_result \<Rightarrow> ('s, 'u) rt_state \<Rightarrow> ('s, 'u) rt_state" where
  "loop_after r st =
     (case r of
        None \<Rightarrow> st\<lparr>rt_point := Panicked\<rparr>
      | Some (nr, w, Some err) \<Rightarrow> finish (st\<lparr>rt_nr := nr\<lparr>nr_err := Some err\<rparr>, rt_w := w\<rparr>)
      | Some (nr, w, None) \<Rightarrow> st\<lparr>rt_nr := nr, rt_w := w, rt_point := AtHead\<rparr>)"

definition run_head :: "('s, 'u) rt_state \<Rightarrow> ('s, 'u) rt_state" where
  "run_head st =
     (case getTimerManager (nr_node (rt_nr st)) (rt_w st) of
        None \<Rightarrow> st\<lparr>rt_point := AtSelect False\<rparr>
      | Some tmr \<Rightarrow>
          (case timer_Peek tmr of
             None \<Rightarrow> st\<lparr>rt_point := AtSelect False\<rparr>
           | Some next_timer \<Rightarrow>
               (case Now (rt_w st) of (now, w) \<Rightarrow>
                  let d = te_FireAt next_timer - now
                  in if d \<le> 0 then
                       if \<not> isPaused (rt_nr st) then loop_after (fireExpiredTimers tmr (rt_nr st) w) st
                       else st\<lparr>rt_w := w\<rparr>
                     else st\<lparr>rt_w := w, rt_point := AtSelect True\<rparr>)))"

definition run_cancelled :: "('s, 'u) rt_state \<Rightarrow> ('s, 'u) rt_state" where
  "run_cancelled st = finish (st\<lparr>rt_nr := (rt_nr st)\<lparr>nr_err := ctx_Err (rt_nr st)\<rparr>\<rparr>)"

definition run_control :: "ControlMessage \<Rightarrow> ('s, 'u) rt_state \<Rightarrow> ('s, 'u) rt_state" where
  "run_control ctrl st =
     (case handleControl ctrl (rt_nr st) (rt_w st) of (nr, w) \<Rightarrow>
        let st = st\<lparr>rt_nr := nr, rt_w := w\<rparr>
        in if cm_Type ctrl = ControlTypeTerminate then finish st else st\<lparr>rt_point := AtHead\<rparr>)"

definition run_process :: "'u indexedMessage \<Rightarrow> ('s, 'u) rt_state \<Rightarrow> ('s, 'u) rt_state" where
  "run_process im st = loop_after (handleIndexedMessage im (rt_nr st) (rt_w st)) st"

definition run_merged :: "'u indexedMessage \<Rightarrow> ('s, 'u) rt_state \<Rightarrow> ('s, 'u) rt_state" where
  "run_merged im st = (if isPaused (rt_nr st) then st\<lparr>rt_point := Waiting im\<rparr> else run_process im st)"

text \<open>The loop goes on after \<open>waitForResume\<close> returned.\<close>

definition run_resumed :: "'u indexedMessage \<Rightarrow> ('s, 'u) rt_state \<Rightarrow> ('s, 'u) rt_state" where
  "run_resumed im st = (if cancelled (rt_nr st) then run_cancelled st else run_process im st)"

text \<open>A control message received inside \<open>waitForResume\<close>: only resume and terminate have an effect.\<close>

definition waitForResume_control :: "ControlMessage \<Rightarrow> 'u indexedMessage \<Rightarrow> ('s, 'u) rt_state \<Rightarrow> ('s, 'u) rt_state" where
  "waitForResume_control ctrl im st =
     (case cm_Type ctrl of
        ControlTypeResume \<Rightarrow> run_resumed im (st\<lparr>rt_nr := (rt_nr st)\<lparr>nr_paused := False\<rparr>\<rparr>)
      | ControlTypeTerminate \<Rightarrow> run_resumed im (st\<lparr>rt_nr := Runtime_Stop (rt_nr st)\<rparr>)
      | _ \<Rightarrow> st)"

definition run_timer :: "('s, 'u) rt_state \<Rightarrow> ('s, 'u) rt_state" where
  "run_timer st =
     (if isPaused (rt_nr st) then st\<lparr>rt_point := AtHead\<rparr>
      else case getTimerManager (nr_node (rt_nr st)) (rt_w st) of
             None \<Rightarrow> st\<lparr>rt_point := Panicked\<rparr>
           | Some tmr \<Rightarrow> loop_after (fireExpiredTimers tmr (rt_nr st) (rt_w st)) st)"

definition run_tick :: "('s, 'u) rt_state \<Rightarrow> ('s, 'u) rt_state" where
  "run_tick st =
     (if isPaused (rt_nr st) then st\<lparr>rt_point := AtHead\<rparr>
      else loop_after (with_node (rt_nr st) (Node_HandleTick (nr_node (rt_nr st)) (rt_w st))) st)"

section \<open>Actions\<close>

datatype 'u rt_event =
    LoopHead | LoopDone | LoopControl | LoopMerged | LoopTimer | LoopTick
  | WaitDone | WaitControl
  | MergerReceives nat bool | MergerPuts nat | MergerDone nat | MergedClose
  | EnvInput nat "'u Message" | EnvControl ControlMessage | EnvCancel

definition pop_control :: "('s, 'u) rt_state \<Rightarrow> (ControlMessage \<times> ('s, 'u) rt_state) option" where
  "pop_control st =
     (case nr_controlCh (rt_nr st) of
        [] \<Rightarrow> None
      | ctrl # ctrls \<Rightarrow> Some (ctrl, st\<lparr>rt_nr := (rt_nr st)\<lparr>nr_controlCh := ctrls\<rparr>\<rparr>))"

text \<open>
  The mergers: \<open>Recv\<close> with the runtime's context, then the send to the merged channel or the end of
  the context; and the goroutine that closes the channel after all of them. The environment's sends
  and control messages are those of \<open>Buffer\<close> and \<open>SendControl\<close>.
\<close>

definition is_input :: "nat \<Rightarrow> ('s, 'u) rt_state \<Rightarrow> bool" where
  "is_input i st \<longleftrightarrow> i < length (nr_inputs (rt_nr st))"

definition merger_receives :: "nat \<Rightarrow> bool \<Rightarrow> ('s, 'u) rt_state \<Rightarrow> ('s, 'u) rt_state option" where
  "merger_receives i pick st =
     (if is_input i st \<and> rt_mergers st i = MergerRecv then
        (case Buffer_Recv pick (ctx_Err (rt_nr st)) (rt_bufs st i) of
           RecvOk m b \<Rightarrow> Some (st\<lparr>rt_bufs := (rt_bufs st)(i := b), rt_mergers := (rt_mergers st)(i := MergerHolds m)\<rparr>)
         | RecvErr _ \<Rightarrow> Some (st\<lparr>rt_mergers := (rt_mergers st)(i := MergerExited)\<rparr>)
         | RecvBlocks \<Rightarrow> None)
      else None)"

definition merger_puts :: "nat \<Rightarrow> ('s, 'u) rt_state \<Rightarrow> ('s, 'u) rt_state option" where
  "merger_puts i st =
     (case (if is_input i st then rt_mergers st i else MergerExited) of
        MergerHolds m \<Rightarrow>
          (case nr_merged (rt_nr st) of
             Some ims \<Rightarrow>
               if int (length ims) < DefaultBufferCapacity then
                 Some (st\<lparr>rt_nr := (rt_nr st)\<lparr>nr_merged := Some (ims @ [\<lparr>im_InputIndex = i, im_Msg = m\<rparr>])\<rparr>,
                          rt_mergers := (rt_mergers st)(i := MergerRecv)\<rparr>)
               else None
           | None \<Rightarrow> None)
      | _ \<Rightarrow> None)"

definition merger_done :: "nat \<Rightarrow> ('s, 'u) rt_state \<Rightarrow> ('s, 'u) rt_state option" where
  "merger_done i st =
     (case (if is_input i st then rt_mergers st i else MergerExited) of
        MergerHolds m \<Rightarrow>
          if cancelled (rt_nr st) then Some (st\<lparr>rt_mergers := (rt_mergers st)(i := MergerExited)\<rparr>) else None
      | _ \<Rightarrow> None)"

definition close_merged :: "('s, 'u) rt_state \<Rightarrow> ('s, 'u) rt_state option" where
  "close_merged st =
     (if nr_inputs (rt_nr st) \<noteq> [] \<and> \<not> rt_mergedClosed st \<and>
         list_all (\<lambda>i. rt_mergers st i = MergerExited) [0..<length (nr_inputs (rt_nr st))]
      then Some (st\<lparr>rt_mergedClosed := True\<rparr>) else None)"

definition env_input :: "nat \<Rightarrow> 'u Message \<Rightarrow> ('s, 'u) rt_state \<Rightarrow> ('s, 'u) rt_state option" where
  "env_input i m st =
     (case Buffer_Send False None m (rt_bufs st i) of
        SendOk b \<Rightarrow> Some (st\<lparr>rt_bufs := (rt_bufs st)(i := b), rt_sentTo := (rt_sentTo st)(i := rt_sentTo st i @ [m])\<rparr>)
      | _ \<Rightarrow> None)"

definition env_control :: "ControlMessage \<Rightarrow> ('s, 'u) rt_state \<Rightarrow> ('s, 'u) rt_state option" where
  "env_control ctrl st =
     (case SendControl True None ctrl (rt_nr st) of
        ControlSent nr \<Rightarrow> Some (st\<lparr>rt_nr := nr\<rparr>)
      | _ \<Rightarrow> None)"

primrec rt_exec :: "'u rt_event \<Rightarrow> ('s, 'u) rt_state \<Rightarrow> ('s, 'u) rt_state option" where
  "rt_exec (MergerReceives i pick) st = merger_receives i pick st"
| "rt_exec (MergerPuts i) st = merger_puts i st"
| "rt_exec (MergerDone i) st = merger_done i st"
| "rt_exec MergedClose st = close_merged st"
| "rt_exec (EnvInput i m) st = env_input i m st"
| "rt_exec (EnvControl c) st = env_control c st"
| "rt_exec EnvCancel st = Some (st\<lparr>rt_nr := Runtime_Stop (rt_nr st)\<rparr>)"
| "rt_exec LoopHead st = (if rt_point st = AtHead then Some (run_head st) else None)"
| "rt_exec LoopDone st =
     (case rt_point st of AtSelect _ \<Rightarrow> if cancelled (rt_nr st) then Some (run_cancelled st) else None | _ \<Rightarrow> None)"
| "rt_exec LoopControl st =
     (case rt_point st of AtSelect _ \<Rightarrow> map_option (\<lambda>(ctrl, st). run_control ctrl st) (pop_control st) | _ \<Rightarrow> None)"
| "rt_exec LoopMerged st =
     (case rt_point st of
        AtSelect _ \<Rightarrow>
          (case nr_merged (rt_nr st) of
             None \<Rightarrow> None
           | Some [] \<Rightarrow> if rt_mergedClosed st then Some (finish st) else None
           | Some (im # ims) \<Rightarrow>
               Some (run_merged im (st\<lparr>rt_nr := (rt_nr st)\<lparr>nr_merged := Some ims\<rparr>, rt_taken := rt_taken st @ [im]\<rparr>)))
      | _ \<Rightarrow> None)"
| "rt_exec LoopTimer st = (if rt_point st = AtSelect True then Some (run_timer st) else None)"
| "rt_exec LoopTick st =
     (case rt_point st of AtSelect _ \<Rightarrow> if 0 < nr_tickInterval (rt_nr st) then Some (run_tick st) else None | _ \<Rightarrow> None)"
| "rt_exec WaitDone st =
     (case rt_point st of Waiting im \<Rightarrow> if cancelled (rt_nr st) then Some (run_resumed im st) else None | _ \<Rightarrow> None)"
| "rt_exec WaitControl st =
     (case rt_point st of
        Waiting im \<Rightarrow> map_option (\<lambda>(ctrl, st). waitForResume_control ctrl im st) (pop_control st)
      | _ \<Rightarrow> None)"

primrec rt_run :: "'u rt_event list \<Rightarrow> ('s, 'u) rt_state \<Rightarrow> ('s, 'u) rt_state option" where
  "rt_run [] st = Some st"
| "rt_run (ev # evs) st = (case rt_exec ev st of None \<Rightarrow> None | Some st \<Rightarrow> rt_run evs st)"

section \<open>What handlers leave alone\<close>

text \<open>Handlers of messages, timers and ticks change neither the channels nor the life cycle of the runtime.\<close>

definition rt_frame :: "('s, 'u) NodeRuntime \<Rightarrow>
  nat list \<times> nat list \<times> ControlMessage list \<times> nat \<times> duration \<times> 'u indexedMessage list option \<times> bool \<times>
  NodeStopped list option \<times> 'u errorHandler option \<times> bool" where
  "rt_frame nr = (nr_inputs nr, nr_outputs nr, nr_controlCh nr, nr_controlCap nr, nr_tickInterval nr, nr_merged nr,
     nr_paused nr, nr_stoppedCh nr, nr_onError nr, nr_done nr)"

named_theorems frames

lemma frame_with_node [frames]:
  "with_node nr r = Some (nr', w', err) \<Longrightarrow> rt_frame nr' = rt_frame nr"
  by (auto simp: with_node_def rt_frame_def)

lemma frame_barrier [frames]:
  "handleAlignedBarrier b nr w = (nr', w', err) \<Longrightarrow> rt_frame nr' = rt_frame nr"
  by (auto simp: handleAlignedBarrier_def report_completion_def Runtime_Stop_def rt_frame_def Let_def
      split: prod.splits sum.splits option.splits if_splits)

lemma frame_drain [frames]: "drainIfDrainable nr w = (nr', w') \<Longrightarrow> rt_frame nr' = rt_frame nr"
  by (auto simp: drainIfDrainable_def rt_frame_def Let_def split: Node.splits option.splits prod.splits if_splits)

lemma frame_signal [frames]:
  assumes "handleSignal msg sig nr w = (nr', w', err)"
  shows "rt_frame nr' = rt_frame nr"
proof (cases "sm_SignalType sig")
  case SignalTypeStop
  define nr1 where "nr1 = nr\<lparr>nr_activeInputs := nr_activeInputs nr - 1\<rparr>"
  obtain nr2 w2 where dr: "drainIfDrainable nr1 w = (nr2, w2)" by fastforce
  have "rt_frame nr2 = rt_frame nr1" by (rule frame_drain [OF dr])
  with SignalTypeStop assms dr show ?thesis
    by (auto simp: handleSignal_def Runtime_Stop_def rt_frame_def nr1_def Let_def split: option.splits prod.splits if_splits)
qed (use assms frame_barrier in \<open>auto simp: handleSignal_def split: option.splits\<close>)

lemma frame_message [frames]:
  assumes "handleMessage msg nr w = Some (nr', w', err)"
  shows "rt_frame nr' = rt_frame nr"
proof (cases "IsData msg")
  case True
  then obtain d where "m_Data msg = Some d" using assms by (auto simp: handleMessage_def split: option.splits)
  with True assms frame_with_node [of nr "Node_ProcessMessage d (nr_node nr) w"] show ?thesis
    by (auto simp: handleMessage_def split: option.splits)
next
  case False
  with assms frame_signal [of msg _ nr w nr' w' err] show ?thesis
    by (auto simp: handleMessage_def split: option.splits if_splits)
qed

lemma frame_released [frames]:
  "process_released msgs nr w = Some (nr', w', err) \<Longrightarrow> rt_frame nr' = rt_frame nr"
proof (induction msgs arbitrary: nr w)
  case (Cons m ms)
  then show ?case
    using frame_message [of m nr w] by (auto split: option.splits)
qed simp

lemma frame_watermark [frames]:
  assumes "handleIndexedWatermark i wm nr w = Some (nr', w', err)"
  shows "rt_frame nr' = rt_frame nr"
proof -
  obtain adv wh where u: "Watermark_Update (int i) wm (nr_watermarks nr) = (adv, wh)" by fastforce
  define nr1 where "nr1 = nr\<lparr>nr_watermarks := wh\<rparr>"
  have "rt_frame nr1 = rt_frame nr" by (simp add: nr1_def rt_frame_def)
  with assms u frame_with_node [of nr1] show ?thesis
    by (auto simp: handleIndexedWatermark_def nr1_def [symmetric] Let_def split: option.splits prod.splits)
qed

lemma frame_indexed [frames]:
  assumes "handleIndexedMessage im nr w = Some (nr', w', err)"
  shows "rt_frame nr' = rt_frame nr"
proof (cases "watermark_of (im_Msg im)")
  case (Some wm)
  with assms frame_watermark show ?thesis by (simp add: handleIndexedMessage_def) blast
next
  case None
  obtain rel al ba where om: "OnMessage im (nr_aligner nr) = (rel, al, ba)" by (metis prod_cases3)
  define nr1 where "nr1 = nr\<lparr>nr_aligner := ba\<rparr>"
  obtain nr2 w2 e2 where pr: "process_released rel nr1 w = Some (nr2, w2, e2)"
    using assms None om by (auto simp: handleIndexedMessage_def nr1_def split: option.splits)
  have "rt_frame nr2 = rt_frame nr" using frame_released [OF pr] by (simp add: nr1_def rt_frame_def)
  with assms None om pr frame_barrier [of _ nr2 w2 nr' w' err] show ?thesis
    by (auto simp: handleIndexedMessage_def nr1_def [symmetric] split: option.splits)
qed

lemma frame_timers [frames]:
  "handle_timers ts nr w = Some (nr', w', err) \<Longrightarrow> rt_frame nr' = rt_frame nr"
proof (induction ts arbitrary: nr w)
  case (Cons t ts)
  then show ?case
    using frame_with_node [of nr "Node_HandleTimer (te_Name t) (te_FireAt t) (nr_node nr) w"]
    by (auto split: option.splits)
qed simp

lemma frame_fire [frames]:
  "fireExpiredTimers tmr nr w = Some (nr', w', err) \<Longrightarrow> rt_frame nr' = rt_frame nr"
  using frame_timers by (auto simp: fireExpiredTimers_def split: prod.splits)

text \<open>
  A move of the main loop: it changes the node, the world and its own point, and either goes on or
  returns through the deferred calls; the channels of the mergers and the stop reports stay.
\<close>

definition loop_core :: "('s, 'u) NodeRuntime \<Rightarrow> nat list \<times> 'u indexedMessage list option \<times> NodeStopped list option \<times> bool" where
  "loop_core nr = (nr_inputs nr, nr_merged nr, nr_stoppedCh nr, nr_done nr)"

definition loop_move :: "('s, 'u) rt_state \<Rightarrow> ('s, 'u) rt_state \<Rightarrow> bool" where
  "loop_move st st' \<longleftrightarrow>
     (\<exists>nr w. loop_core nr = loop_core (rt_nr st) \<and>
        ((\<exists>p. p \<noteq> Exited \<and> st' = st\<lparr>rt_nr := nr, rt_w := w, rt_point := p\<rparr>) \<or> st' = finish (st\<lparr>rt_nr := nr, rt_w := w\<rparr>)))"

lemma loop_move_on:
  "loop_core nr = loop_core (rt_nr st) \<Longrightarrow> p \<noteq> Exited \<Longrightarrow> loop_move st (st\<lparr>rt_nr := nr, rt_w := w, rt_point := p\<rparr>)"
  unfolding loop_move_def by blast

lemma loop_move_finish:
  "loop_core nr = loop_core (rt_nr st) \<Longrightarrow> loop_move st (finish (st\<lparr>rt_nr := nr, rt_w := w\<rparr>))"
  unfolding loop_move_def by blast

lemma frame_core: "rt_frame nr = rt_frame nr' \<Longrightarrow> loop_core nr = loop_core nr'"
  by (simp add: rt_frame_def loop_core_def)

lemma loop_move_trans_nr:
  assumes "loop_move (st\<lparr>rt_nr := nr, rt_w := w\<rparr>) st'" "loop_core nr = loop_core (rt_nr st)"
  shows "loop_move st st'"
  using assms unfolding loop_move_def by auto

lemma loop_move_point:
  "p \<noteq> Exited \<Longrightarrow> loop_move st (st\<lparr>rt_point := p\<rparr>)" "p \<noteq> Exited \<Longrightarrow> loop_move st (st\<lparr>rt_w := w, rt_point := p\<rparr>)"
  using loop_move_on [of "rt_nr st" st p "rt_w st"] loop_move_on [of "rt_nr st" st p w] by simp_all

lemma loop_after_move:
  assumes "\<And>nr' w' err. r = Some (nr', w', err) \<Longrightarrow> rt_frame nr' = rt_frame (rt_nr st)"
  shows "loop_move st (loop_after r st)"
proof (cases r)
  case None
  then show ?thesis by (simp add: loop_after_def loop_move_point)
next
  case (Some x)
  obtain nr w err where x: "r = Some (nr, w, err)" using Some by (cases x) auto
  note core = frame_core [OF assms [OF x]]
  show ?thesis
  proof (cases err)
    case None
    with x loop_move_on [OF core] show ?thesis by (simp add: loop_after_def)
  next
    case (Some e)
    have "loop_core (nr\<lparr>nr_err := Some e\<rparr>) = loop_core (rt_nr st)" using core by (simp add: loop_core_def)
    from loop_move_finish [OF this] x Some show ?thesis by (simp add: loop_after_def)
  qed
qed

lemma run_process_move: "loop_move st (run_process im st)"
  unfolding run_process_def by (rule loop_after_move) (rule frames)

lemma run_merged_move: "loop_move st (run_merged im st)"
  by (simp add: run_merged_def loop_move_point run_process_move)

lemma run_cancelled_move: "loop_move st (run_cancelled st)"
proof -
  have "loop_core ((rt_nr st)\<lparr>nr_err := ctx_Err (rt_nr st)\<rparr>) = loop_core (rt_nr st)" by (simp add: loop_core_def)
  from loop_move_finish [OF this, of "rt_w st"] show ?thesis by (simp add: run_cancelled_def)
qed

lemma run_resumed_move: "loop_move st (run_resumed im st)"
  by (simp add: run_resumed_def run_cancelled_move run_process_move)

lemma run_head_move:
  assumes "rt_point st = AtHead"
  shows "loop_move st (run_head st)"
proof (cases "getTimerManager (nr_node (rt_nr st)) (rt_w st)")
  case None
  then show ?thesis by (simp add: run_head_def loop_move_point)
next
  case (Some tmr)
  show ?thesis
  proof (cases "timer_Peek tmr")
    case None
    with Some show ?thesis by (simp add: run_head_def loop_move_point)
  next
    case p: (Some t)
    have stay: "st\<lparr>rt_w := w\<rparr> = st\<lparr>rt_w := w, rt_point := AtHead\<rparr>" for w using assms by (cases st) simp
    obtain now w where nw: "Now (rt_w st) = (now, w)" by fastforce
    have "loop_move st (loop_after (fireExpiredTimers tmr (rt_nr st) w) st)"
      by (rule loop_after_move) (rule frames)
    moreover have "loop_move st (st\<lparr>rt_w := w\<rparr>)" 
      using loop_move_point(2) [of AtHead st w] by (simp only: stay [of w, symmetric] loop_point.distinct not_False_eq_True simp_thms)
    ultimately show ?thesis
      using Some p nw by (simp add: run_head_def loop_move_point Let_def)
  qed
qed

lemma run_timer_move: "loop_move st (run_timer st)"
proof -
  have "loop_move st (loop_after (fireExpiredTimers tmr (rt_nr st) (rt_w st)) st)" for tmr
    by (rule loop_after_move) (rule frames)
  then show ?thesis by (simp add: run_timer_def loop_move_point split: option.splits)
qed

lemma run_tick_move: "loop_move st (run_tick st)"
proof -
  have "loop_move st (loop_after (with_node (rt_nr st) (Node_HandleTick (nr_node (rt_nr st)) (rt_w st))) st)"
    by (rule loop_after_move) (rule frames)
  then show ?thesis by (simp add: run_tick_def loop_move_point)
qed

lemma control_core: "handleControl ctrl nr w = (nr', w') \<Longrightarrow> loop_core nr' = loop_core nr"
  by (auto simp: handleControl_def loop_core_def report_completion_def Runtime_Stop_def Let_def
      split: ControlType.splits option.splits prod.splits if_splits)

lemma run_control_move: "loop_move st (run_control ctrl st)"
proof -
  obtain nr w where h: "handleControl ctrl (rt_nr st) (rt_w st) = (nr, w)" by fastforce
  note c = control_core [OF h]
  show ?thesis
    using h loop_move_finish [OF c] loop_move_on [OF c, of AtHead] by (simp add: run_control_def Let_def)
qed

lemma wait_control_move:
  assumes "rt_point st = Waiting im"
  shows "loop_move st (waitForResume_control ctrl im st)"
proof -
  have res: "loop_core nr = loop_core (rt_nr st) \<Longrightarrow> loop_move st (run_resumed im (st\<lparr>rt_nr := nr\<rparr>))" for nr
    using loop_move_trans_nr [where nr = nr and w = "rt_w st" and st = st] run_resumed_move [where st = "st\<lparr>rt_nr := nr\<rparr>" and im = im] by simp
  have stay: "loop_move st st"
    using loop_move_point(1) [of "Waiting im" st] assms by (cases st) simp
  show ?thesis
    unfolding waitForResume_control_def
    by (cases "cm_Type ctrl") (simp_all add: stay res loop_core_def Runtime_Stop_def)
qed

section \<open>The steps, by what they do to the channels\<close>

definition take_im :: "'u indexedMessage \<Rightarrow> 'u indexedMessage list \<Rightarrow> ('s, 'u) rt_state \<Rightarrow> ('s, 'u) rt_state" where
  "take_im im ims st = st\<lparr>rt_nr := (rt_nr st)\<lparr>nr_merged := Some ims\<rparr>, rt_taken := rt_taken st @ [im]\<rparr>"

lemma pop_control_move:
  assumes "pop_control st = Some (ctrl, st1)" "\<And>st. rt_point st = p \<Longrightarrow> loop_move st (f st)" "rt_point st = p"
  shows "loop_move st (f st1)"
proof -
  obtain ctrls where st1: "st1 = st\<lparr>rt_nr := (rt_nr st)\<lparr>nr_controlCh := ctrls\<rparr>, rt_w := rt_w st\<rparr>"
    using assms(1) by (auto simp: pop_control_def split: list.splits)
  show ?thesis
  proof (rule loop_move_trans_nr)
    show "loop_move (st\<lparr>rt_nr := (rt_nr st)\<lparr>nr_controlCh := ctrls\<rparr>, rt_w := rt_w st\<rparr>) (f st1)"
      using assms(2) [of st1] assms(3) st1 by simp
  qed (simp add: loop_core_def)
qed

lemma finish_move: "loop_move st (finish st)"
  using loop_move_finish [of "rt_nr st" st "rt_w st"] by simp

lemma pop_run_control: "pop_control st = Some (ctrl, st1) \<Longrightarrow> loop_move st (run_control ctrl st1)"
  by (erule pop_control_move [where f = "run_control ctrl" and p = "rt_point st"]) (simp_all add: run_control_move)

lemma pop_wait_control:
  "pop_control st = Some (ctrl, st1) \<Longrightarrow> rt_point st = Waiting im \<Longrightarrow> loop_move st (waitForResume_control ctrl im st1)"
  by (erule pop_control_move [where f = "waitForResume_control ctrl im" and p = "Waiting im"]) (simp_all add: wait_control_move)

text \<open>Every step of the main loop is a move, possibly after it took a message from the merged channel.\<close>

lemma rt_exec_loop:
  assumes "rt_exec ev st = Some st'" "ev \<in> {LoopHead, LoopDone, LoopControl, LoopMerged, LoopTimer, LoopTick, WaitDone, WaitControl}"
  shows "rt_point st \<noteq> Exited \<and> rt_point st \<noteq> Panicked \<and>
    (loop_move st st' \<or> (\<exists>im ims. nr_merged (rt_nr st) = Some (im # ims) \<and> loop_move (take_im im ims st) st'))"
  using assms
  by (auto simp: run_head_move run_cancelled_move run_timer_move run_tick_move run_resumed_move run_merged_move finish_move
      take_im_def [symmetric] pop_run_control pop_wait_control
      split: if_splits loop_point.splits option.splits list.splits)

section \<open>The stop report\<close>

definition stop_inv :: "('s, 'u) rt_state \<Rightarrow> bool" where
  "stop_inv st \<longleftrightarrow> (nr_done (rt_nr st) \<longleftrightarrow> rt_point st = Exited) \<and>
     map_option length (nr_stoppedCh (rt_nr st)) = Some (if rt_point st = Exited then 1 else 0)"

lemma stop_inv_move:
  assumes "loop_move st st'" "stop_inv st" "rt_point st \<noteq> Exited"
  shows "stop_inv st'"
  using assms by (auto simp: loop_move_def stop_inv_def loop_core_def finish_def Let_def)

lemma stop_inv_step:
  assumes "stop_inv st" "rt_exec ev st = Some st'"
  shows "stop_inv st'"
proof (cases "ev \<in> {LoopHead, LoopDone, LoopControl, LoopMerged, LoopTimer, LoopTick, WaitDone, WaitControl}")
  case True
  have "stop_inv (take_im im ims st)" for im ims using assms(1) by (simp add: stop_inv_def take_im_def)
  with rt_exec_loop [OF assms(2) True] assms(1) show ?thesis
    by (auto intro: stop_inv_move simp: take_im_def)
next
  case False
  with assms show ?thesis
    by (cases ev) (auto simp: merger_receives_def merger_puts_def merger_done_def close_merged_def env_input_def env_control_def
        SendControl_def Runtime_Stop_def stop_inv_def Let_def
        split: if_splits option.splits merger.splits recv_outcome.splits send_outcome.splits control_outcome.splits)
qed

lemma rt_run_induct:
  assumes "rt_run evs st = Some st'" "P st" "\<And>ev st st'. P st \<Longrightarrow> rt_exec ev st = Some st' \<Longrightarrow> P st'"
  shows "P st'"
  using assms(1,2)
proof (induction evs arbitrary: st)
  case (Cons ev evs)
  then show ?case using assms(3) by (auto split: option.splits)
qed simp


lemmas step_eval = env_input_def env_control_def merger_receives_def merger_puts_def is_input_def run_head_def
  run_merged_def run_cancelled_def run_resumed_def waitForResume_control_def pop_control_def finish_def Runtime_Stop_def
  Buffer_Send_def Buffer_Recv_def NewBuffer_def SendControl_def DefaultBufferCapacity_def timer_Peek_def Now_def
  NewTerminateControl_def NewResumeControl_def Let_def

lemmas start_eval = start_state_def NewNodeRuntime_def Runtime_Start_def NewOperatorNode_def BaseOperator_def quiet_world_def
  isPaused_def cancelled_def ctx_Err_def

definition sample_state :: "(nat, unit) rt_state" where
  "sample_state = start_state False (NewNodeRuntime (pass_config\<lparr>cfg_StoppedCh := Some []\<rparr>)) quiet_world (\<lambda>_. NewBuffer 0)"

abbreviation sample_events :: "unit rt_event list" where
  "sample_events \<equiv> [EnvInput 0 (NewDataMessage ''k'' AnyNil 0), MergerReceives 0 False, MergerPuts 0, LoopHead,
     EnvInput 0 (NewDataMessage ''l'' AnyNil 0), EnvCancel, LoopDone]"

lemma sample_run_exits: "\<exists>st. rt_run sample_events sample_state = Some st \<and> rt_point st = Exited \<and> rt_mergers st 0 = MergerRecv"
  by (simp add: sample_state_def pass_config_def counting_def OperatorNode_SetOutputs_def start_eval step_eval)


section \<open>The order of the messages of an input\<close>

definition of_input :: "nat \<Rightarrow> 'u indexedMessage list \<Rightarrow> 'u Message list" where
  "of_input i ims = map im_Msg (filter (\<lambda>im. im_InputIndex im = i) ims)"

definition in_channel :: "('s, 'u) rt_state \<Rightarrow> 'u indexedMessage list" where
  "in_channel st = (case nr_merged (rt_nr st) of None \<Rightarrow> [] | Some ims \<Rightarrow> ims)"

text \<open>The messages between the buffer of an input and the merged channel.\<close>

definition held :: "'u merger \<Rightarrow> 'u Message list" where
  "held m = (case m of MergerHolds x \<Rightarrow> [x] | _ \<Rightarrow> [])"

definition fifo :: "nat \<Rightarrow> ('s, 'u) rt_state \<Rightarrow> bool" where
  "fifo i st \<longleftrightarrow>
     prefix (of_input i (rt_taken st @ in_channel st)) (rt_sentTo st i) \<and>
     (rt_mergers st i \<noteq> MergerExited \<longrightarrow>
        rt_sentTo st i = of_input i (rt_taken st @ in_channel st) @ held (rt_mergers st i) @ b_ch (rt_bufs st i))"

lemma fifo_move: "loop_move st st' \<Longrightarrow> fifo i st' = fifo i st"
  by (auto simp: loop_move_def fifo_def in_channel_def loop_core_def finish_def Let_def)

lemma fifo_take: "nr_merged (rt_nr st) = Some (im # ims) \<Longrightarrow> fifo i (take_im im ims st) = fifo i st"
  by (simp add: fifo_def take_im_def in_channel_def)

lemma of_input_append [simp]: "of_input i (xs @ ys) = of_input i xs @ of_input i ys"
  by (simp add: of_input_def)

lemma of_input_single [simp]: "of_input i [\<lparr>im_InputIndex = j, im_Msg = m\<rparr>] = (if i = j then [m] else [])"
  by (simp add: of_input_def)

lemma fifo_receives:
  assumes "fifo i st" "merger_receives j pick st = Some st'"
  shows "fifo i st'"
proof -
  have j: "rt_mergers st j = MergerRecv" using assms(2) by (auto simp: merger_receives_def split: if_splits)
  consider m b where "Buffer_Recv pick (ctx_Err (rt_nr st)) (rt_bufs st j) = RecvOk m b"
      "st' = st\<lparr>rt_bufs := (rt_bufs st)(j := b), rt_mergers := (rt_mergers st)(j := MergerHolds m)\<rparr>"
    | "st' = st\<lparr>rt_mergers := (rt_mergers st)(j := MergerExited)\<rparr>"
    using assms(2) by (auto simp: merger_receives_def split: if_splits recv_outcome.splits)
  then show ?thesis
  proof cases
    case 1
    have "b_ch (rt_bufs st j) = m # b_ch b" by (rule conjunct1 [OF Buffer_Recv_Ok [OF 1(1)]])
    with assms(1) j 1(2) show ?thesis by (cases "i = j") (simp_all add: fifo_def in_channel_def held_def)
  next
    case 2
    with assms(1) j show ?thesis by (simp add: fifo_def in_channel_def)
  qed
qed

lemma fifo_puts:
  assumes "fifo i st" "merger_puts j st = Some st'"
  shows "fifo i st'"
proof -
  obtain m ims where "rt_mergers st j = MergerHolds m" "nr_merged (rt_nr st) = Some ims"
    "st' = st\<lparr>rt_nr := (rt_nr st)\<lparr>nr_merged := Some (ims @ [\<lparr>im_InputIndex = j, im_Msg = m\<rparr>])\<rparr>,
              rt_mergers := (rt_mergers st)(j := MergerRecv)\<rparr>"
    using assms(2) by (auto simp: merger_puts_def split: if_splits option.splits merger.splits)
  with assms(1) show ?thesis by (auto simp: fifo_def in_channel_def held_def)
qed

lemma fifo_done:
  assumes "fifo i st" "merger_done j st = Some st'"
  shows "fifo i st'"
proof -
  obtain m where "rt_mergers st j = MergerHolds m" "st' = st\<lparr>rt_mergers := (rt_mergers st)(j := MergerExited)\<rparr>"
    using assms(2) by (auto simp: merger_done_def split: if_splits merger.splits)
  with assms(1) show ?thesis by (simp add: fifo_def in_channel_def)
qed

lemma fifo_input:
  assumes "fifo i st" "env_input j m st = Some st'"
  shows "fifo i st'"
proof -
  obtain b where b: "Buffer_Send False None m (rt_bufs st j) = SendOk b"
    "st' = st\<lparr>rt_bufs := (rt_bufs st)(j := b), rt_sentTo := (rt_sentTo st)(j := rt_sentTo st j @ [m])\<rparr>"
    using assms(2) by (auto simp: env_input_def split: send_outcome.splits)
  from Buffer_Send_Ok [OF b(1)] have "b_ch b = b_ch (rt_bufs st j) @ [m]" by simp
  with assms(1) b(2) show ?thesis by (cases "i = j") (auto simp: fifo_def in_channel_def)
qed

lemma fifo_step:
  assumes "fifo i st" "rt_exec ev st = Some st'"
  shows "fifo i st'"
proof (cases "ev \<in> {LoopHead, LoopDone, LoopControl, LoopMerged, LoopTimer, LoopTick, WaitDone, WaitControl}")
  case True
  with rt_exec_loop [OF assms(2) True] assms(1) show ?thesis
    using fifo_move fifo_take by blast
next
  case False
  show ?thesis
  proof (cases ev)
    case (EnvControl c)
    with assms show ?thesis
      by (auto simp: env_control_def SendControl_def fifo_def in_channel_def Let_def split: if_splits)
  next
    case MergedClose
    with assms show ?thesis by (auto simp: close_merged_def fifo_def in_channel_def split: if_splits)
  next
    case EnvCancel
    with assms show ?thesis by (auto simp: Runtime_Stop_def fifo_def in_channel_def)
  qed (use False assms fifo_receives fifo_puts fifo_done fifo_input in simp_all)
qed

text \<open>
  The inputs of a node are FIFO through the mergers and the merged channel. In every
  interleaving, what the main loop has received from an input is a prefix of what was put into its
  buffer, in the same order; and while the input's merger runs nothing is lost: what was put in is
  what the loop received, then what waits in the merged channel, then what the merger holds, then
  what is in the buffer.
\<close>

theorem input_fifo:
  assumes "rt_run evs (start_state pc (NewNodeRuntime cfg) w bufs) = Some st" "i < length (cfg_Inputs cfg)"
  shows "prefix (of_input i (rt_taken st)) (rt_sentTo st i) \<and>
    (rt_mergers st i \<noteq> MergerExited \<longrightarrow>
       rt_sentTo st i = of_input i (rt_taken st) @ of_input i (in_channel st) @ held (rt_mergers st i) @ b_ch (rt_bufs st i))"
proof -
  have "fifo i st"
    using assms(1)
  proof (rule rt_run_induct)
    show "fifo i (start_state pc (NewNodeRuntime cfg) w bufs)"
      using assms(2)
      by (simp add: fifo_def start_state_def in_channel_def held_def Runtime_Start_def NewNodeRuntime_def of_input_def Let_def)
  qed (rule fifo_step)
  then show ?thesis by (auto simp: fifo_def dest: append_prefixD)
qed

theorem input_fifo_witness:
  "\<exists>st. rt_run sample_events sample_state = Some st \<and>
     rt_sentTo st 0 = of_input 0 (rt_taken st) @ of_input 0 (in_channel st) @ held (rt_mergers st 0) @ b_ch (rt_bufs st 0)"
proof -
  obtain st where st: "rt_run sample_events sample_state = Some st" "rt_mergers st 0 = MergerRecv"
    using sample_run_exits by blast
  from input_fifo [OF st(1) [unfolded sample_state_def], of 0] st show ?thesis by (simp add: pass_config_def)
qed

section \<open>Pausing\<close>

text \<open>Control messages that neither resume a node nor ask it for a checkpoint.\<close>

definition quiet_control :: "ControlMessage \<Rightarrow> bool" where
  "quiet_control c \<longleftrightarrow> cm_Type c \<in> {ControlTypePause, ControlTypeTerminate}"

definition quiet_event :: "'u rt_event \<Rightarrow> bool" where
  "quiet_event ev \<longleftrightarrow> (case ev of EnvControl c \<Rightarrow> quiet_control c | _ \<Rightarrow> True)"

text \<open>What a paused node keeps: its pause, its node, its outputs and its reports.\<close>

definition resting :: "('s, 'u) Node \<Rightarrow> (nat \<times> 'u Message) list \<Rightarrow> NodeCompletion list option \<Rightarrow> ('s, 'u) rt_state \<Rightarrow> bool" where
  "resting n log cs st \<longleftrightarrow> isPaused (rt_nr st) \<and> nr_cancel (rt_nr st) \<noteq> None \<and>
     list_all quiet_control (nr_controlCh (rt_nr st)) \<and> nr_node (rt_nr st) = n \<and> w_sent (rt_w st) = log \<and>
     nr_completionCh (rt_nr st) = cs"

lemma resting_simps [simp]:
  "resting n log cs (st\<lparr>rt_point := p\<rparr>) = resting n log cs st"
  "resting n log cs (finish st) = resting n log cs st"
  "resting n log cs (run_cancelled st) = resting n log cs st"
  by (simp_all add: resting_def finish_def run_cancelled_def isPaused_def Let_def)

lemma resting_head: "resting n log cs st \<Longrightarrow> resting n log cs (run_head st)"
  by (auto simp: run_head_def resting_def Now_def Let_def split: option.splits)

lemma resting_pop:
  assumes "resting n log cs st" "pop_control st = Some (ctrl, st1)"
  shows "resting n log cs st1 \<and> quiet_control ctrl"
  using assms by (auto simp: pop_control_def resting_def isPaused_def split: list.splits)

lemma resting_control:
  assumes "resting n log cs st" "quiet_control ctrl"
  shows "resting n log cs (run_control ctrl st)" "resting n log cs (waitForResume_control ctrl im st)"
proof -
  have p: "(rt_nr st)\<lparr>nr_paused := True\<rparr> = rt_nr st"
    using assms(1) by (cases "rt_nr st") (simp add: resting_def isPaused_def)
  show "resting n log cs (run_control ctrl st)"
    using assms p by (auto simp: quiet_control_def run_control_def handleControl_def Let_def)
  have "resting n log cs (st\<lparr>rt_nr := Runtime_Stop (rt_nr st)\<rparr>)" "cancelled (Runtime_Stop (rt_nr st))"
    using assms(1) by (auto simp: resting_def Runtime_Stop_def isPaused_def cancelled_def)
  then show "resting n log cs (waitForResume_control ctrl im st)"
    using assms by (auto simp: quiet_control_def waitForResume_control_def run_resumed_def)
qed

lemma resting_step:
  assumes "resting n log cs st" "quiet_event ev" "rt_exec ev st = Some st'"
  shows "resting n log cs st'"
proof -
  have paused: "isPaused (rt_nr st)" using assms(1) by (simp add: resting_def)
  have take: "resting n log cs (take_im im ims st)" for im ims using assms(1) by (simp add: resting_def take_im_def isPaused_def)
  show ?thesis
  proof (cases ev)
    case LoopHead
    with assms resting_head show ?thesis by (auto split: if_splits)
  next
    case LoopControl
    with assms(3) obtain c st1 where "pop_control st = Some (c, st1)" "st' = run_control c st1"
      by (auto split: loop_point.splits)
    with resting_pop [OF assms(1)] resting_control(1) show ?thesis by blast
  next
    case WaitControl
    with assms(3) obtain c st1 im where "pop_control st = Some (c, st1)" "st' = waitForResume_control c im st1"
      by (auto split: loop_point.splits)
    with resting_pop [OF assms(1)] resting_control(2) show ?thesis by blast
  next
    case LoopMerged
    with assms(1,3) paused take show ?thesis
      by (auto simp: run_merged_def isPaused_def take_im_def [symmetric] split: loop_point.splits option.splits list.splits if_splits)
        (auto simp: take_im_def isPaused_def)
  next
    case LoopDone
    with assms show ?thesis by (auto split: loop_point.splits if_splits)
  next
    case LoopTimer
    with assms paused show ?thesis by (auto simp: run_timer_def split: if_splits)
  next
    case LoopTick
    with assms paused show ?thesis by (auto simp: run_tick_def split: loop_point.splits if_splits)
  next
    case WaitDone
    with assms show ?thesis by (auto simp: run_resumed_def split: loop_point.splits if_splits)
  next
    case (EnvControl c)
    with assms show ?thesis
      by (auto simp: env_control_def SendControl_def quiet_event_def resting_def isPaused_def Let_def split: if_splits)
  next
    case EnvCancel
    with assms show ?thesis by (auto simp: Runtime_Stop_def resting_def isPaused_def)
  qed (use assms in \<open>auto simp: merger_receives_def merger_puts_def merger_done_def close_merged_def env_input_def resting_def isPaused_def
      split: if_splits option.splits merger.splits recv_outcome.splits send_outcome.splits\<close>)
qed

lemma resting_run:
  "resting n log cs st \<Longrightarrow> list_all quiet_event evs \<Longrightarrow> rt_run evs st = Some st' \<Longrightarrow> resting n log cs st'"
  by (induction evs arbitrary: st) (auto split: option.splits dest: resting_step)

text \<open>
  A paused node is at rest. From the moment it is paused until a resume or a checkpoint request
  reaches it, in any interleaving with its mergers and its environment, it sends nothing, reports no
  checkpoint and does not touch the state of its operator; a message it has already received waits.
\<close>

theorem paused_node_rests:
  assumes "isPaused (rt_nr st)" "nr_cancel (rt_nr st) \<noteq> None" "list_all quiet_control (nr_controlCh (rt_nr st))"
    and "list_all quiet_event evs" "rt_run evs st = Some st'"
  shows "w_sent (rt_w st') = w_sent (rt_w st) \<and> nr_node (rt_nr st') = nr_node (rt_nr st) \<and>
    nr_completionCh (rt_nr st') = nr_completionCh (rt_nr st) \<and> isPaused (rt_nr st')"
proof -
  have "resting (nr_node (rt_nr st)) (w_sent (rt_w st)) (nr_completionCh (rt_nr st)) st"
    using assms(1-3) by (simp add: resting_def)
  from resting_run [OF this assms(4,5)] show ?thesis by (simp add: resting_def)
qed

text \<open>A node that delays messages, with two inputs; it has been paused while a timer was pending.\<close>

definition sleepy_runtime :: "(unit SleepOperator, unit) NodeRuntime" where
  "sleepy_runtime = (NewNodeRuntime
     \<lparr>cfg_Node = OpNode (NewOperatorNode ''s'' (SleepOperator_op (map fst)) (NewSleepOperator 10)), cfg_NodeType = NodeTypeOperator,
      cfg_Inputs = [0, 1], cfg_Outputs = [5], cfg_TickInterval = 0, cfg_ControlBufferSize = 0,
      cfg_CompletionCh = Some [], cfg_StoppedCh = Some [], cfg_OnError = None\<rparr>)\<lparr>nr_paused := True\<rparr>"

definition sleepy_state :: "time \<Rightarrow> (unit SleepOperator, unit) rt_state" where
  "sleepy_state t = start_state False sleepy_runtime
     (quiet_world\<lparr>w_timers := Some \<lparr>tm_timers = [\<lparr>te_Name = ''sleep-1'', te_FireAt = t\<rparr>]\<rparr>\<rparr>) (\<lambda>_. NewBuffer 0)"

lemmas sleepy_eval = sleepy_state_def sleepy_runtime_def SleepOperator_op_def start_eval

theorem paused_node_rests_witness:
  "\<exists>st. rt_run [EnvInput 0 (NewDataMessage ''k'' AnyNil 0), MergerReceives 0 False, MergerPuts 0, LoopHead, LoopMerged,
       EnvControl NewTerminateControl, WaitControl] (sleepy_state 5) = Some st \<and> w_sent (rt_w st) = []"
proof -
  let ?evs = "[EnvInput 0 (NewDataMessage ''k'' AnyNil 0), MergerReceives 0 False, MergerPuts 0, LoopHead, LoopMerged,
       EnvControl NewTerminateControl, WaitControl] :: unit rt_event list"
  have "\<exists>st. rt_run ?evs (sleepy_state 5) = Some st"
    by (simp add: sleepy_eval step_eval)
  then obtain st where st: "rt_run ?evs (sleepy_state 5) = Some st" ..
  have "w_sent (rt_w (sleepy_state 5)) = []"
    by (simp add: sleepy_state_def start_state_def quiet_world_def)
  with paused_node_rests [OF _ _ _ _ st] st show ?thesis
    by (simp add: sleepy_eval quiet_event_def quiet_control_def NewTerminateControl_def)
qed

section \<open>A paused node with an expired timer\<close>

definition spinning :: "timerEntry \<Rightarrow> ControlMessage list \<Rightarrow> ('s, 'u) rt_state \<Rightarrow> bool" where
  "spinning t ctrls st \<longleftrightarrow> rt_point st = AtHead \<and> isPaused (rt_nr st) \<and> prefix ctrls (nr_controlCh (rt_nr st)) \<and>
     (case getTimerManager (nr_node (rt_nr st)) (rt_w st) of Some tmr \<Rightarrow> timer_Peek tmr = Some t | None \<Rightarrow> False) \<and>
     (\<forall>k \<ge> w_reads (rt_w st). te_FireAt t \<le> w_clock (rt_w st) k)"

lemma getTimerManager_reads [simp]: "getTimerManager n (w\<lparr>w_reads := k\<rparr>) = getTimerManager n w"
  by (cases n) simp_all

lemma spinning_step:
  assumes "spinning t ctrls st" "rt_exec ev st = Some st'"
  shows "spinning t ctrls st'"
proof (cases ev)
  case LoopHead
  have "te_FireAt t \<le> w_clock (rt_w st) (w_reads (rt_w st))" using assms(1) by (simp add: spinning_def)
  with LoopHead assms have "st' = st\<lparr>rt_w := (rt_w st)\<lparr>w_reads := w_reads (rt_w st) + 1\<rparr>\<rparr>"
    by (auto simp: spinning_def run_head_def Now_def Let_def split: option.splits)
  with assms(1) show ?thesis by (auto simp: spinning_def)
qed (use assms in \<open>auto simp: merger_receives_def merger_puts_def merger_done_def close_merged_def env_input_def env_control_def
      SendControl_def Runtime_Stop_def spinning_def isPaused_def Let_def
      split: if_splits option.splits merger.splits recv_outcome.splits send_outcome.splits\<close>)



end
