(* ===== verification/Go_OS.thy ===== *)
theory Go_OS
  imports Go_Std
begin

text \<open>
  The fragment of Go's \<open>os\<close> and \<open>path/filepath\<close> packages that the checkpoint backend calls. A file
  system maps clean paths (lists of components) to directories and files. Every call may fail for
  reasons outside the program: \<open>os_fault n\<close> says whether the \<open>n\<close>-th call does, and theorems hold
  for every such choice. A failing call has no effect, except that a failing \<open>RemoveAll\<close> has removed
  the entries that \<open>os_partial\<close> selects. \<open>os_rand\<close> supplies the random names of \<open>CreateTemp\<close>.
\<close>

type_synonym path = "string list"

datatype fsnode = FDir | FFile bytes

record os =
  os_fs :: "(path, fsnode) gomap"
  os_fault :: "nat \<Rightarrow> bool"
  os_partial :: "path \<Rightarrow> bool"
  os_calls :: nat
  os_rand :: "nat \<Rightarrow> nat"
  os_draws :: nat

definition faulty :: "os \<Rightarrow> bool" where
  "faulty os = os_fault os (os_calls os)"

definition tick :: "os \<Rightarrow> os" where
  "tick os = os\<lparr>os_calls := os_calls os + 1\<rparr>"

section \<open>Paths\<close>

primrec split_sep :: "string \<Rightarrow> string list" where
  "split_sep [] = [[]]"
| "split_sep (c # cs) =
     (if c = CHR ''/'' then [] # split_sep cs
      else (case split_sep cs of [] \<Rightarrow> [[c]] | s # ss \<Rightarrow> (c # s) # ss))"

definition clean_step :: "path \<Rightarrow> string \<Rightarrow> path" where
  "clean_step p c = (if c = [] \<or> c = ''.'' then p else if c = ''..'' then butlast p else p @ [c])"

definition Join :: "path \<Rightarrow> string list \<Rightarrow> path" where
  "Join base elems = foldl clean_step base (concat (map split_sep elems))"

lemma split_sep_simple: "CHR ''/'' \<notin> set s \<Longrightarrow> split_sep s = [s]"
  by (induction s) auto

lemma Join_simple [simp]:
  "CHR ''/'' \<notin> set c \<Longrightarrow> c \<noteq> [] \<Longrightarrow> c \<noteq> ''.'' \<Longrightarrow> c \<noteq> ''..'' \<Longrightarrow> Join base (c # cs) = Join (base @ [c]) cs"
  by (simp add: Join_def split_sep_simple clean_step_def)

lemma Join_Nil [simp]: "Join base [] = base"
  by (simp add: Join_def)

section \<open>Calls\<close>

primrec mkdirs :: "path \<Rightarrow> string list \<Rightarrow> (path, fsnode) gomap \<Rightarrow> (path, fsnode) gomap option" where
  "mkdirs p [] fs = Some fs"
| "mkdirs p (c # cs) fs =
     (case map_of fs (p @ [c]) of
        None \<Rightarrow> mkdirs (p @ [c]) cs (AList.update (p @ [c]) FDir fs)
      | Some FDir \<Rightarrow> mkdirs (p @ [c]) cs fs
      | Some (FFile _) \<Rightarrow> None)"

definition MkdirAll :: "path \<Rightarrow> os \<Rightarrow> os \<times> error option" where
  "MkdirAll p os =
     (if faulty os then (tick os, Some (OSError ''mkdir''))
      else case mkdirs [] p (os_fs os) of
             None \<Rightarrow> (tick os, Some (OSError ''mkdir: not a directory''))
           | Some fs \<Rightarrow> ((tick os)\<lparr>os_fs := fs\<rparr>, None))"

text \<open>Up to 10000 random names are tried before \<open>CreateTemp\<close> gives up.\<close>

primrec create_temp :: "nat \<Rightarrow> path \<Rightarrow> string \<Rightarrow> os \<Rightarrow> os \<times> (error + path)" where
  "create_temp 0 dir pre os = (os, Inl (OSError ''createtemp: file exists''))"
| "create_temp (Suc tries) dir pre os =
     (let p = dir @ [pre @ FormatUint (os_rand os (os_draws os))];
          os = os\<lparr>os_draws := os_draws os + 1\<rparr>
      in if map_of (os_fs os) p \<noteq> None then create_temp tries dir pre os
         else (os\<lparr>os_fs := AList.update p (FFile []) (os_fs os)\<rparr>, Inr p))"

definition CreateTemp :: "path \<Rightarrow> string \<Rightarrow> os \<Rightarrow> os \<times> (error + path)" where
  "CreateTemp dir pre os =
     (if CHR ''/'' \<in> set pre then (os, Inl (OSError ''pattern contains path separator''))
      else if faulty os then (tick os, Inl (OSError ''createtemp''))
      else if map_of (os_fs os) dir \<noteq> Some FDir then (tick os, Inl (OSError ''createtemp: no directory''))
      else create_temp 10000 dir pre (tick os))"

definition File_Write :: "path \<Rightarrow> bytes \<Rightarrow> os \<Rightarrow> os \<times> error option" where
  "File_Write p data os =
     (if faulty os then (tick os, Some (OSError ''write''))
      else ((tick os)\<lparr>os_fs := AList.update p (FFile data) (os_fs os)\<rparr>, None))"

definition File_Close :: "os \<Rightarrow> os \<times> error option" where
  "File_Close os = (if faulty os then (tick os, Some (OSError ''close'')) else (tick os, None))"

definition Remove :: "path \<Rightarrow> os \<Rightarrow> os" where
  "Remove p os = (if faulty os then tick os else (tick os)\<lparr>os_fs := AList.delete p (os_fs os)\<rparr>)"

definition Rename :: "path \<Rightarrow> path \<Rightarrow> os \<Rightarrow> os \<times> error option" where
  "Rename old new os =
     (if faulty os then (tick os, Some (OSError ''rename''))
      else case map_of (os_fs os) old of
             None \<Rightarrow> (tick os, Some (OSError ''rename: not found''))
           | Some node \<Rightarrow>
               if map_of (os_fs os) new = Some FDir then (tick os, Some (OSError ''rename: is a directory''))
               else ((tick os)\<lparr>os_fs := AList.update new node (AList.delete old (os_fs os))\<rparr>, None))"

text \<open>\<open>Inr None\<close> is the error that \<open>os.IsNotExist\<close> recognises.\<close>

definition ReadFile :: "path \<Rightarrow> os \<Rightarrow> os \<times> (error + bytes option)" where
  "ReadFile p os =
     (if faulty os then (tick os, Inl (OSError ''read''))
      else if list_ex (\<lambda>k. case map_of (os_fs os) (take k p) of Some (FFile _) \<Rightarrow> True | _ \<Rightarrow> False) [0..<length p]
      then (tick os, Inl (OSError ''read: not a directory''))
      else case map_of (os_fs os) p of
             None \<Rightarrow> (tick os, Inr None)
           | Some FDir \<Rightarrow> (tick os, Inl (OSError ''read: is a directory''))
           | Some (FFile data) \<Rightarrow> (tick os, Inr (Some data)))"

text \<open>The entries of a directory: name and \<open>IsDir\<close>.\<close>

definition dir_entries :: "path \<Rightarrow> (path, fsnode) gomap \<Rightarrow> (string \<times> bool) list" where
  "dir_entries dir fs =
     map (\<lambda>(p, node). (last p, node = FDir)) (filter (\<lambda>(p, _). p \<noteq> [] \<and> butlast p = dir) fs)"

definition ReadDir :: "path \<Rightarrow> os \<Rightarrow> os \<times> (error + (string \<times> bool) list)" where
  "ReadDir dir os =
     (if faulty os then (tick os, Inl (OSError ''readdir''))
      else if map_of (os_fs os) dir \<noteq> Some FDir then (tick os, Inl (OSError ''readdir: no directory''))
      else (tick os, Inr (dir_entries dir (os_fs os))))"

definition RemoveAll :: "path \<Rightarrow> os \<Rightarrow> os \<times> error option" where
  "RemoveAll dir os =
     (if faulty os
      then ((tick os)\<lparr>os_fs := filter (\<lambda>(p, _). \<not> (take (length dir) p = dir \<and> os_partial os p)) (os_fs os)\<rparr>,
            Some (OSError ''removeall''))
      else ((tick os)\<lparr>os_fs := filter (\<lambda>(p, _). take (length dir) p \<noteq> dir) (os_fs os)\<rparr>, None))"

section \<open>Lemmas\<close>

lemma tick_frame [simp]:
  "os_fs (tick os) = os_fs os" "os_fault (tick os) = os_fault os" "os_rand (tick os) = os_rand os"
  by (simp_all add: tick_def)

lemma map_of_filter_keys:
  "map_of (filter (\<lambda>(k, _). P k) m) k = (if P k then map_of m k else None)"
  by (induction m) auto

text \<open>\<open>mkdirs\<close> only adds directories, so every file stays what it is.\<close>

lemma mkdirs_lookup:
  "mkdirs p cs fs = Some fs' \<Longrightarrow>
   map_of fs' q = (if map_of fs q = None \<and> (\<exists>k. 0 < k \<and> k \<le> length cs \<and> q = p @ take k cs)
                   then Some FDir else map_of fs q)"
proof (induction cs arbitrary: p fs)
  case (Cons c cs)
  let ?fs = "case map_of fs (p @ [c]) of None \<Rightarrow> AList.update (p @ [c]) FDir fs | Some _ \<Rightarrow> fs"
  have "mkdirs (p @ [c]) cs ?fs = Some fs'"
    using Cons.prems by (simp split: option.splits fsnode.splits)
  note IH = Cons.IH [OF this]
  have "(\<exists>k. 0 < k \<and> k \<le> length (c # cs) \<and> q = p @ take k (c # cs)) \<longleftrightarrow>
      q = p @ [c] \<or> (\<exists>k. 0 < k \<and> k \<le> length cs \<and> q = (p @ [c]) @ take k cs)" (is "?l \<longleftrightarrow> ?r")
  proof
    assume ?l
    then obtain k where "0 < k" "k \<le> length (c # cs)" "q = p @ take k (c # cs)" by blast
    then show ?r by (cases k; cases "k - 1") auto
  next
    assume ?r
    then show ?l
      by (metis Suc_le_mono append.assoc append_Cons append_Nil le0 length_Cons take0 take_Suc_Cons zero_less_Suc)
  qed
  with IH show ?case by (auto simp: go_maps split: option.splits)
qed simp

lemma mkdirs_dir: "mkdirs [] cs fs = Some fs' \<Longrightarrow> cs \<noteq> [] \<Longrightarrow> map_of fs cs = None \<Longrightarrow> map_of fs' cs = Some FDir"
  using mkdirs_lookup [of "[]" cs fs fs' cs] by (metis append_Nil length_greater_0_conv order_refl take_all)

lemma mkdirs_no_file:
  "mkdirs p cs fs = Some fs' \<Longrightarrow> 0 < k \<Longrightarrow> k \<le> length cs \<Longrightarrow> map_of fs (p @ take k cs) \<noteq> Some (FFile d)"
proof (induction cs arbitrary: p fs k)
  case (Cons c cs)
  let ?fs = "case map_of fs (p @ [c]) of None \<Rightarrow> AList.update (p @ [c]) FDir fs | Some _ \<Rightarrow> fs"
  have rest: "mkdirs (p @ [c]) cs ?fs = Some fs'" and c: "map_of fs (p @ [c]) \<noteq> Some (FFile d)"
    using Cons.prems(1) by (auto split: option.splits fsnode.splits)
  show ?case
  proof (cases "k = 1")
    case False
    with Cons.prems(2,3) obtain j where "k = Suc j" "0 < j" "j \<le> length cs" by (cases k) auto
    with Cons.IH [OF rest, of j] show ?thesis by (auto simp: go_maps split: option.splits if_splits)
  qed (use c in simp)
qed simp

lemma mkdirs_ok: "gomap_ok fs \<Longrightarrow> mkdirs p cs fs = Some fs' \<Longrightarrow> gomap_ok fs'"
proof (induction cs arbitrary: p fs)
  case (Cons c cs)
  then show ?case
    using Cons.IH [of fs "p @ [c]"] Cons.IH [of "AList.update (p @ [c]) FDir fs" "p @ [c]"]
    by (simp add: distinct_update split: option.splits fsnode.splits)
qed simp

lemma mkdirs_total:
  "(\<And>k. 0 < k \<Longrightarrow> k \<le> length cs \<Longrightarrow> map_of fs (p @ take k cs) \<in> {None, Some FDir}) \<Longrightarrow>
   \<exists>fs'. mkdirs p cs fs = Some fs'"
proof (induction cs arbitrary: p fs)
  case (Cons c cs)
  have c: "map_of fs (p @ [c]) \<in> {None, Some FDir}"
    using Cons.prems [of 1] by simp
  have "\<exists>fs'. mkdirs (p @ [c]) cs fs1 = Some fs'"
    if "fs1 = fs \<or> fs1 = AList.update (p @ [c]) FDir fs" for fs1
  proof (rule Cons.IH)
    fix k assume "0 < k" "k \<le> length cs"
    then show "map_of fs1 ((p @ [c]) @ take k cs) \<in> {None, Some FDir}"
      using Cons.prems [of "Suc k"] that by (auto simp: go_maps split: if_splits)
  qed
  with c show ?case by (auto split: option.splits)
qed simp

lemma create_temp_lookup:
  "create_temp n dir pre os = (os', r) \<Longrightarrow>
   os_fault os' = os_fault os \<and> os_rand os' = os_rand os \<and>
   (case r of Inl _ \<Rightarrow> os_fs os' = os_fs os
    | Inr p \<Rightarrow> map_of (os_fs os) p = None \<and> (\<exists>m. p = dir @ [pre @ FormatUint m]) \<and>
        os_fs os' = AList.update p (FFile []) (os_fs os))"
proof (induction n arbitrary: os)
  case (Suc n)
  let ?p = "dir @ [pre @ FormatUint (os_rand os (os_draws os))]"
  show ?case
  proof (cases "map_of (os_fs os) ?p")
    case None
    with Suc.prems show ?thesis by (auto simp: Let_def)
  next
    case (Some node)
    with Suc.prems Suc.IH [of "os\<lparr>os_draws := os_draws os + 1\<rparr>"] show ?thesis
      by (simp add: Let_def split: sum.splits)
  qed
qed auto

text \<open>Where no name of the pattern is taken, the first try succeeds.\<close>

lemma create_temp_fresh:
  "(\<And>m. map_of (os_fs os) (dir @ [pre @ FormatUint m]) = None) \<Longrightarrow>
   \<exists>os' p. create_temp (Suc n) dir pre os = (os', Inr p)"
  by (simp add: Let_def)

text \<open>What every call leaves alone: the failures to come, and that each path has one entry.\<close>

definition os_frame :: "os \<Rightarrow> os \<Rightarrow> bool" where
  "os_frame os os' \<longleftrightarrow> os_fault os' = os_fault os \<and> (gomap_ok (os_fs os) \<longrightarrow> gomap_ok (os_fs os'))"

lemma os_frame_trans: "os_frame os1 os2 \<Longrightarrow> os_frame os2 os3 \<Longrightarrow> os_frame os1 os3"
  by (auto simp: os_frame_def)

lemma gomap_ok_filter: "gomap_ok m \<Longrightarrow> gomap_ok (filter P m)"
  by (induction m) auto

lemma create_temp_frame: "create_temp n dir pre os = (os', r) \<Longrightarrow> os_frame os os'"
  using create_temp_lookup [of n dir pre os os' r]
  by (auto simp: os_frame_def distinct_update split: sum.splits)

lemma os_frame_tick [simp]: "os_frame os (tick os)"
  by (simp add: os_frame_def)

lemma os_frame_MkdirAll: "MkdirAll p os = (os', r) \<Longrightarrow> os_frame os os'"
  by (auto simp: MkdirAll_def split: if_splits option.splits) (simp add: os_frame_def mkdirs_ok)

lemma os_frame_CreateTemp: "CreateTemp p pre os = (os', r) \<Longrightarrow> os_frame os os'"
  using os_frame_trans [OF os_frame_tick create_temp_frame]
  by (auto simp: CreateTemp_def os_frame_def split: if_splits)

lemma os_frame_RemoveAll: "RemoveAll p os = (os', r) \<Longrightarrow> os_frame os os'"
  by (auto simp: RemoveAll_def os_frame_def gomap_ok_filter split: if_splits)

lemma os_frame_Write: "File_Write p data os = (os', r) \<Longrightarrow> os_frame os os'"
  by (auto simp: File_Write_def os_frame_def distinct_update split: if_splits)

lemma os_frame_Close: "File_Close os = (os', r) \<Longrightarrow> os_frame os os'"
  by (auto simp: File_Close_def split: if_splits)

lemma os_frame_Remove: "os_frame os (Remove p os)"
  by (simp add: Remove_def os_frame_def distinct_delete)

lemma os_frame_Rename: "Rename p q os = (os', r) \<Longrightarrow> os_frame os os'"
  by (auto simp: Rename_def os_frame_def distinct_update distinct_delete split: if_splits option.splits)

lemma os_frame_ReadFile: "ReadFile p os = (os', r) \<Longrightarrow> os_frame os os'"
  by (auto simp: ReadFile_def split: if_splits option.splits fsnode.splits)

lemma os_frame_ReadDir: "ReadDir p os = (os', r) \<Longrightarrow> os_frame os os'"
  by (auto simp: ReadDir_def split: if_splits)

lemmas os_frames = os_frame_MkdirAll os_frame_CreateTemp os_frame_Write os_frame_Close os_frame_Rename
  os_frame_ReadFile os_frame_ReadDir os_frame_RemoveAll

end
