(* ===== verification/Checkpoint_Backend.thy ===== *)
theory Checkpoint_Backend
  imports Go_OS
begin

text \<open>
  Checkpoint persistence, \<open>internal/engine/checkpoint_backend.go\<close>: the interface
  \<open>CheckpointBackend\<close> as the record of its methods, the laws its clients rely on as the locale
  \<open>checkpoint_backend\<close>, and \<open>LocalDiskBackend\<close> over the file system of \<open>Go_OS\<close>, which
  interprets it.
\<close>

record 'b CheckpointBackend =
  cb_Save :: "u64 \<Rightarrow> string \<Rightarrow> bytes \<Rightarrow> 'b \<Rightarrow> 'b \<times> error option"
  cb_Load :: "u64 \<Rightarrow> string \<Rightarrow> 'b \<Rightarrow> 'b \<times> (error + bytes option)"
  cb_ListEpochs :: "'b \<Rightarrow> 'b \<times> (error + u64 list)"
  cb_Delete :: "u64 \<Rightarrow> 'b \<Rightarrow> 'b \<times> error option"

section \<open>The local disk backend\<close>

record LocalDiskBackend =
  ldb_baseDir :: path
  ldb_os :: os

definition NewLocalDiskBackend :: "path \<Rightarrow> os \<Rightarrow> error + LocalDiskBackend" where
  "NewLocalDiskBackend baseDir os =
     (case MkdirAll baseDir os of
        (os, Some err) \<Rightarrow> Inl (Wrapped ''create checkpoint directory'' err)
      | (os, None) \<Rightarrow> Inr \<lparr>ldb_baseDir = baseDir, ldb_os = os\<rparr>)"

definition Disk_Save :: "u64 \<Rightarrow> string \<Rightarrow> bytes \<Rightarrow> LocalDiskBackend \<Rightarrow> LocalDiskBackend \<times> error option" where
  "Disk_Save epoch nodeID data b =
     (let epochDir = Join (ldb_baseDir b) [FormatUint (unat epoch)]
      in case MkdirAll epochDir (ldb_os b) of
           (os, Some err) \<Rightarrow> (b\<lparr>ldb_os := os\<rparr>, Some (Wrapped ''create epoch directory'' err))
         | (os, None) \<Rightarrow>
             let target = Join epochDir [nodeID @ ''.state'']
             in case CreateTemp epochDir (nodeID @ ''.tmp.'') os of
                  (os, Inl err) \<Rightarrow> (b\<lparr>ldb_os := os\<rparr>, Some (Wrapped ''create temp file'' err))
                | (os, Inr tmpName) \<Rightarrow>
                    (case File_Write tmpName data os of
                       (os, Some err) \<Rightarrow>
                         (b\<lparr>ldb_os := Remove tmpName (fst (File_Close os))\<rparr>, Some (Wrapped ''write state'' err))
                     | (os, None) \<Rightarrow>
                         (case File_Close os of
                            (os, Some err) \<Rightarrow>
                              (b\<lparr>ldb_os := Remove tmpName os\<rparr>, Some (Wrapped ''close temp file'' err))
                          | (os, None) \<Rightarrow>
                              (case Rename tmpName target os of
                                 (os, Some err) \<Rightarrow>
                                   (b\<lparr>ldb_os := Remove tmpName os\<rparr>, Some (Wrapped ''rename state file'' err))
                               | (os, None) \<Rightarrow> (b\<lparr>ldb_os := os\<rparr>, None)))))"

definition Disk_Load :: "u64 \<Rightarrow> string \<Rightarrow> LocalDiskBackend \<Rightarrow> LocalDiskBackend \<times> (error + bytes option)" where
  "Disk_Load epoch nodeID b =
     (let target = Join (ldb_baseDir b) [FormatUint (unat epoch), nodeID @ ''.state'']
      in case ReadFile target (ldb_os b) of
           (os, Inr None) \<Rightarrow> (b\<lparr>ldb_os := os\<rparr>, Inr None)
         | (os, Inl err) \<Rightarrow> (b\<lparr>ldb_os := os\<rparr>, Inl (Wrapped ''read state file'' err))
         | (os, Inr (Some data)) \<Rightarrow> (b\<lparr>ldb_os := os\<rparr>, Inr (Some data)))"

definition parse_epochs :: "(string \<times> bool) list \<Rightarrow> u64 list" where
  "parse_epochs entries =
     concat (map (\<lambda>(name, isDir).
       if \<not> isDir then [] else case ParseUint name of None \<Rightarrow> [] | Some epoch \<Rightarrow> [word_of_nat epoch]) entries)"

definition Disk_ListEpochs :: "LocalDiskBackend \<Rightarrow> LocalDiskBackend \<times> (error + u64 list)" where
  "Disk_ListEpochs b =
     (case ReadDir (ldb_baseDir b) (ldb_os b) of
        (os, Inl err) \<Rightarrow> (b\<lparr>ldb_os := os\<rparr>, Inl (Wrapped ''read checkpoint directory'' err))
      | (os, Inr entries) \<Rightarrow> (b\<lparr>ldb_os := os\<rparr>, Inr (sort (parse_epochs entries))))"

definition Disk_Delete :: "u64 \<Rightarrow> LocalDiskBackend \<Rightarrow> LocalDiskBackend \<times> error option" where
  "Disk_Delete epoch b =
     (let epochDir = Join (ldb_baseDir b) [FormatUint (unat epoch)]
      in case RemoveAll epochDir (ldb_os b) of
           (os, Some err) \<Rightarrow> (b\<lparr>ldb_os := os\<rparr>, Some (Wrapped ''delete epoch directory'' err))
         | (os, None) \<Rightarrow> (b\<lparr>ldb_os := os\<rparr>, None))"

definition LocalDisk :: "LocalDiskBackend CheckpointBackend" where
  "LocalDisk = \<lparr>cb_Save = Disk_Save, cb_Load = Disk_Load, cb_ListEpochs = Disk_ListEpochs, cb_Delete = Disk_Delete\<rparr>"

section \<open>What is on disk\<close>

abbreviation epoch_path :: "LocalDiskBackend \<Rightarrow> u64 \<Rightarrow> path" where
  "epoch_path b e \<equiv> ldb_baseDir b @ [FormatUint (unat e)]"

abbreviation state_path :: "LocalDiskBackend \<Rightarrow> u64 \<Rightarrow> string \<Rightarrow> path" where
  "state_path b e n \<equiv> ldb_baseDir b @ [FormatUint (unat e), n @ ''.state'']"

definition node_id_ok :: "string \<Rightarrow> bool" where
  "node_id_ok n \<longleftrightarrow> CHR ''/'' \<notin> set n"

definition disk_contents :: "LocalDiskBackend \<Rightarrow> u64 \<Rightarrow> string \<Rightarrow> bytes option" where
  "disk_contents b e n =
     (case map_of (os_fs (ldb_os b)) (state_path b e n) of Some (FFile d) \<Rightarrow> Some d | _ \<Rightarrow> None)"

definition disk_epochs :: "LocalDiskBackend \<Rightarrow> u64 set" where
  "disk_epochs b = {e. map_of (os_fs (ldb_os b)) (epoch_path b e) = Some FDir}"

text \<open>
  The directory structure: every directory of the base whose name reads as a number is the
  directory of that epoch. On a healthy disk, moreover, calls do not fail, the directories are
  there, and no temporary file is left over.
\<close>

definition disk_ok :: "LocalDiskBackend \<Rightarrow> bool" where
  "disk_ok b \<longleftrightarrow> gomap_ok (os_fs (ldb_os b)) \<and>
     (\<forall>name k. map_of (os_fs (ldb_os b)) (ldb_baseDir b @ [name]) = Some FDir \<longrightarrow> ParseUint name = Some k \<longrightarrow>
        name = FormatUint k)"

definition disk_healthy :: "LocalDiskBackend \<Rightarrow> bool" where
  "disk_healthy b \<longleftrightarrow>
     (\<forall>n. \<not> os_fault (ldb_os b) n) \<and> ldb_baseDir b \<noteq> [] \<and>
     (\<forall>k. k \<le> length (ldb_baseDir b) \<longrightarrow> map_of (os_fs (ldb_os b)) (take k (ldb_baseDir b)) = Some FDir) \<and>
     (\<forall>e. map_of (os_fs (ldb_os b)) (epoch_path b e) \<in> {None, Some FDir}) \<and>
     (\<forall>e n. map_of (os_fs (ldb_os b)) (state_path b e n) \<noteq> Some FDir) \<and>
     (\<forall>e n m. map_of (os_fs (ldb_os b)) (epoch_path b e @ [n @ ''.tmp.'' @ FormatUint m]) = None)"

lemma FormatUint_plain [simp]:
  "CHR ''/'' \<notin> set (FormatUint n)" "FormatUint n \<noteq> ''.''" "FormatUint n \<noteq> ''..''"
  using FormatUint_no_char [of "CHR ''/''" n] FormatUint_no_char [of "CHR ''.''" n]
  by (auto simp: is_digit_def)

lemma Join_epoch [simp]: "Join p [FormatUint n] = p @ [FormatUint n]"
  by simp

lemma Join_state [simp]: "node_id_ok n \<Longrightarrow> Join p [n @ ''.state''] = p @ [n @ ''.state'']"
  by (subst Join_simple) (auto simp: node_id_ok_def append_eq_Cons_conv)

lemma temp_not_state [simp]: "n @ ''.tmp.'' @ FormatUint m \<noteq> n' @ ''.state''"
proof
  assume "n @ ''.tmp.'' @ FormatUint m = n' @ ''.state''"
  then have "last (n @ ''.tmp.'' @ FormatUint m) = last (n' @ ''.state'')" by metis
  then have "last (FormatUint m) = CHR ''e''" by simp
  then have "CHR ''e'' \<in> set (FormatUint m)" using last_in_set FormatUint_nonempty by metis
  then show False using FormatUint_no_char [of "CHR ''e''" m] by (simp add: is_digit_def)
qed

lemma unat_u64_inject [simp]: "unat (e::u64) = unat e' \<longleftrightarrow> e = e'"
  by (simp add: word_unat_eq_iff)

lemma ParseUint_u64 [simp]: "ParseUint (FormatUint (unat (e::u64))) = Some (unat e)"
  using unsigned_less [of e, where ?'a = nat] by simp

text \<open>
  What a call of \<open>Save\<close> leaves behind, whichever system calls fail: after the directories have been
  made, the file system differs at most in the temporary file, and on success in the target.
\<close>

definition save_effect :: "LocalDiskBackend \<Rightarrow> u64 \<Rightarrow> string \<Rightarrow> bytes \<Rightarrow> (path, fsnode) gomap \<Rightarrow> error option \<Rightarrow> bool" where
  "save_effect b e n d fs r \<longleftrightarrow>
     (\<exists>fs1 m. (fs1 = os_fs (ldb_os b) \<or> mkdirs [] (epoch_path b e) (os_fs (ldb_os b)) = Some fs1) \<and>
       (let tmp = epoch_path b e @ [n @ ''.tmp.'' @ FormatUint m]
        in (case r of
             None \<Rightarrow> node_id_ok n \<and> mkdirs [] (epoch_path b e) (os_fs (ldb_os b)) = Some fs1 \<and>
               map_of fs1 tmp = None \<and> map_of fs = (map_of fs1)(state_path b e n \<mapsto> FFile d)
           | Some _ \<Rightarrow> map_of fs = map_of fs1 \<or>
               map_of fs1 tmp = None \<and> (\<exists>x. map_of fs = (map_of fs1)(tmp \<mapsto> FFile x)))))"

lemma Remove_fs:
  "map_of (os_fs (Remove p os)) = map_of (os_fs os) \<or> map_of (os_fs (Remove p os)) = (map_of (os_fs os))(p := None)"
  "gomap_ok (os_fs os) \<Longrightarrow> gomap_ok (os_fs (Remove p os))"
  "os_fault (Remove p os) = os_fault os"
  by (auto simp: Remove_def go_maps distinct_delete)

lemma File_Close_frame [simp]:
  "os_fs (fst (File_Close os)) = os_fs os" "os_fault (fst (File_Close os)) = os_fault os"
  by (simp_all add: File_Close_def)

lemma temp_path_cleaned:
  assumes "map_of fs1 tmp = None" "map_of fs = (map_of fs1)(tmp \<mapsto> FFile x)"
    and "map_of fs' = map_of fs \<or> map_of fs' = (map_of fs)(tmp := None)"
  shows "map_of fs' = map_of fs1 \<or> (\<exists>x. map_of fs' = (map_of fs1)(tmp \<mapsto> FFile x))"
  using assms by (auto simp: fun_eq_iff)

lemma Disk_Save_effect:
  assumes save: "Disk_Save e n d b = (b', r)"
  shows "save_effect b e n d (os_fs (ldb_os b')) r"
proof -
  let ?fs = "os_fs (ldb_os b)" and ?dir = "epoch_path b e"
  obtain os1 r1 where mk: "MkdirAll ?dir (ldb_os b) = (os1, r1)" by (cases "MkdirAll ?dir (ldb_os b)")
  show ?thesis
  proof (cases r1)
    case (Some err)
    with mk have "os_fs os1 = ?fs" by (auto simp: MkdirAll_def split: if_splits option.splits)
    moreover have "os_fs (ldb_os b') = os_fs os1" "r \<noteq> None"
      using save mk Some by (auto simp: Disk_Save_def Let_def)
    ultimately show ?thesis by (auto simp: save_effect_def Let_def)
  next
    case None
    with mk have fs1: "mkdirs [] ?dir ?fs = Some (os_fs os1)"
      by (auto simp: MkdirAll_def split: if_splits option.splits)
    obtain os2 r2 where ct: "CreateTemp ?dir (n @ ''.tmp.'') os1 = (os2, r2)"
      by (cases "CreateTemp ?dir (n @ ''.tmp.'') os1")
    show ?thesis
    proof (cases r2)
      case (Inl err)
      have "os_fs os2 = os_fs os1"
        using ct Inl create_temp_lookup [of 10000 ?dir "n @ ''.tmp.''" "tick os1" os2 r2]
        by (auto simp: CreateTemp_def split: if_splits)
      moreover have "os_fs (ldb_os b') = os_fs os2" "r \<noteq> None"
        using save mk None ct Inl by (auto simp: Disk_Save_def Let_def)
      ultimately show ?thesis using fs1 by (auto simp: save_effect_def Let_def)
    next
      case (Inr tmp)
      have "create_temp 10000 ?dir (n @ ''.tmp.'') (tick os1) = (os2, Inr tmp)" and id: "node_id_ok n"
        using ct Inr by (auto simp: CreateTemp_def node_id_ok_def split: if_splits)
      from create_temp_lookup [OF this(1)] obtain m where
        tmp: "map_of (os_fs os1) tmp = None" "tmp = ?dir @ [n @ ''.tmp.'' @ FormatUint m]"
          "map_of (os_fs os2) = (map_of (os_fs os1))(tmp \<mapsto> FFile [])"
        by (auto simp: go_maps)
      have tail: "save_effect b e n d fs (Some err)"
        if "map_of fs0 = (map_of (os_fs os1))(tmp \<mapsto> FFile x)"
          "map_of fs = map_of fs0 \<or> map_of fs = (map_of fs0)(tmp := None)" for fs fs0 x err
        using temp_path_cleaned [OF tmp(1) that] fs1 tmp(1,2)
        by (auto simp: save_effect_def Let_def)
      obtain os3 r3 where wr: "File_Write tmp d os2 = (os3, r3)" by (cases "File_Write tmp d os2")
      obtain os4 r4 where cl: "File_Close os3 = (os4, r4)" by (cases "File_Close os3")
      obtain os5 r5 where rn: "Rename tmp (state_path b e n) os4 = (os5, r5)"
        by (cases "Rename tmp (state_path b e n) os4")
      have fs4: "os_fs os4 = os_fs os3" using cl by (auto simp: File_Close_def split: if_splits)
      have b': "(b', r) = (case r3 of
          Some err \<Rightarrow> (b\<lparr>ldb_os := Remove tmp os4\<rparr>, Some (Wrapped ''write state'' err))
        | None \<Rightarrow> (case r4 of
            Some err \<Rightarrow> (b\<lparr>ldb_os := Remove tmp os4\<rparr>, Some (Wrapped ''close temp file'' err))
          | None \<Rightarrow> (case r5 of
              Some err \<Rightarrow> (b\<lparr>ldb_os := Remove tmp os5\<rparr>, Some (Wrapped ''rename state file'' err))
            | None \<Rightarrow> (b\<lparr>ldb_os := os5\<rparr>, None))))"
        using save mk None ct Inr wr cl rn id
        by (auto simp: Disk_Save_def Let_def split: option.splits)
      have w3: "\<exists>x. map_of (os_fs os3) = (map_of (os_fs os1))(tmp \<mapsto> FFile x)"
        and w3': "r3 = None \<Longrightarrow> map_of (os_fs os3) = (map_of (os_fs os1))(tmp \<mapsto> FFile d)"
        using wr tmp(3) by (auto simp: File_Write_def go_maps split: if_splits)
      have w5: "r5 \<noteq> None \<Longrightarrow> os_fs os5 = os_fs os4"
        using rn by (auto simp: Rename_def split: if_splits option.splits)
      have w5': "map_of (os_fs os5) = (map_of (os_fs os1))(state_path b e n \<mapsto> FFile d)"
        if "r3 = None" "r5 = None"
        using rn w3' [OF that(1)] that(2) fs4 tmp(1,2)
        by (auto simp: Rename_def go_maps fun_eq_iff split: if_splits)
      show ?thesis
      proof (cases "r = None")
        case True
        with b' have "r3 = None" "r5 = None" "b' = b\<lparr>ldb_os := os5\<rparr>" by (auto split: option.splits)
        with w5' fs1 tmp id True show ?thesis
          by (auto simp: save_effect_def Let_def intro!: exI [of _ "os_fs os1"] exI [of _ m])
      next
        case False
        with b' w5 fs4 obtain os where "b' = b\<lparr>ldb_os := Remove tmp os\<rparr>" "os_fs os = os_fs os3"
          by (auto split: option.splits)
        moreover obtain err where "r = Some err" using False by blast
        ultimately show ?thesis
          using w3 tail [of "os_fs os3"] Remove_fs(1) [of tmp os] by auto
      qed
    qed
  qed
qed

section \<open>The laws of the backend\<close>

lemma mkdirs_epoch:
  assumes "mkdirs [] (epoch_path b e) fs = Some fs1"
  shows "map_of fs1 (epoch_path b e) = Some FDir"
    and "length q \<noteq> Suc (length (ldb_baseDir b)) \<Longrightarrow> length (ldb_baseDir b) < length q \<Longrightarrow> map_of fs1 q = map_of fs q"
    and "q \<noteq> epoch_path b e \<Longrightarrow> length q = Suc (length (ldb_baseDir b)) \<Longrightarrow> map_of fs1 q = map_of fs q"
    and "map_of fs q = Some x \<Longrightarrow> map_of fs1 q = Some x"
proof -
  note look = mkdirs_lookup [OF assms]
  show "map_of fs1 (epoch_path b e) = Some FDir"
  proof (cases "map_of fs (epoch_path b e)")
    case None
    then show ?thesis using mkdirs_dir [OF assms] by simp
  next
    case (Some node)
    moreover have "node = FDir"
      using assms Some by (cases node) (auto dest: mkdirs_no_file [of _ _ _ _ "length (epoch_path b e)"])
    ultimately show ?thesis using look by simp
  qed
  show "map_of fs1 q = map_of fs q"
    if "length q \<noteq> Suc (length (ldb_baseDir b))" "length (ldb_baseDir b) < length q"
    using look [of q] that by (auto simp: min_def split: if_splits)
  show "map_of fs1 q = map_of fs q" if "q \<noteq> epoch_path b e" "length q = Suc (length (ldb_baseDir b))"
    using look [of q] that by (auto simp: min_def split: if_splits)
  show "map_of fs q = Some x \<Longrightarrow> map_of fs1 q = Some x"
    using look [of q] by simp
qed

lemma Disk_Save_frame:
  "Disk_Save e n d b = (b', r) \<Longrightarrow> ldb_baseDir b' = ldb_baseDir b \<and> os_frame (ldb_os b) (ldb_os b')"
  by (auto simp: Disk_Save_def Let_def split: prod.splits option.splits sum.splits
      dest!: os_frames) (meson os_frame_trans os_frame_Remove)+

lemma Disk_Load_frame:
  "Disk_Load e n b = (b', r) \<Longrightarrow> ldb_baseDir b' = ldb_baseDir b \<and> os_frame (ldb_os b) (ldb_os b')"
  by (auto simp: Disk_Load_def Let_def split: prod.splits option.splits sum.splits dest!: os_frames)

lemma Disk_ListEpochs_frame:
  "Disk_ListEpochs b = (b', r) \<Longrightarrow> ldb_baseDir b' = ldb_baseDir b \<and> os_frame (ldb_os b) (ldb_os b')"
  by (auto simp: Disk_ListEpochs_def Let_def split: prod.splits option.splits sum.splits dest!: os_frames)

lemma Disk_Delete_frame:
  "Disk_Delete e b = (b', r) \<Longrightarrow> ldb_baseDir b' = ldb_baseDir b \<and> os_frame (ldb_os b) (ldb_os b')"
  by (auto simp: Disk_Delete_def Let_def split: prod.splits option.splits sum.splits dest!: os_frames)

lemma save_effect_cases:
  assumes "save_effect b e n d fs r"
  obtains fs1 m where "fs1 = os_fs (ldb_os b) \<or> mkdirs [] (epoch_path b e) (os_fs (ldb_os b)) = Some fs1"
    and "r = None \<Longrightarrow> mkdirs [] (epoch_path b e) (os_fs (ldb_os b)) = Some fs1"
    and "r = None \<Longrightarrow> map_of fs = (map_of fs1)(state_path b e n \<mapsto> FFile d)"
    and "r \<noteq> None \<Longrightarrow> map_of fs = map_of fs1 \<or>
          (\<exists>x. map_of fs = (map_of fs1)(epoch_path b e @ [n @ ''.tmp.'' @ FormatUint m] \<mapsto> FFile x))"
  using assms unfolding save_effect_def Let_def by (elim exE conjE; cases r; simp; blast)

text \<open>The file a client sees after a save.\<close>

lemma save_effect_files:
  assumes "save_effect b e n d fs r"
  shows "map_of fs (state_path b e' n') =
    (if r = None \<and> e' = e \<and> n' = n then Some (FFile d) else map_of (os_fs (ldb_os b)) (state_path b e' n'))"
proof -
  from assms(1) obtain fs1 m where fs1: "fs1 = os_fs (ldb_os b) \<or> mkdirs [] (epoch_path b e) (os_fs (ldb_os b)) = Some fs1"
    and "r = None \<Longrightarrow> mkdirs [] (epoch_path b e) (os_fs (ldb_os b)) = Some fs1"
    and eff: "r = None \<Longrightarrow> map_of fs = (map_of fs1)(state_path b e n \<mapsto> FFile d)"
      "r \<noteq> None \<Longrightarrow> map_of fs = map_of fs1 \<or>
          (\<exists>x. map_of fs = (map_of fs1)(epoch_path b e @ [n @ ''.tmp.'' @ FormatUint m] \<mapsto> FFile x))"
    by (rule save_effect_cases) blast
  have "map_of fs1 (state_path b e' n') = map_of (os_fs (ldb_os b)) (state_path b e' n')"
    using fs1 mkdirs_epoch(2) [of b e "os_fs (ldb_os b)" fs1 "state_path b e' n'"] by auto
  moreover have "epoch_path b e @ [n @ ''.tmp.'' @ FormatUint m] \<noteq> state_path b e' n'"
    using temp_not_state [of n m n'] by simp
  ultimately show ?thesis
    using eff by (cases r) (auto simp: fun_upd_def)
qed

lemma save_effect_dirs:
  assumes "save_effect b e n d fs r" "length p = Suc (length (ldb_baseDir b))"
  shows "map_of fs p = map_of (os_fs (ldb_os b)) p \<or> p = epoch_path b e \<and> map_of fs p = Some FDir"
    and "r = None \<Longrightarrow> map_of fs (epoch_path b e) = Some FDir"
proof -
  from assms(1) obtain fs1 m where fs1: "fs1 = os_fs (ldb_os b) \<or> mkdirs [] (epoch_path b e) (os_fs (ldb_os b)) = Some fs1"
    and mk: "r = None \<Longrightarrow> mkdirs [] (epoch_path b e) (os_fs (ldb_os b)) = Some fs1"
    and eff: "r = None \<Longrightarrow> map_of fs = (map_of fs1)(state_path b e n \<mapsto> FFile d)"
      "r \<noteq> None \<Longrightarrow> map_of fs = map_of fs1 \<or>
          (\<exists>x. map_of fs = (map_of fs1)(epoch_path b e @ [n @ ''.tmp.'' @ FormatUint m] \<mapsto> FFile x))"
    by (rule save_effect_cases) blast
  have same: "length p = Suc (length (ldb_baseDir b)) \<Longrightarrow> map_of fs p = map_of fs1 p" for p
    using eff by (cases r) auto
  show "r = None \<Longrightarrow> map_of fs (epoch_path b e) = Some FDir"
    using mkdirs_epoch(1) [OF mk] same [of "epoch_path b e"] by simp
  show "map_of fs p = map_of (os_fs (ldb_os b)) p \<or> p = epoch_path b e \<and> map_of fs p = Some FDir"
    using fs1 same [OF assms(2)] mkdirs_epoch(1,3) [of b e "os_fs (ldb_os b)" fs1] assms(2) by metis
qed

lemma Disk_Save_contents:
  assumes "Disk_Save e n d b = (b', r)"
  shows "disk_contents b' = (case r of
      None \<Rightarrow> (disk_contents b)(e := (disk_contents b e)(n \<mapsto> d))
    | Some _ \<Rightarrow> disk_contents b)"
  using save_effect_files [OF Disk_Save_effect [OF assms]] Disk_Save_frame [OF assms]
  by (auto simp: disk_contents_def fun_eq_iff split: option.splits)

lemma Disk_Save_epochs:
  assumes "Disk_Save e n d b = (b', None)"
  shows "disk_epochs b' = insert e (disk_epochs b)"
proof -
  note eff = Disk_Save_effect [OF assms]
  have "map_of (os_fs (ldb_os b')) (epoch_path b e') = Some FDir \<longleftrightarrow>
      e' = e \<or> map_of (os_fs (ldb_os b)) (epoch_path b e') = Some FDir" for e'
    using save_effect_dirs(1) [OF eff, of "epoch_path b e'"] save_effect_dirs(2) [OF eff, of "epoch_path b e"] by auto
  then show ?thesis
    using Disk_Save_frame [OF assms] by (auto simp: disk_epochs_def)
qed

lemma Disk_Save_ok:
  assumes "Disk_Save e n d b = (b', r)" "disk_ok b"
  shows "disk_ok b'"
proof -
  have "name = FormatUint k"
    if "map_of (os_fs (ldb_os b')) (ldb_baseDir b @ [name]) = Some FDir" "ParseUint name = Some k" for name k
    using save_effect_dirs(1) [OF Disk_Save_effect [OF assms(1)], of "ldb_baseDir b @ [name]"] that assms(2)
    by (auto simp: disk_ok_def)
  then show ?thesis
    using Disk_Save_frame [OF assms(1)] assms(2) by (auto simp: disk_ok_def os_frame_def)
qed

lemma Disk_Delete_effect:
  assumes "Disk_Delete e b = (b', r)"
  shows "map_of (os_fs (ldb_os b')) p =
    (if take (Suc (length (ldb_baseDir b))) p = epoch_path b e \<and> (r = None \<or> os_partial (ldb_os b) p)
     then None else map_of (os_fs (ldb_os b)) p)"
  using assms
  by (auto simp: Disk_Delete_def RemoveAll_def Let_def map_of_filter_keys split: if_splits)

lemma Disk_Delete_contents:
  assumes "Disk_Delete e b = (b', r)"
  shows "e' \<noteq> e \<Longrightarrow> disk_contents b' e' = disk_contents b e'"
    and "r = None \<Longrightarrow> disk_contents b' e = (\<lambda>_. None) \<and> disk_epochs b' = disk_epochs b - {e}"
  using Disk_Delete_effect [OF assms] Disk_Delete_frame [OF assms]
  by (auto simp: disk_contents_def disk_epochs_def fun_eq_iff)

lemma Disk_Delete_ok: "Disk_Delete e b = (b', r) \<Longrightarrow> disk_ok b \<Longrightarrow> disk_ok b'"
  using Disk_Delete_effect [of e b b' r] Disk_Delete_frame [of e b b' r]
  by (auto simp: disk_ok_def os_frame_def split: if_splits)

text \<open>On a healthy disk every call succeeds and the disk stays healthy.\<close>

lemma healthy_no_fault: "disk_healthy b \<Longrightarrow> os_frame (ldb_os b) os \<Longrightarrow> \<not> faulty os"
  by (auto simp: disk_healthy_def os_frame_def faulty_def)

lemma healthy_mkdirs:
  assumes "disk_healthy b"
  obtains fs1 where "mkdirs [] (epoch_path b e) (os_fs (ldb_os b)) = Some fs1"
proof -
  have "map_of (os_fs (ldb_os b)) ([] @ take k (epoch_path b e)) \<in> {None, Some FDir}"
    if "k \<le> length (epoch_path b e)" for k
  proof (cases "k \<le> length (ldb_baseDir b)")
    case False
    with that have "k = Suc (length (ldb_baseDir b))" by simp
    with assms show ?thesis by (simp add: disk_healthy_def)
  qed (use assms in \<open>simp add: disk_healthy_def\<close>)
  from mkdirs_total [OF this] that show thesis by blast
qed

lemma Disk_Save_healthy_success:
  assumes h: "disk_healthy b" and n: "node_id_ok n"
  shows "snd (Disk_Save e n d b) = None"
proof -
  note frames = os_frames [THEN os_frame_trans [rotated]]
  obtain fs1 where mk: "mkdirs [] (epoch_path b e) (os_fs (ldb_os b)) = Some fs1"
    using healthy_mkdirs [OF h] .
  define os1 where "os1 = (tick (ldb_os b))\<lparr>os_fs := fs1\<rparr>"
  have mk': "MkdirAll (epoch_path b e) (ldb_os b) = (os1, None)"
    using mk healthy_no_fault [OF h] by (simp add: MkdirAll_def os1_def os_frame_def)
  have f1: "os_frame (ldb_os b) os1" by (rule os_frame_MkdirAll [OF mk'])
  have dir: "map_of (os_fs os1) (epoch_path b e) = Some FDir" "os_fs os1 = fs1"
    using mkdirs_epoch(1) [OF mk] by (simp_all add: os1_def)
  have free: "map_of fs1 (epoch_path b e @ [n @ ''.tmp.'' @ FormatUint m]) = None" for m
    using mkdirs_epoch(2) [OF mk, of "epoch_path b e @ [n @ ''.tmp.'' @ FormatUint m]"] h
    by (simp add: disk_healthy_def)
  obtain os2 tmp where ct: "create_temp 10000 (epoch_path b e) (n @ ''.tmp.'') (tick os1) = (os2, Inr tmp)"
    using create_temp_fresh [of "tick os1" "epoch_path b e" "n @ ''.tmp.''" 9999] free dir(2)
    by (auto simp: numeral_eq_Suc)
  have ct': "CreateTemp (epoch_path b e) (n @ ''.tmp.'') os1 = (os2, Inr tmp)"
    using ct dir n healthy_no_fault [OF h f1] by (simp add: CreateTemp_def node_id_ok_def)
  have f2: "os_frame (ldb_os b) os2" by (rule os_frame_trans [OF f1 os_frame_CreateTemp [OF ct']])
  obtain os3 where wr: "File_Write tmp d os2 = (os3, None)" "map_of (os_fs os3) = (map_of (os_fs os2))(tmp \<mapsto> FFile d)"
    using healthy_no_fault [OF h f2] by (auto simp: File_Write_def go_maps)
  have f3: "os_frame (ldb_os b) os3" by (rule os_frame_trans [OF f2 os_frame_Write [OF wr(1)]])
  have cl: "File_Close os3 = (tick os3, None)"
    using healthy_no_fault [OF h f3] by (simp add: File_Close_def)
  have f4: "os_frame (ldb_os b) (tick os3)" by (rule os_frame_trans [OF f3 os_frame_tick])
  have tmp: "map_of (os_fs os2) = (map_of fs1)(tmp \<mapsto> FFile [])" "\<exists>m. tmp = epoch_path b e @ [n @ ''.tmp.'' @ FormatUint m]"
    using create_temp_lookup [OF ct] dir(2) by (auto simp: go_maps)
  have "map_of fs1 (state_path b e n) \<noteq> Some FDir"
    using mkdirs_epoch(2) [OF mk, of "state_path b e n"] h by (simp add: disk_healthy_def)
  then have "map_of (os_fs os3) (state_path b e n) \<noteq> Some FDir"
    using tmp wr(2) by auto
  then have "\<exists>os5. Rename tmp (state_path b e n) (tick os3) = (os5, None)"
    using healthy_no_fault [OF h f4] wr(2) by (simp add: Rename_def)
  with mk' ct' wr(1) cl n show ?thesis
    by (auto simp: Disk_Save_def Let_def)
qed

lemma Disk_Save_healthy:
  assumes h: "disk_healthy b" and n: "node_id_ok n" and save: "Disk_Save e n d b = (b', r)"
  shows "r = None \<and> disk_healthy b'"
proof -
  have r: "r = None" using Disk_Save_healthy_success [OF h n, of e d] save by simp
  note eff = Disk_Save_effect [OF save]
  from eff r obtain fs1 m where mk: "mkdirs [] (epoch_path b e) (os_fs (ldb_os b)) = Some fs1"
    and fs: "map_of (os_fs (ldb_os b')) = (map_of fs1)(state_path b e n \<mapsto> FFile d)"
    by (auto elim!: save_effect_cases)
  have "map_of (os_fs (ldb_os b')) (take k (ldb_baseDir b)) = Some FDir" if "k \<le> length (ldb_baseDir b)" for k
  proof -
    have "take k (ldb_baseDir b) \<noteq> state_path b e n"
      using that by (intro notI) (drule arg_cong [where f = length], simp)
    then show ?thesis
      using mkdirs_epoch(4) [OF mk] h that by (simp add: disk_healthy_def fs)
  qed
  moreover have "map_of (os_fs (ldb_os b')) (epoch_path b e') \<in> {None, Some FDir}" for e'
    using save_effect_dirs(1) [OF eff, of "epoch_path b e'"] h by (auto simp: disk_healthy_def)
  moreover have "map_of (os_fs (ldb_os b')) (state_path b e' n') \<noteq> Some FDir" for e' n'
    using save_effect_files [OF eff, of e' n'] h by (simp add: disk_healthy_def)
  moreover have "map_of (os_fs (ldb_os b')) (epoch_path b e' @ [n' @ ''.tmp.'' @ FormatUint m']) = None" for e' n' m'
    using mkdirs_epoch(2) [OF mk, of "epoch_path b e' @ [n' @ ''.tmp.'' @ FormatUint m']"] h temp_not_state [of n' m' n]
    by (simp add: fs disk_healthy_def)
  ultimately show ?thesis
    using r h Disk_Save_frame [OF save] by (simp add: disk_healthy_def os_frame_def)
qed

lemma healthy_base:
  "disk_healthy b \<Longrightarrow> k \<le> length (ldb_baseDir b) \<Longrightarrow>
   map_of (os_fs (ldb_os b)) (take k (ldb_baseDir b)) = Some FDir"
  by (simp add: disk_healthy_def)

lemma healthy_same_fs:
  "disk_healthy b \<Longrightarrow> ldb_baseDir b' = ldb_baseDir b \<Longrightarrow> os_frame (ldb_os b) (ldb_os b') \<Longrightarrow>
   os_fs (ldb_os b') = os_fs (ldb_os b) \<Longrightarrow> disk_healthy b'"
  by (simp add: disk_healthy_def os_frame_def)

lemma Disk_Load_fs: "Disk_Load e n b = (b', r) \<Longrightarrow> os_fs (ldb_os b') = os_fs (ldb_os b)"
  by (auto simp: Disk_Load_def Let_def ReadFile_def split: if_splits option.splits fsnode.splits)

lemma Disk_Load_result:
  assumes "Disk_Load e n b = (b', Inr x)" "node_id_ok n"
  shows "x = disk_contents b e n"
  using assms
  by (auto simp: Disk_Load_def Let_def ReadFile_def disk_contents_def node_id_ok_def
      split: if_splits option.splits fsnode.splits)

lemma no_file_prefix:
  "(\<And>k. k < n \<Longrightarrow> f k \<in> {None, Some FDir}) \<Longrightarrow>
   \<not> list_ex (\<lambda>k. case f k of Some (FFile _) \<Rightarrow> True | _ \<Rightarrow> False) [0..<n]"
  by (fastforce simp: list_ex_iff split: option.splits fsnode.splits)

lemma Disk_Load_healthy:
  assumes h: "disk_healthy b" and n: "node_id_ok n" and load: "Disk_Load e n b = (b', r)"
  shows "r = Inr (disk_contents b e n) \<and> disk_healthy b'"
proof -
  let ?p = "state_path b e n" and ?fs = "os_fs (ldb_os b)"
  have J: "Join (ldb_baseDir b) [FormatUint (unat e), n @ ''.state''] = ?p"
    using Join_state [OF n, of "epoch_path b e"] by simp
  have "map_of ?fs (take k ?p) \<in> {None, Some FDir}" if "k < length ?p" for k
  proof (cases "k \<le> length (ldb_baseDir b)")
    case False
    with that have "k = Suc (length (ldb_baseDir b))" by simp
    with h show ?thesis by (simp add: disk_healthy_def)
  qed (use h in \<open>simp add: disk_healthy_def\<close>)
  then have "\<not> list_ex (\<lambda>k. case map_of ?fs (take k ?p) of Some (FFile _) \<Rightarrow> True | _ \<Rightarrow> False) [0..<length ?p]"
    by (rule no_file_prefix)
  moreover have "map_of ?fs ?p \<noteq> Some FDir"
    using h by (simp add: disk_healthy_def)
  ultimately have "r = Inr (disk_contents b e n)"
    using load healthy_no_fault [OF h, of "ldb_os b"] unfolding Disk_Load_def J Let_def ReadFile_def
    by (auto simp: os_frame_def disk_contents_def split: option.splits fsnode.splits if_splits)
  then show ?thesis
    using healthy_same_fs [OF h] Disk_Load_frame [OF load] Disk_Load_fs [OF load] by blast
qed

text \<open>The listing: each epoch directory once, in ascending order.\<close>

lemma ParseUint_bound: "ParseUint name = Some k \<Longrightarrow> k < 2 ^ 64"
  by (auto simp: ParseUint_def Let_def split: if_splits)

lemma word_of_nat_u64_inject:
  assumes "j < 2 ^ 64" "k < 2 ^ 64" "(word_of_nat j :: u64) = word_of_nat k"
  shows "j = k"
proof -
  have "unat (word_of_nat j :: u64) = j" "unat (word_of_nat k :: u64) = k"
    using assms(1,2) by (simp_all add: unat_of_nat)
  with assms(3) show ?thesis by metis
qed

lemma parse_epochs_Nil [simp]: "parse_epochs (dir_entries d []) = []"
  by (simp add: parse_epochs_def dir_entries_def)

lemma parse_epochs_dir [simp]:
  "parse_epochs (dir_entries d ((d @ [name], FDir) # fs)) =
     (case ParseUint name of None \<Rightarrow> [] | Some k \<Rightarrow> [word_of_nat k]) @ parse_epochs (dir_entries d fs)"
  by (simp add: parse_epochs_def dir_entries_def)

lemma parse_epochs_other [simp]:
  "(\<And>name. (p, node) \<noteq> (d @ [name], FDir)) \<Longrightarrow>
   parse_epochs (dir_entries d ((p, node) # fs)) = parse_epochs (dir_entries d fs)"
  by (cases p rule: rev_cases) (auto simp: parse_epochs_def dir_entries_def)

lemma parse_epochs_mem:
  "e \<in> set (parse_epochs (dir_entries d fs)) \<longleftrightarrow>
     (\<exists>name k. (d @ [name], FDir) \<in> set fs \<and> ParseUint name = Some k \<and> e = word_of_nat k)"
proof (induction fs)
  case (Cons x fs)
  obtain p node where x: "x = (p, node)" by (cases x)
  show ?case
  proof (cases "\<exists>name. x = (d @ [name], FDir)")
    case True
    then obtain name where "x = (d @ [name], FDir)" by blast
    with Cons.IH show ?thesis by (cases "ParseUint name") auto
  next
    case False
    then have "parse_epochs (dir_entries d (x # fs)) = parse_epochs (dir_entries d fs)"
      unfolding x by (intro parse_epochs_other) blast
    with False Cons.IH show ?thesis by auto
  qed
qed simp

lemma parse_epochs_distinct:
  assumes "gomap_ok fs" "\<And>name k. (d @ [name], FDir) \<in> set fs \<Longrightarrow> ParseUint name = Some k \<Longrightarrow> name = FormatUint k"
  shows "distinct (parse_epochs (dir_entries d fs))"
  using assms
proof (induction fs)
  case (Cons x fs)
  obtain p node where x: "x = (p, node)" by (cases x)
  have IH: "distinct (parse_epochs (dir_entries d fs))"
    using Cons.IH Cons.prems by simp
  show ?case
  proof (cases "\<exists>name k. x = (d @ [name], FDir) \<and> ParseUint name = Some k")
    case True
    then obtain name k where n: "x = (d @ [name], FDir)" "ParseUint name = Some k" by blast
    have "word_of_nat k \<notin> set (parse_epochs (dir_entries d fs))"
    proof
      assume "word_of_nat k \<in> set (parse_epochs (dir_entries d fs))"
      then obtain name' k' where n': "(d @ [name'], FDir) \<in> set fs" "ParseUint name' = Some k'"
        "(word_of_nat k :: u64) = word_of_nat k'"
        using parse_epochs_mem by blast
      have "k = k'"
        by (rule word_of_nat_u64_inject [OF ParseUint_bound [OF n(2)] ParseUint_bound [OF n'(2)] n'(3)])
      then have "name = name'"
        using Cons.prems(2) [of name k] Cons.prems(2) [of name' k'] n n' by simp
      with n(1) n'(1) Cons.prems(1) show False by (force simp: image_iff)
    qed
    with IH n show ?thesis by simp
  next
    case False
    then have "parse_epochs (dir_entries d (x # fs)) = parse_epochs (dir_entries d fs)"
      unfolding x by (cases "\<exists>name. (p, node) = (d @ [name], FDir)") (auto split: option.splits)
    with IH show ?thesis by simp
  qed
qed simp

lemma disk_listing:
  assumes "disk_ok b"
  shows "distinct (parse_epochs (dir_entries (ldb_baseDir b) (os_fs (ldb_os b))))"
    and "set (parse_epochs (dir_entries (ldb_baseDir b) (os_fs (ldb_os b)))) = disk_epochs b"
proof -
  let ?fs = "os_fs (ldb_os b)" and ?d = "ldb_baseDir b"
  have ok: "gomap_ok ?fs" using assms by (simp add: disk_ok_def)
  note mem = map_of_eq_Some_iff [OF ok]
  have canon: "name = FormatUint k" if "(?d @ [name], FDir) \<in> set ?fs" "ParseUint name = Some k" for name k
    using assms that mem by (simp add: disk_ok_def)
  show "distinct (parse_epochs (dir_entries ?d ?fs))"
    by (rule parse_epochs_distinct [OF ok canon])
  have "e \<in> set (parse_epochs (dir_entries ?d ?fs)) \<longleftrightarrow> e \<in> disk_epochs b" for e
  proof
    assume "e \<in> set (parse_epochs (dir_entries ?d ?fs))"
    then obtain name k where n: "(?d @ [name], FDir) \<in> set ?fs" "ParseUint name = Some k" "e = word_of_nat k"
      using parse_epochs_mem by blast
    moreover have "unat e = k"
      using ParseUint_bound [OF n(2)] n(3) by (simp add: unat_of_nat)
    ultimately show "e \<in> disk_epochs b"
      using canon [OF n(1,2)] mem by (simp add: disk_epochs_def)
  next
    assume "e \<in> disk_epochs b"
    then have "(?d @ [FormatUint (unat e)], FDir) \<in> set ?fs"
      using mem by (simp add: disk_epochs_def)
    then show "e \<in> set (parse_epochs (dir_entries ?d ?fs))"
      unfolding parse_epochs_mem by (intro exI conjI) (assumption, simp, simp)
  qed
  then show "set (parse_epochs (dir_entries ?d ?fs)) = disk_epochs b" by blast
qed

lemma Disk_ListEpochs_fs: "Disk_ListEpochs b = (b', r) \<Longrightarrow> os_fs (ldb_os b') = os_fs (ldb_os b)"
  by (auto simp: Disk_ListEpochs_def ReadDir_def split: if_splits)

lemma Disk_ListEpochs_result:
  assumes "Disk_ListEpochs b = (b', Inr es)" "disk_ok b"
  shows "sorted es \<and> distinct es \<and> set es = disk_epochs b"
proof -
  have "es = sort (parse_epochs (dir_entries (ldb_baseDir b) (os_fs (ldb_os b))))"
    using assms(1) by (auto simp: Disk_ListEpochs_def ReadDir_def split: if_splits)
  with disk_listing [OF assms(2)] show ?thesis by simp
qed

lemma Disk_ListEpochs_healthy:
  assumes "disk_healthy b" "Disk_ListEpochs b = (b', r)"
  shows "(\<exists>es. r = Inr es) \<and> disk_healthy b'"
proof -
  have "map_of (os_fs (ldb_os b)) (ldb_baseDir b) = Some FDir"
    using healthy_base [OF assms(1), of "length (ldb_baseDir b)"] by simp
  moreover have "\<not> faulty (ldb_os b)"
    using healthy_no_fault [OF assms(1)] by (simp add: os_frame_def)
  ultimately have "\<exists>es. r = Inr es"
    using assms(2) by (auto simp: Disk_ListEpochs_def ReadDir_def)
  then show ?thesis
    using healthy_same_fs [OF assms(1)] Disk_ListEpochs_frame [OF assms(2)] Disk_ListEpochs_fs [OF assms(2)] by blast
qed

lemma Disk_Delete_healthy:
  assumes h: "disk_healthy b" and del: "Disk_Delete e b = (b', r)"
  shows "r = None \<and> disk_healthy b'"
proof -
  have r: "r = None"
    using del healthy_no_fault [OF h, of "ldb_os b"]
    by (auto simp: Disk_Delete_def RemoveAll_def Let_def os_frame_def split: if_splits)
  have "take k (ldb_baseDir b) \<noteq> epoch_path b e" for k
    by (intro notI) (drule arg_cong [where f = length], simp)
  with Disk_Delete_effect [OF del] Disk_Delete_frame [OF del] h r show ?thesis
    by (simp add: disk_healthy_def os_frame_def)
qed

section \<open>The interface\<close>

text \<open>
  What a client of \<open>CheckpointBackend\<close> relies on: \<open>contents\<close> is what is stored, \<open>epochs\<close> the epochs
  that exist, \<open>healthy\<close> that storage does not fail, \<open>valid\<close> the node ids it can store. A failed
  save changes nothing that can be read.
\<close>

locale checkpoint_backend =
  fixes cb :: "'b CheckpointBackend"
    and invar healthy :: "'b \<Rightarrow> bool"
    and valid :: "string \<Rightarrow> bool"
    and contents :: "'b \<Rightarrow> u64 \<Rightarrow> string \<Rightarrow> bytes option"
    and epochs :: "'b \<Rightarrow> u64 set"
  assumes save_invar: "cb_Save cb e n d b = (b', r) \<Longrightarrow> invar b \<Longrightarrow> invar b'"
    and save_contents: "cb_Save cb e n d b = (b', r) \<Longrightarrow>
      contents b' = (case r of None \<Rightarrow> (contents b)(e := (contents b e)(n \<mapsto> d)) | Some _ \<Rightarrow> contents b)"
    and save_epochs: "cb_Save cb e n d b = (b', None) \<Longrightarrow> epochs b' = insert e (epochs b)"
    and save_healthy: "cb_Save cb e n d b = (b', r) \<Longrightarrow> healthy b \<Longrightarrow> valid n \<Longrightarrow> r = None \<and> healthy b'"
    and load_same: "cb_Load cb e n b = (b', lr) \<Longrightarrow> invar b \<Longrightarrow> invar b' \<and> contents b' = contents b \<and> epochs b' = epochs b"
    and load_healthy: "cb_Load cb e n b = (b', lr) \<Longrightarrow> healthy b \<Longrightarrow> valid n \<Longrightarrow> lr = Inr (contents b e n) \<and> healthy b'"
    and list_same: "cb_ListEpochs cb b = (b', r') \<Longrightarrow> invar b \<Longrightarrow> invar b' \<and> contents b' = contents b \<and> epochs b' = epochs b"
    and list_result: "cb_ListEpochs cb b = (b', Inr es) \<Longrightarrow> invar b \<Longrightarrow> sorted es \<and> distinct es \<and> set es = epochs b"
    and list_healthy: "cb_ListEpochs cb b = (b', r') \<Longrightarrow> healthy b \<Longrightarrow> (\<exists>es. r' = Inr es) \<and> healthy b'"
    and delete_invar: "cb_Delete cb e b = (b', r) \<Longrightarrow> invar b \<Longrightarrow> invar b'"
    and delete_other: "cb_Delete cb e b = (b', r) \<Longrightarrow> e' \<noteq> e \<Longrightarrow> contents b' e' = contents b e'"
    and delete_done: "cb_Delete cb e b = (b', None) \<Longrightarrow> contents b' e = (\<lambda>_. None) \<and> epochs b' = epochs b - {e}"
    and delete_healthy: "cb_Delete cb e b = (b', r) \<Longrightarrow> healthy b \<Longrightarrow> r = None \<and> healthy b'"

lemma disk_ok_same_fs:
  "disk_ok b \<Longrightarrow> ldb_baseDir b' = ldb_baseDir b \<Longrightarrow> os_fs (ldb_os b') = os_fs (ldb_os b) \<Longrightarrow>
   disk_ok b' \<and> disk_contents b' = disk_contents b \<and> disk_epochs b' = disk_epochs b"
  by (simp add: disk_ok_def disk_contents_def disk_epochs_def fun_eq_iff)

lemma LocalDisk_methods [simp]:
  "cb_Save LocalDisk = Disk_Save" "cb_Load LocalDisk = Disk_Load"
  "cb_ListEpochs LocalDisk = Disk_ListEpochs" "cb_Delete LocalDisk = Disk_Delete"
  by (simp_all add: LocalDisk_def)

interpretation disk: checkpoint_backend LocalDisk disk_ok disk_healthy node_id_ok disk_contents disk_epochs
proof (unfold_locales, unfold LocalDisk_methods, goal_cases)
  case 1 then show ?case by (rule Disk_Save_ok)
next
  case 2 then show ?case by (rule Disk_Save_contents)
next
  case 3 then show ?case by (rule Disk_Save_epochs)
next
  case 4 then show ?case using Disk_Save_healthy by blast
next
  case 5 then show ?case using disk_ok_same_fs Disk_Load_frame Disk_Load_fs by blast
next
  case 6 then show ?case using Disk_Load_healthy by blast
next
  case 7 then show ?case using disk_ok_same_fs Disk_ListEpochs_frame Disk_ListEpochs_fs by blast
next
  case 8 then show ?case by (rule Disk_ListEpochs_result)
next
  case 9 then show ?case using Disk_ListEpochs_healthy by blast
next
  case 10 then show ?case by (rule Disk_Delete_ok)
next
  case 11 then show ?case by (rule Disk_Delete_contents)
next
  case 12 then show ?case using Disk_Delete_contents(2) by blast
next
  case 13 then show ?case using Disk_Delete_healthy by blast
qed

section \<open>Properties\<close>

text \<open>
  C21. Saving is atomic. Whichever of its system calls fail, the write and the close of the
  temporary file, the rename and the clean-up included: after a call of \<open>Save\<close> that reports success
  the saved state is stored and everything else is as before, and after one that reports an error
  every stored state of every epoch and node is exactly what it was.
\<close>

theorem save_atomic:
  "case Disk_Save epoch nodeID data b of (b', r) \<Rightarrow>
     disk_contents b' = (case r of
         None \<Rightarrow> (disk_contents b)(epoch := (disk_contents b epoch)(nodeID \<mapsto> data))
       | Some _ \<Rightarrow> disk_contents b)"
  by (auto split: prod.splits simp: Disk_Save_contents)

end
