(* ===== verification/Checkpoint_Manager.thy ===== *)
theory Checkpoint_Manager
  imports Checkpoint_Backend Controller
begin

text \<open>
  The checkpoint manager of \<open>internal/engine/checkpoint_manager.go\<close>: it collects the states the
  nodes report, saves them through a \<open>CheckpointBackend\<close>, prunes old epochs and loads the states
  back. Its lemmas are proved once for every backend that satisfies the laws of the locale
  \<open>checkpoint_backend\<close>. The state of the backend is passed alongside the manager's.
\<close>

record CheckpointManager =
  mgr_keepCount :: int
  mgr_nodeStates :: "(u64, (string, bytes) gomap) gomap"

definition NewCheckpointManager :: "int \<Rightarrow> CheckpointManager" where
  "NewCheckpointManager keepCount = \<lparr>mgr_keepCount = keepCount, mgr_nodeStates = []\<rparr>"

definition CollectState :: "NodeCompletion \<Rightarrow> CheckpointManager \<Rightarrow> CheckpointManager" where
  "CollectState completion m =
     (let epoch = nc_Epoch completion;
          states = (case map_of (mgr_nodeStates m) epoch of None \<Rightarrow> [] | Some st \<Rightarrow> st)
      in m\<lparr>mgr_nodeStates := AList.update epoch
             (AList.update (nc_NodeID completion) (nc_State completion) states) (mgr_nodeStates m)\<rparr>)"

primrec delete_epochs :: "'b CheckpointBackend \<Rightarrow> u64 list \<Rightarrow> 'b \<Rightarrow> 'b \<times> error option" where
  "delete_epochs cb [] b = (b, None)"
| "delete_epochs cb (epoch # toDelete) b =
     (case cb_Delete cb epoch b of
        (b, Some err) \<Rightarrow> (b, Some (Wrapped (''delete epoch '' @ FormatUint (unat epoch)) err))
      | (b, None) \<Rightarrow> delete_epochs cb toDelete b)"

definition cleanupOldCheckpoints :: "'b CheckpointBackend \<Rightarrow> CheckpointManager \<Rightarrow> 'b \<Rightarrow> 'b \<times> error option" where
  "cleanupOldCheckpoints cb m b =
     (case cb_ListEpochs cb b of
        (b, Inl err) \<Rightarrow> (b, Some err)
      | (b, Inr epochs) \<Rightarrow>
          if int (length epochs) \<le> mgr_keepCount m then (b, None)
          else let epochs = sort epochs;
                   toDelete = take (length epochs - nat (mgr_keepCount m)) epochs
               in delete_epochs cb toDelete b)"

primrec save_states ::
  "'b CheckpointBackend \<Rightarrow> u64 \<Rightarrow> (string, bytes) gomap \<Rightarrow> string list \<Rightarrow> 'b \<Rightarrow> 'b \<times> error option" where
  "save_states cb epoch states [] b = (b, None)"
| "save_states cb epoch states (nodeID # ks) b =
     (case cb_Save cb epoch nodeID (the (map_of states nodeID)) b of
        (b, Some err) \<Rightarrow>
          (b, Some (Wrapped (''save state for node '' @ nodeID @ '' epoch '' @ FormatUint (unat epoch)) err))
      | (b, None) \<Rightarrow> save_states cb epoch states ks b)"

text \<open>\<open>ks\<close> is the order in which \<open>range\<close> visits the collected states of the epoch.\<close>

definition SaveCheckpoint ::
  "'b CheckpointBackend \<Rightarrow> string list \<Rightarrow> u64 \<Rightarrow> CheckpointManager \<Rightarrow> 'b \<Rightarrow>
     CheckpointManager \<times> 'b \<times> error option" where
  "SaveCheckpoint cb ks epoch m b =
     (case map_of (mgr_nodeStates m) epoch of
        None \<Rightarrow> (m, b, None)
      | Some states \<Rightarrow>
          let finished = m\<lparr>mgr_nodeStates := AList.delete epoch (mgr_nodeStates m)\<rparr>
          in case save_states cb epoch states ks b of
               (b, Some err) \<Rightarrow> (m, b, Some err)
             | (b, None) \<Rightarrow>
                 if mgr_keepCount m > 0 then
                   (case cleanupOldCheckpoints cb m b of
                      (b, Some err) \<Rightarrow> (m, b, Some (Wrapped ''cleanup old checkpoints'' err))
                    | (b, None) \<Rightarrow> (finished, b, None))
                 else (finished, b, None))"

primrec restore_nodes ::
  "'b CheckpointBackend \<Rightarrow> u64 \<Rightarrow> string list \<Rightarrow> (string, bytes) gomap \<Rightarrow> 'b \<Rightarrow>
     'b \<times> (error + (string, bytes) gomap)" where
  "restore_nodes cb epoch [] result b = (b, Inr result)"
| "restore_nodes cb epoch (nodeID # nodeIDs) result b =
     (case cb_Load cb epoch nodeID b of
        (b, Inl err) \<Rightarrow>
          (b, Inl (Wrapped (''load state for node '' @ nodeID @ '' epoch '' @ FormatUint (unat epoch)) err))
      | (b, Inr None) \<Rightarrow> restore_nodes cb epoch nodeIDs result b
      | (b, Inr (Some data)) \<Rightarrow> restore_nodes cb epoch nodeIDs (AList.update nodeID data result) b)"

definition RestoreNodes ::
  "'b CheckpointBackend \<Rightarrow> u64 \<Rightarrow> string list \<Rightarrow> 'b \<Rightarrow> 'b \<times> (error + (string, bytes) gomap)" where
  "RestoreNodes cb epoch nodeIDs b = restore_nodes cb epoch nodeIDs [] b"

text \<open>\<open>Inr None\<close> is the result \<open>(0, false, nil)\<close>.\<close>

definition LatestEpoch :: "'b CheckpointBackend \<Rightarrow> 'b \<Rightarrow> 'b \<times> (error + u64 option)" where
  "LatestEpoch cb b =
     (case cb_ListEpochs cb b of
        (b, Inl err) \<Rightarrow> (b, Inl err)
      | (b, Inr epochs) \<Rightarrow>
          if length epochs = 0 then (b, Inr None) else (b, Inr (Some (epochs ! (length epochs - 1)))))"

section \<open>The collected states\<close>

lemma CollectState_keep [simp]: "mgr_keepCount (CollectState r m) = mgr_keepCount m"
  by (simp add: CollectState_def Let_def)

definition collected :: "CheckpointManager \<Rightarrow> u64 \<Rightarrow> string \<Rightarrow> bytes option" where
  "collected m e n = (case map_of (mgr_nodeStates m) e of None \<Rightarrow> None | Some st \<Rightarrow> map_of st n)"

lemma collected_new [simp]: "collected (NewCheckpointManager k) e n = None"
  by (simp add: collected_def NewCheckpointManager_def)

lemma collected_CollectState:
  "collected (CollectState r m) e n =
     (if nc_Epoch r = e \<and> nc_NodeID r = n then Some (nc_State r) else collected m e n)"
  by (auto simp: collected_def CollectState_def Let_def go_maps split: option.splits)

lemma collected_fold:
  "collected (fold CollectState rs m) e n =
     (case states_of (filter (\<lambda>r. nc_Epoch r = e) rs) n of None \<Rightarrow> collected m e n | Some d \<Rightarrow> Some d)"
proof (induction rs rule: rev_induct)
  case (snoc r rs)
  then show ?case by (simp add: collected_CollectState states_of_def)
qed (simp add: states_of_def)

lemma fold_CollectState_keep [simp]: "mgr_keepCount (fold CollectState rs m) = mgr_keepCount m"
  by (induction rs arbitrary: m) simp_all

section \<open>For every backend\<close>

lemma sorted_le_last: "sorted es \<Longrightarrow> x \<in> set es \<Longrightarrow> x \<le> last (es :: u64 list)"
  by (induction es) auto

lemma sorted_last_Max:
  assumes "sorted (es :: u64 list)" "es \<noteq> []"
  shows "Max (set es) = last es"
  by (rule Max_eqI) (use assms sorted_le_last in auto)

text \<open>The last \<open>k\<close> of a strictly sorted list are those with fewer than \<open>k\<close> larger ones.\<close>

lemma drop_sorted_set:
  assumes "sorted es" "distinct (es :: u64 list)"
  shows "set (drop (length es - k) es) = {e \<in> set es. card {e' \<in> set es. e < e'} < k}"
  using assms
proof (induction es)
  case (Cons x es)
  have gt: "x < y" if "y \<in> set es" for y
    using Cons.prems that by (auto simp: order_less_le)
  have eq: "{e' \<in> set (x # es). e < e'} = {e' \<in> set es. e < e'}" if "e \<in> set (x # es)" for e
    using that gt by (auto dest: order.strict_trans)
  have IH: "set (drop (length es - k) es) = {e \<in> set es. card {e' \<in> set es. e < e'} < k}"
    using Cons by simp
  have x: "card {e' \<in> set es. x < e'} = length es"
    using gt Cons.prems by (metis (mono_tags, lifting) Collect_cong Collect_mem_eq distinct.simps(2) distinct_card)
  show ?case
  proof (cases "length (x # es) \<le> k")
    case True
    then have "length es - k = 0" "length (x # es) - k = 0" by simp_all
    with IH True x eq show ?thesis
      by auto
  next
    case False
    then have "length (x # es) - k = Suc (length es - k)" by simp
    with IH False x eq show ?thesis
      by auto
  qed
qed simp

text \<open>The \<open>k\<close> largest of a set of epochs.\<close>

definition newest :: "int \<Rightarrow> u64 set \<Rightarrow> u64 set" where
  "newest k es = {e \<in> es. int (card {e' \<in> es. e < e'}) < k}"

lemma newest_Max:
  assumes "es \<noteq> {}" "0 < k"
  shows "Max es \<in> newest k es"
proof -
  have "Max es \<in> es" using assms(1) by (intro Max_in) simp_all
  moreover have le: "x \<le> Max es" if "x \<in> es" for x
    using that by (intro Max_ge) simp_all
  then have none: "{e' \<in> es. Max es < e'} = {}"
    by (simp add: leD)
  ultimately show ?thesis
    using assms(2) unfolding newest_def mem_Collect_eq none by simp
qed

lemma newest_single: "0 < k \<Longrightarrow> newest k {e} = {e}"
  using newest_Max [of "{e}" k] by (auto simp: newest_def)

context checkpoint_backend
begin

text \<open>Saving the states of an epoch on healthy storage.\<close>

lemma save_states_healthy:
  assumes "invar b" "healthy b" "distinct ks" "list_all valid ks"
  shows "\<exists>b'. save_states cb e st ks b = (b', None) \<and> invar b' \<and> healthy b' \<and>
    epochs b' = (if ks = [] then epochs b else insert e (epochs b)) \<and>
    (\<forall>e' n. contents b' e' n = (if e' = e \<and> n \<in> set ks then Some (the (map_of st n)) else contents b e' n))"
  using assms
proof (induction ks arbitrary: b)
  case (Cons k ks)
  obtain b1 r where save: "cb_Save cb e k (the (map_of st k)) b = (b1, r)" by force
  have r: "r = None" "healthy b1" "invar b1"
    using save_healthy [OF save] save_invar [OF save] Cons.prems by auto
  note c1 = save_contents [OF save] save_epochs [OF save [unfolded r(1)]]
  obtain b2 where b2: "save_states cb e st ks b1 = (b2, None)" "invar b2" "healthy b2"
    "epochs b2 = (if ks = [] then epochs b1 else insert e (epochs b1))"
    "\<And>e' n. contents b2 e' n = (if e' = e \<and> n \<in> set ks then Some (the (map_of st n)) else contents b1 e' n)"
    using Cons.IH [OF r(3,2)] Cons.prems by auto
  show ?case
  proof (intro exI conjI allI)
    show "save_states cb e st (k # ks) b = (b2, None)" using save r(1) b2(1) by simp
    show "epochs b2 = (if k # ks = [] then epochs b else insert e (epochs b))" using b2(4) c1(2) by auto
    show "contents b2 e' n = (if e' = e \<and> n \<in> set (k # ks) then Some (the (map_of st n)) else contents b e' n)" for e' n
      using b2(5) c1(1) r(1) Cons.prems(3) by auto
  qed (use b2 in auto)
qed simp

lemma delete_epochs_healthy:
  assumes "invar b" "healthy b"
  shows "\<exists>b'. delete_epochs cb es b = (b', None) \<and> invar b' \<and> healthy b' \<and> epochs b' = epochs b - set es \<and>
    (\<forall>e. e \<notin> set es \<longrightarrow> contents b' e = contents b e)"
  using assms
proof (induction es arbitrary: b)
  case (Cons e es)
  obtain b1 r where del: "cb_Delete cb e b = (b1, r)" by force
  have r: "r = None" "healthy b1" "invar b1"
    using delete_healthy [OF del] delete_invar [OF del] Cons.prems by auto
  obtain b2 where b2: "delete_epochs cb es b1 = (b2, None)" "invar b2" "healthy b2"
    "epochs b2 = epochs b1 - set es" "\<And>e'. e' \<notin> set es \<Longrightarrow> contents b2 e' = contents b1 e'"
    using Cons.IH [OF r(3,2)] by auto
  have "epochs b2 = epochs b - set (e # es)"
    using b2(4) delete_done [OF del [unfolded r(1)]] by auto
  moreover have "contents b2 e' = contents b e'" if "e' \<notin> set (e # es)" for e'
    using b2(5) delete_other [OF del] that by auto
  ultimately show ?case
    using del r(1) b2 by auto
qed simp

text \<open>Cleaning up keeps exactly the newest \<open>keepCount\<close> epochs.\<close>

lemma cleanup_healthy:
  assumes "invar b" "healthy b" "0 < mgr_keepCount m"
  shows "\<exists>b'. cleanupOldCheckpoints cb m b = (b', None) \<and> invar b' \<and> healthy b' \<and>
    epochs b' = newest (mgr_keepCount m) (epochs b) \<and>
    (\<forall>e \<in> newest (mgr_keepCount m) (epochs b). contents b' e = contents b e)"
proof -
  obtain b1 r where ls: "cb_ListEpochs cb b = (b1, r)" by force
  then obtain es where r: "r = Inr es" "healthy b1" using list_healthy [OF ls] assms by blast
  have b1: "invar b1" "contents b1 = contents b" "epochs b1 = epochs b"
    using list_same [OF ls assms(1)] by auto
  have es: "sorted es" "distinct es" "set es = epochs b"
    using list_result [OF ls [unfolded r(1)] assms(1)] by auto
  let ?k = "nat (mgr_keepCount m)" and ?d = "length es - nat (mgr_keepCount m)"
  have new: "newest (mgr_keepCount m) (epochs b) = set (drop ?d es)"
    using drop_sorted_set [OF es(1,2), of ?k] assms(3) es(3)
    by (auto simp: newest_def zless_nat_eq_int_zless)
  show ?thesis
  proof (cases "int (length es) \<le> mgr_keepCount m")
    case True
    then have "?d = 0" by simp
    with True ls r b1 new es(3) show ?thesis
      by (auto simp: cleanupOldCheckpoints_def)
  next
    case False
    obtain b2 where b2: "delete_epochs cb (take ?d es) b1 = (b2, None)" "invar b2" "healthy b2"
      "epochs b2 = epochs b1 - set (take ?d es)" "\<And>e. e \<notin> set (take ?d es) \<Longrightarrow> contents b2 e = contents b1 e"
      using delete_epochs_healthy [OF b1(1) r(2)] by blast
    have disj: "set (take ?d es) \<inter> set (drop ?d es) = {}"
      using es(2) by (metis append_take_drop_id distinct_append)
    have "set es = set (take ?d es) \<union> set (drop ?d es)"
      by (metis append_take_drop_id set_append)
    with disj b2(4) b1(3) es(3) new have "epochs b2 = newest (mgr_keepCount m) (epochs b)" by auto
    moreover have "contents b2 e = contents b e" if "e \<in> newest (mgr_keepCount m) (epochs b)" for e
      using that new disj b2(5) [of e] b1(2) by auto
    ultimately show ?thesis
      using False ls r(1) b2 es(1) by (auto simp: cleanupOldCheckpoints_def Let_def sorted_sort_id)
  qed
qed

lemma restore_nodes_healthy:
  assumes "invar b" "healthy b" "list_all valid ids"
  shows "\<exists>b' res. restore_nodes cb e ids acc b = (b', Inr res) \<and> healthy b' \<and>
    (\<forall>n. map_of res n = (if n \<in> set ids \<and> contents b e n \<noteq> None then contents b e n else map_of acc n))"
  using assms
proof (induction ids arbitrary: b acc)
  case (Cons i ids)
  obtain b1 r where load: "cb_Load cb e i b = (b1, r)" by force
  have r: "r = Inr (contents b e i)" "healthy b1" using load_healthy [OF load] Cons.prems by auto
  have b1: "invar b1" "contents b1 = contents b" using load_same [OF load] Cons.prems by auto
  let ?acc = "case contents b e i of None \<Rightarrow> acc | Some d \<Rightarrow> AList.update i d acc"
  obtain b2 res where "restore_nodes cb e ids ?acc b1 = (b2, Inr res)" "healthy b2"
    "\<And>n. map_of res n = (if n \<in> set ids \<and> contents b1 e n \<noteq> None then contents b1 e n else map_of ?acc n)"
    using Cons.IH [OF b1(1) r(2), of ?acc] Cons.prems(3) by auto
  with load r(1) b1(2) show ?case
    by (cases "contents b e i") (auto simp: go_maps)
qed simp

text \<open>The whole of \<open>SaveCheckpoint\<close> on healthy storage.\<close>

lemma SaveCheckpoint_healthy:
  assumes "invar b" "healthy b" "map_of (mgr_nodeStates m) e = Some st" "st \<noteq> []" "range_order ks st" "list_all valid ks"
  shows "\<exists>m' b'. SaveCheckpoint cb ks e m b = (m', b', None) \<and> invar b' \<and> healthy b' \<and>
    mgr_nodeStates m' = AList.delete e (mgr_nodeStates m) \<and>
    epochs b' = (if 0 < mgr_keepCount m then newest (mgr_keepCount m) (insert e (epochs b)) else insert e (epochs b)) \<and>
    (\<forall>e' \<in> epochs b'. contents b' e' = (if e' = e then (\<lambda>n. case map_of st n of None \<Rightarrow> contents b e n | Some d \<Rightarrow> Some d)
        else contents b e'))"
proof -
  have ks: "distinct ks" "ks \<noteq> []" "set ks = dom (map_of st)"
    using assms(4,5) by (auto simp: range_order_def dom_map_of_conv_image_fst)
  obtain b1 where b1: "save_states cb e st ks b = (b1, None)" "invar b1" "healthy b1" "epochs b1 = insert e (epochs b)"
    and c1: "\<And>e' n. contents b1 e' n = (if e' = e \<and> n \<in> set ks then Some (the (map_of st n)) else contents b e' n)"
    using save_states_healthy [OF assms(1,2) ks(1) assms(6), where e = e and st = st] ks(2) by auto
  have con: "contents b1 e' = (if e' = e then (\<lambda>n. case map_of st n of None \<Rightarrow> contents b e n | Some d \<Rightarrow> Some d)
      else contents b e')" for e'
    using c1 ks(3) by (auto simp: fun_eq_iff domIff split: option.splits)
  show ?thesis
  proof (cases "0 < mgr_keepCount m")
    case True
    obtain b2 where b2: "cleanupOldCheckpoints cb m b1 = (b2, None)" "invar b2" "healthy b2"
      "epochs b2 = newest (mgr_keepCount m) (epochs b1)"
      "\<forall>e \<in> newest (mgr_keepCount m) (epochs b1). contents b2 e = contents b1 e"
      using cleanup_healthy [OF b1(2,3) True] by blast
    show ?thesis
      using assms(3) b1 b2 True con by (simp add: SaveCheckpoint_def Let_def)
  next
    case False
    then show ?thesis
      using assms(3) b1 con by (simp add: SaveCheckpoint_def Let_def)
  qed
qed

lemma RestoreNodes_healthy:
  assumes "invar b" "healthy b" "list_all valid ids"
  shows "\<exists>b' res. RestoreNodes cb e ids b = (b', Inr res) \<and>
    (\<forall>n. map_of res n = (if n \<in> set ids then contents b e n else None))"
  using restore_nodes_healthy [OF assms, of e "[]"] by (auto simp: RestoreNodes_def)

lemma LatestEpoch_healthy:
  assumes "invar b" "healthy b"
  shows "\<exists>b'. LatestEpoch cb b = (b', Inr (if epochs b = {} then None else Some (Max (epochs b))))"
proof -
  obtain b1 r where ls: "cb_ListEpochs cb b = (b1, r)" by force
  then obtain es where r: "r = Inr es" using list_healthy [OF ls] assms by blast
  have es: "sorted es" "set es = epochs b"
    using list_result [OF ls [unfolded r] assms(1)] by auto
  have "Max (epochs b) = last es" if "es \<noteq> []"
    using sorted_last_Max [OF es(1) that] es(2) by simp
  with ls r es(2) show ?thesis
    by (auto simp: LatestEpoch_def last_conv_nth)
qed

end

section \<open>Properties\<close>

text \<open>A manager that has collected nothing for an epoch yet.\<close>

definition unused :: "u64 \<Rightarrow> CheckpointManager \<Rightarrow> bool" where
  "unused e m \<longleftrightarrow> map_of (mgr_nodeStates m) e = None"

lemma unused_new [simp]: "unused e (NewCheckpointManager k)"
  by (simp add: unused_def NewCheckpointManager_def)

lemma collected_states:
  assumes "map_of (mgr_nodeStates (fold CollectState rs m)) e = Some st" "unused e m"
  shows "map_of st = states_of (filter (\<lambda>r. nc_Epoch r = e) rs)"
proof
  fix n
  have "map_of st n = collected (fold CollectState rs m) e n"
    using assms(1) by (simp add: collected_def)
  moreover have "collected m e n = None"
    using assms(2) by (simp add: unused_def collected_def)
  ultimately show "map_of st n = states_of (filter (\<lambda>r. nc_Epoch r = e) rs) n"
    by (simp add: collected_fold split: option.splits)
qed

lemma states_of_dom: "dom (states_of rs) = reporters rs"
  by (auto simp: states_of_def dom_map_of_conv_image_fst image_iff)

lemma collected_exists:
  assumes "r \<in> set rs"
  obtains st where "map_of (mgr_nodeStates (fold CollectState rs m)) (nc_Epoch r) = Some st" "st \<noteq> []"
proof -
  let ?m = "fold CollectState rs m"
  have "nc_NodeID r \<in> dom (states_of (filter (\<lambda>r'. nc_Epoch r' = nc_Epoch r) rs))"
    using assms unfolding states_of_dom by auto
  then have "collected ?m (nc_Epoch r) (nc_NodeID r) \<noteq> None"
    by (auto simp: collected_fold)
  then obtain st where st: "map_of (mgr_nodeStates ?m) (nc_Epoch r) = Some st" "map_of st (nc_NodeID r) \<noteq> None"
    by (auto simp: collected_def split: option.splits)
  moreover from st(2) have "st \<noteq> []" by auto
  ultimately show thesis using that by blast
qed

lemma collected_valid:
  assumes "map_of (mgr_nodeStates (fold CollectState rs m)) e = Some st" "unused e m"
    and "range_order ks st" "list_all (\<lambda>r. node_id_ok (nc_NodeID r)) rs"
  shows "list_all node_id_ok ks"
proof -
  have "set ks = reporters (filter (\<lambda>r. nc_Epoch r = e) rs)"
    using assms(3) collected_states [OF assms(1,2)] states_of_dom
    by (metis dom_map_of_conv_image_fst list.set_map range_order_def)
  with assms(4) show ?thesis by (auto simp: list_all_iff)
qed

text \<open>Reports collected for an unused epoch and saved come back.\<close>

lemma saved_states_restored:
  assumes "disk_ok b" "disk_healthy b" "r \<in> set rs" "nc_Epoch r = e" "unused e m0"
    and "list_all (\<lambda>r. node_id_ok (nc_NodeID r)) rs" "list_all node_id_ok ids"
    and "mgr_keepCount m0 \<le> 0 \<or> e \<in> newest (mgr_keepCount m0) (insert e (disk_epochs b))"
    and "m = fold CollectState rs m0"
    and "range_order ks (the (map_of (mgr_nodeStates m) e))"
  shows "\<exists>m' b' b'' res. SaveCheckpoint LocalDisk ks e m b = (m', b', None) \<and>
    RestoreNodes LocalDisk e ids b' = (b'', Inr res) \<and>
    (\<forall>n \<in> set ids. map_of res n =
       (case states_of (filter (\<lambda>r. nc_Epoch r = e) rs) n of None \<Rightarrow> disk_contents b e n | Some d \<Rightarrow> Some d))"
proof -
  obtain st where st: "map_of (mgr_nodeStates m) e = Some st" "st \<noteq> []"
    using collected_exists [OF assms(3), of m0] assms(4,9) by metis
  have ks: "range_order ks st" using assms(10) st(1) by simp
  have valid: "list_all node_id_ok ks"
    using collected_valid [of rs m0 e st ks] st(1) ks assms(5,6,9) by simp
  have k: "mgr_keepCount m = mgr_keepCount m0" using assms(9) by simp
  obtain m' b' where save: "SaveCheckpoint LocalDisk ks e m b = (m', b', None)" "disk_ok b'" "disk_healthy b'"
    and ep: "disk_epochs b' = (if 0 < mgr_keepCount m0 then newest (mgr_keepCount m0) (insert e (disk_epochs b)) else insert e (disk_epochs b))"
    and con: "\<forall>e' \<in> disk_epochs b'. disk_contents b' e' =
      (if e' = e then (\<lambda>n. case map_of st n of None \<Rightarrow> disk_contents b e n | Some d \<Rightarrow> Some d) else disk_contents b e')"
    using disk.SaveCheckpoint_healthy [OF assms(1,2) st ks valid] unfolding k by blast
  have "e \<in> disk_epochs b'" using ep assms(8) by auto
  then have c: "disk_contents b' e = (\<lambda>n. case states_of (filter (\<lambda>r. nc_Epoch r = e) rs) n of
      None \<Rightarrow> disk_contents b e n | Some d \<Rightarrow> Some d)"
    using con collected_states [of rs m0 e st] st(1) assms(5,9) by simp
  obtain b'' res where "RestoreNodes LocalDisk e ids b' = (b'', Inr res)"
    "\<forall>n. map_of res n = (if n \<in> set ids then disk_contents b' e n else None)"
    using disk.RestoreNodes_healthy [OF save(2,3) assms(7), of e] by blast
  with save(1) c show ?thesis by auto
qed

text \<open>A fresh checkpoint directory, for the witnesses.\<close>

definition fresh_disk :: LocalDiskBackend where
  "fresh_disk = \<lparr>ldb_baseDir = [''ck''],
     ldb_os = \<lparr>os_fs = [([], FDir), ([''ck''], FDir)], os_fault = (\<lambda>_. False), os_partial = (\<lambda>_. False),
                os_calls = 0, os_rand = (\<lambda>n. n), os_draws = 0\<rparr>\<rparr>"

lemma fresh_disk_ok: "disk_ok fresh_disk" "disk_healthy fresh_disk" "disk_epochs fresh_disk = {}"
proof -
  have "k = 0 \<or> k = Suc 0" if "k \<le> Suc 0" for k using that by auto
  then show "disk_healthy fresh_disk" by (auto simp: disk_healthy_def fresh_disk_def)
qed (simp_all add: disk_ok_def disk_epochs_def fresh_disk_def)

text \<open>
  C19. A checkpoint survives a restart: states collected from the nodes' reports for an epoch and
  saved by \<open>SaveCheckpoint\<close>, in whatever order it visits them, come back from \<open>RestoreNodes\<close>: each
  node's last reported state, byte for byte. The disk does not fail, node ids contain no path
  separator, and the retention count leaves room for the epoch.
\<close>

theorem checkpoint_save_restore:
  assumes "disk_ok b" "disk_healthy b" "r \<in> set rs" "nc_Epoch r = e"
    and "list_all (\<lambda>r. node_id_ok (nc_NodeID r)) rs" "list_all node_id_ok ids"
    and "keepCount \<le> 0 \<or> e \<in> newest keepCount (insert e (disk_epochs b))"
    and "m = fold CollectState rs (NewCheckpointManager keepCount)"
    and "range_order ks (the (map_of (mgr_nodeStates m) e))"
  shows "\<exists>m' b' b'' res. SaveCheckpoint LocalDisk ks e m b = (m', b', None) \<and>
    RestoreNodes LocalDisk e ids b' = (b'', Inr res) \<and>
    (\<forall>n \<in> set ids. map_of res n =
       (case states_of (filter (\<lambda>r. nc_Epoch r = e) rs) n of None \<Rightarrow> disk_contents b e n | Some d \<Rightarrow> Some d))"
  using saved_states_restored [OF assms(1-4) unused_new assms(5,6) _ assms(8,9)] assms(7) by (simp add: NewCheckpointManager_def)

theorem checkpoint_save_restore_witness:
  "\<exists>m' b' b'' res. SaveCheckpoint LocalDisk [''a''] 1
       (fold CollectState [\<lparr>nc_NodeID = ''a'', nc_Epoch = 1, nc_State = [7]\<rparr>] (NewCheckpointManager 2)) fresh_disk = (m', b', None) \<and>
     RestoreNodes LocalDisk 1 [''a''] b' = (b'', Inr res) \<and> map_of res ''a'' = Some [7]"
  using checkpoint_save_restore [where b = fresh_disk and ks = "[''a'']" and e = 1 and ids = "[''a'']" and keepCount = 2
      and r = "\<lparr>nc_NodeID = ''a'', nc_Epoch = 1, nc_State = [7]\<rparr>"
      and rs = "[\<lparr>nc_NodeID = ''a'', nc_Epoch = 1, nc_State = [7]\<rparr>]"
      and m = "fold CollectState [\<lparr>nc_NodeID = ''a'', nc_Epoch = 1, nc_State = [7]\<rparr>] (NewCheckpointManager 2)"]
  by (simp add: fresh_disk_ok node_id_ok_def newest_single states_of_def)
    (simp add: CollectState_def NewCheckpointManager_def range_order_def)

text \<open>
  C20. Retention. On a disk that does not fail, a \<open>SaveCheckpoint\<close> with a positive \<open>keepCount\<close> leaves
  exactly the \<open>keepCount\<close> largest epochs, counting the saved one; the states of those are untouched;
  and \<open>LatestEpoch\<close> then reports the largest of them.
\<close>

theorem checkpoint_retention:
  assumes "disk_ok b" "disk_healthy b" "r \<in> set rs" "nc_Epoch r = e"
    and "list_all (\<lambda>r. node_id_ok (nc_NodeID r)) rs" "0 < keepCount"
    and "m = fold CollectState rs (NewCheckpointManager keepCount)"
    and "range_order ks (the (map_of (mgr_nodeStates m) e))"
  shows "\<exists>m' b' b''. SaveCheckpoint LocalDisk ks e m b = (m', b', None) \<and>
    disk_epochs b' = newest keepCount (insert e (disk_epochs b)) \<and>
    (\<forall>e' \<in> disk_epochs b' - {e}. disk_contents b' e' = disk_contents b e') \<and>
    LatestEpoch LocalDisk b' = (b'', Inr (Some (Max (insert e (disk_epochs b)))))"
proof -
  obtain st where st: "map_of (mgr_nodeStates m) e = Some st" "st \<noteq> []"
    using collected_exists [OF assms(3), of "NewCheckpointManager keepCount"] assms(4,7) by metis
  have ks: "range_order ks st" using assms(8) st(1) by simp
  have valid: "list_all node_id_ok ks"
    using collected_valid [of rs "NewCheckpointManager keepCount" e st ks] st(1) ks assms(5,7) by simp
  have k: "mgr_keepCount m = keepCount" using assms(7) by (simp add: NewCheckpointManager_def)
  let ?E = "insert e (disk_epochs b)"
  obtain m' b' where save: "SaveCheckpoint LocalDisk ks e m b = (m', b', None)" "disk_ok b'" "disk_healthy b'"
    and ep: "disk_epochs b' = newest keepCount ?E"
    and con: "\<forall>e' \<in> disk_epochs b'. e' \<noteq> e \<longrightarrow> disk_contents b' e' = disk_contents b e'"
    using disk.SaveCheckpoint_healthy [OF assms(1,2) st ks valid] assms(6) unfolding k by auto
  have "Max ?E \<in> newest keepCount ?E" "\<And>x. x \<in> newest keepCount ?E \<Longrightarrow> x \<le> Max ?E"
    using newest_Max [of ?E keepCount] assms(6) by (auto simp: newest_def)
  then have "Max (newest keepCount ?E) = Max ?E" "newest keepCount ?E \<noteq> {}"
    by (auto intro!: Max_eqI)
  then show ?thesis
    using save con ep disk.LatestEpoch_healthy [OF save(2,3)] by fastforce
qed

theorem checkpoint_retention_witness:
  "\<exists>m' b' b''. SaveCheckpoint LocalDisk [''a''] 1
       (fold CollectState [\<lparr>nc_NodeID = ''a'', nc_Epoch = 1, nc_State = [7]\<rparr>] (NewCheckpointManager 2)) fresh_disk = (m', b', None) \<and>
     LatestEpoch LocalDisk b' = (b'', Inr (Some 1))"
  using checkpoint_retention [where b = fresh_disk and ks = "[''a'']" and e = 1 and keepCount = 2
      and r = "\<lparr>nc_NodeID = ''a'', nc_Epoch = 1, nc_State = [7]\<rparr>"
      and rs = "[\<lparr>nc_NodeID = ''a'', nc_Epoch = 1, nc_State = [7]\<rparr>]"
      and m = "fold CollectState [\<lparr>nc_NodeID = ''a'', nc_Epoch = 1, nc_State = [7]\<rparr>] (NewCheckpointManager 2)"]
  by (simp add: fresh_disk_ok node_id_ok_def)
    (force simp: CollectState_def NewCheckpointManager_def range_order_def)

end
