(* ===== verification/Builder.thy ===== *)
theory Builder
  imports Run_Loop Checkpoint_Manager
begin

text \<open>
  The graph builder of \<open>internal/engine/builder.go\<close>: the fluent operations, which keep the first
  error, and \<open>Build\<close>, which validates the graph, allocates a buffer per edge, wires the nodes and
  makes the controller and the runtimes. Buffers are numbered in the order of \<open>allBuffers\<close>; an
  operator comes with its initial state. The graph holds node ids in place of pointers to the
  adapters, which the builder's own maps hold.

  A Go map is visited in an arbitrary order; the argument \<open>ord\<close> of \<open>Build\<close> gives the order of each
  loop over one, and the theorems hold for all of them.
\<close>

section \<open>State\<close>

record ('s, 'u) GraphBuilder =
  gb_name :: string
  gb_graph :: "string Graph"
  gb_sources :: "(string, 'u SourceNode) gomap"
  gb_operators :: "(string, ('s, 'u) OperatorNode) gomap"
  gb_sinks :: "(string, ('s, 'u) OperatorNode) gomap"
  gb_bufferSizes :: "(string, int) gomap"
  gb_errorConfig :: "(('s, 'u) Operator \<times> 's) ErrorConfig option"
  gb_checkpointManager :: "CheckpointManager option"
  gb_err :: "error option"

definition NewGraphBuilder :: "string \<Rightarrow> ('s, 'u) GraphBuilder" where
  "NewGraphBuilder name =
     \<lparr>gb_name = name, gb_graph = NewGraph name, gb_sources = [], gb_operators = [], gb_sinks = [],
      gb_bufferSizes = [], gb_errorConfig = None, gb_checkpointManager = None, gb_err = None\<rparr>"

section \<open>The fluent operations\<close>

definition AddSource :: "string \<Rightarrow> 'u Source \<Rightarrow> ('s, 'u) GraphBuilder \<Rightarrow> ('s, 'u) GraphBuilder" where
  "AddSource nid source b =
     (if gb_err b \<noteq> None then b
      else let node = NewSourceNode nid source
           in case AddNode nid nid NodeTypeSource (gb_graph b) of
                Inl err \<Rightarrow> b\<lparr>gb_err := Some err\<rparr>
              | Inr g \<Rightarrow> b\<lparr>gb_graph := g, gb_sources := AList.update nid node (gb_sources b)\<rparr>)"

definition AddOperator :: "string \<Rightarrow> ('s, 'u) Operator \<Rightarrow> 's \<Rightarrow> ('s, 'u) GraphBuilder \<Rightarrow> ('s, 'u) GraphBuilder" where
  "AddOperator nid op s b =
     (if gb_err b \<noteq> None then b
      else let node = NewOperatorNode nid op s
           in case AddNode nid nid NodeTypeOperator (gb_graph b) of
                Inl err \<Rightarrow> b\<lparr>gb_err := Some err\<rparr>
              | Inr g \<Rightarrow> b\<lparr>gb_graph := g, gb_operators := AList.update nid node (gb_operators b)\<rparr>)"

definition AddSink :: "string \<Rightarrow> ('s, 'u) Operator \<Rightarrow> 's \<Rightarrow> ('s, 'u) GraphBuilder \<Rightarrow> ('s, 'u) GraphBuilder" where
  "AddSink nid sink s b =
     (if gb_err b \<noteq> None then b
      else let node = NewOperatorNode nid sink s
           in case AddNode nid nid NodeTypeSink (gb_graph b) of
                Inl err \<Rightarrow> b\<lparr>gb_err := Some err\<rparr>
              | Inr g \<Rightarrow> b\<lparr>gb_graph := g, gb_sinks := AList.update nid node (gb_sinks b)\<rparr>)"

definition Connect :: "string \<Rightarrow> string \<Rightarrow> ('s, 'u) GraphBuilder \<Rightarrow> ('s, 'u) GraphBuilder" where
  "Connect fromID toID b =
     (if gb_err b \<noteq> None then b
      else case AddEdge (NewEdge fromID toID) (gb_graph b) of
             Inl err \<Rightarrow> b\<lparr>gb_err := Some err\<rparr>
           | Inr g \<Rightarrow> b\<lparr>gb_graph := g\<rparr>)"

definition ConnectPort ::
  "string \<Rightarrow> string \<Rightarrow> string \<Rightarrow> string \<Rightarrow> ('s, 'u) GraphBuilder \<Rightarrow> ('s, 'u) GraphBuilder" where
  "ConnectPort fromID fromPort toID toPort b =
     (if gb_err b \<noteq> None then b
      else case AddEdge (NewPortEdge fromID fromPort toID toPort) (gb_graph b) of
             Inl err \<Rightarrow> b\<lparr>gb_err := Some err\<rparr>
           | Inr g \<Rightarrow> b\<lparr>gb_graph := g\<rparr>)"

definition size_key :: "string \<Rightarrow> string \<Rightarrow> string" where
  "size_key fromID toID = fromID @ ''->'' @ toID"

definition SetBufferSize :: "string \<Rightarrow> string \<Rightarrow> int \<Rightarrow> ('s, 'u) GraphBuilder \<Rightarrow> ('s, 'u) GraphBuilder" where
  "SetBufferSize fromID toID sz b =
     (if gb_err b \<noteq> None then b
      else b\<lparr>gb_bufferSizes := AList.update (size_key fromID toID) sz (gb_bufferSizes b)\<rparr>)"

definition SetErrorConfig ::
  "(('s, 'u) Operator \<times> 's) ErrorConfig \<Rightarrow> ('s, 'u) GraphBuilder \<Rightarrow> ('s, 'u) GraphBuilder" where
  "SetErrorConfig cfg b = (if gb_err b \<noteq> None then b else b\<lparr>gb_errorConfig := Some cfg\<rparr>)"

definition SetCheckpointManager :: "CheckpointManager \<Rightarrow> ('s, 'u) GraphBuilder \<Rightarrow> ('s, 'u) GraphBuilder" where
  "SetCheckpointManager mgr b = (if gb_err b \<noteq> None then b else b\<lparr>gb_checkpointManager := Some mgr\<rparr>)"

section \<open>Wiring\<close>

record 'u wiring =
  wi_nodeInputs :: "(string, nat list) gomap"
  wi_nodeOutputs :: "(string, nat list) gomap"
  wi_nodePortOutputs :: "(string, (string, nat list) gomap) gomap"
  wi_allBuffers :: "'u Message Buffer list"

text \<open>Reading a map of slices: an absent key reads as nil.\<close>

definition slice_at :: "(string, nat list) gomap \<Rightarrow> string \<Rightarrow> nat list" where
  "slice_at m k = (case map_of m k of None \<Rightarrow> [] | Some xs \<Rightarrow> xs)"

definition push_at :: "string \<Rightarrow> nat \<Rightarrow> (string, nat list) gomap \<Rightarrow> (string, nat list) gomap" where
  "push_at k x m = AList.update k (slice_at m k @ [x]) m"

definition wire_edge :: "(string, int) gomap \<Rightarrow> Edge \<Rightarrow> 'u wiring \<Rightarrow> 'u wiring" where
  "wire_edge bufferSizes edge wi =
     (let key = size_key (e_FromNode edge) (e_ToNode edge);
          sz = (case map_of bufferSizes key of Some s \<Rightarrow> s | None \<Rightarrow> DefaultBufferCapacity);
          buf = length (wi_allBuffers wi);
          ports = (case map_of (wi_nodePortOutputs wi) (e_FromNode edge) of None \<Rightarrow> [] | Some ps \<Rightarrow> ps)
      in \<lparr>wi_nodeInputs = push_at (e_ToNode edge) buf (wi_nodeInputs wi),
          wi_nodeOutputs = push_at (e_FromNode edge) buf (wi_nodeOutputs wi),
          wi_nodePortOutputs = AList.update (e_FromNode edge) (push_at (e_FromPort edge) buf ports) (wi_nodePortOutputs wi),
          wi_allBuffers = wi_allBuffers wi @ [NewBuffer sz]\<rparr>)"

definition wire_edges :: "(string, int) gomap \<Rightarrow> Edge list \<Rightarrow> 'u wiring" where
  "wire_edges bufferSizes edges =
     fold (wire_edge bufferSizes) edges
       \<lparr>wi_nodeInputs = [], wi_nodeOutputs = [], wi_nodePortOutputs = [], wi_allBuffers = []\<rparr>"

definition wire_source :: "'u wiring \<Rightarrow> string \<Rightarrow> 'v errorHandler \<Rightarrow> 'v SourceNode \<Rightarrow> 'v SourceNode" where
  "wire_source wi nid onError src =
     (let src = SourceNode_SetOutputs (slice_at (wi_nodeOutputs wi) nid) src;
          src = (case map_of (wi_nodePortOutputs wi) nid of Some po \<Rightarrow> SourceNode_SetPortOutputs po src | None \<Rightarrow> src)
      in SourceNode_SetOnError onError src)"

definition wire_operator :: "'u wiring \<Rightarrow> string \<Rightarrow> 'v errorHandler \<Rightarrow> ('s, 'v) OperatorNode \<Rightarrow> ('s, 'v) OperatorNode" where
  "wire_operator wi nid onError op =
     (let op = OperatorNode_SetOutputs (slice_at (wi_nodeOutputs wi) nid) op;
          op = (case map_of (wi_nodePortOutputs wi) nid of Some po \<Rightarrow> OperatorNode_SetPortOutputs po op | None \<Rightarrow> op)
      in OperatorNode_SetOnError onError op)"

section \<open>Build\<close>

text \<open>
  The callback wired to the controller: collect the states of a completed checkpoint, in the order
  \<open>ks\<close> of the loop over them, and save; a failed save is only logged.
\<close>

definition onCheckpointComplete ::
  "'b CheckpointBackend \<Rightarrow> string list \<Rightarrow> string list \<Rightarrow> u64 \<Rightarrow> CheckpointInfo \<Rightarrow> CheckpointManager \<Rightarrow> 'b \<Rightarrow> CheckpointManager \<times> 'b" where
  "onCheckpointComplete backend ks ks' epoch info mgr b =
     (let mgr = fold (\<lambda>nodeID. CollectState \<lparr>nc_NodeID = nodeID, nc_Epoch = epoch,
                                    nc_State = the (map_of (ci_NodeStates info) nodeID)\<rparr>) ks mgr
      in case SaveCheckpoint backend ks' epoch mgr b of (mgr, b, _) \<Rightarrow> (mgr, b))"

text \<open>The orders of the loops over maps in \<open>Validate\<close> and \<open>Build\<close>.\<close>

record build_order =
  bo_validate1 :: "string list"
  bo_validate2 :: "string list"
  bo_validate3 :: "string list"
  bo_sourceIDs :: "string list"
  bo_operatorIDs :: "string list"
  bo_sinkIDs :: "string list"
  bo_sources :: "string list"
  bo_operators :: "string list"
  bo_sinks :: "string list"

datatype PipelineState =
    PipelineInitializing | PipelineRunning | PipelinePaused | PipelineStopping | PipelineStopped
  | PipelineTerminated | PipelineError

text \<open>
  \<open>internal/engine/pipeline.go\<close>'s state. \<open>p_sourceRuntimes\<close> points into \<open>p_runtimes\<close>; \<open>p_cancel\<close> and
  \<open>p_done\<close> are nil before \<open>Start\<close>, then tell whether the context is cancelled and \<open>done\<close> closed.
\<close>

record ('s, 'u) Pipeline =
  p_name :: string
  p_runtimes :: "('s, 'u) NodeRuntime list"
  p_sourceRuntimes :: "nat list"
  p_sourceNodes :: "'u SourceNode list"
  p_sourceOutputs :: "(string, nat list) gomap"
  p_controller :: Controller
  p_buffers :: "'u Message Buffer list"
  p_state :: PipelineState
  p_stopEpoch :: u64
  p_errCounts :: "(string, u64) gomap"
  p_dlBuffer :: "nat option"
  p_dlRuntime :: "('s, 'u) NodeRuntime option"
  p_cancel :: "bool option"
  p_done :: "bool option"

definition dead_letter_runtime :: "('s, 'u) Operator \<times> 's \<Rightarrow> nat \<Rightarrow> ('s, 'u) NodeRuntime" where
  "dead_letter_runtime sink dlBuffer =
     NewNodeRuntime
       \<lparr>cfg_Node = OpNode (OperatorNode_SetOutputs [] (NewOperatorNode ''__dead_letter__'' (fst sink) (snd sink))),
        cfg_NodeType = NodeTypeSink, cfg_Inputs = [dlBuffer], cfg_Outputs = [], cfg_TickInterval = 0,
        cfg_ControlBufferSize = 0, cfg_CompletionCh = None, cfg_StoppedCh = None, cfg_OnError = None\<rparr>"

definition source_runtime :: "'u wiring \<Rightarrow> string \<Rightarrow> 'v errorHandler \<Rightarrow> 'v SourceNode \<Rightarrow> ('s, 'v) NodeRuntime" where
  "source_runtime wi nid onError src =
     NewNodeRuntime
       \<lparr>cfg_Node = SrcNode (wire_source wi nid onError src), cfg_NodeType = NodeTypeSource, cfg_Inputs = [],
        cfg_Outputs = slice_at (wi_nodeOutputs wi) nid, cfg_TickInterval = 0, cfg_ControlBufferSize = 0,
        cfg_CompletionCh = Some [], cfg_StoppedCh = Some [], cfg_OnError = Some onError\<rparr>"

definition operator_runtime :: "'u wiring \<Rightarrow> string \<Rightarrow> 'v errorHandler \<Rightarrow> ('s, 'v) OperatorNode \<Rightarrow> ('s, 'v) NodeRuntime" where
  "operator_runtime wi nid onError op =
     (let tickInterval = (if op_HandleTick (on_operator op) \<noteq> None then op_TickInterval (on_operator op) else 0)
      in NewNodeRuntime
           \<lparr>cfg_Node = OpNode (wire_operator wi nid onError op), cfg_NodeType = NodeTypeOperator,
            cfg_Inputs = slice_at (wi_nodeInputs wi) nid, cfg_Outputs = slice_at (wi_nodeOutputs wi) nid,
            cfg_TickInterval = tickInterval, cfg_ControlBufferSize = 0,
            cfg_CompletionCh = Some [], cfg_StoppedCh = Some [], cfg_OnError = Some onError\<rparr>)"

definition sink_runtime :: "'u wiring \<Rightarrow> string \<Rightarrow> 'v errorHandler \<Rightarrow> ('s, 'v) OperatorNode \<Rightarrow> ('s, 'v) NodeRuntime" where
  "sink_runtime wi nid onError sink =
     NewNodeRuntime
       \<lparr>cfg_Node = OpNode (wire_operator wi nid onError sink), cfg_NodeType = NodeTypeSink,
        cfg_Inputs = slice_at (wi_nodeInputs wi) nid, cfg_Outputs = [], cfg_TickInterval = 0, cfg_ControlBufferSize = 0,
        cfg_CompletionCh = Some [], cfg_StoppedCh = Some [], cfg_OnError = Some onError\<rparr>"

text \<open>The error configuration, skip-and-log by default, and the dead-letter sink if it asks for one.\<close>

definition build_errCfg :: "('s, 'u) GraphBuilder \<Rightarrow> (('s, 'u) Operator \<times> 's) ErrorConfig" where
  "build_errCfg b =
     (case gb_errorConfig b of
        None \<Rightarrow> \<lparr>ec_Strategy = ErrorStrategySkipAndLog, ec_DeadLetterSink = None\<rparr>
      | Some cfg \<Rightarrow> cfg)"

definition build_dlSink :: "('s, 'u) GraphBuilder \<Rightarrow> (('s, 'u) Operator \<times> 's) option" where
  "build_dlSink b =
     (if ec_Strategy (build_errCfg b) = ErrorStrategyDeadLetter then ec_DeadLetterSink (build_errCfg b) else None)"

definition Build :: "build_order \<Rightarrow> ('s, 'u) GraphBuilder \<Rightarrow> error + ('s, 'u) Pipeline" where
  "Build ord b =
     (case gb_err b of
        Some err \<Rightarrow> Inl err
      | None \<Rightarrow>
          (case Validate (bo_validate1 ord) (bo_validate2 ord) (bo_validate3 ord) (gb_graph b) of
             Some err \<Rightarrow> Inl err
           | None \<Rightarrow>
               let wi = wire_edges (gb_bufferSizes b) (Graph_Edges (gb_graph b));
                   controller = NewController
                     \<lparr>cfg_NodeIDs = bo_sourceIDs ord @ bo_operatorIDs ord @ bo_sinkIDs ord,
                      cfg_SourceIDs = bo_sourceIDs ord, cfg_SinkIDs = bo_sinkIDs ord,
                      cfg_OnCheckpointComplete = (gb_checkpointManager b \<noteq> None), cfg_OnQuiescence = False,
                      cfg_CompletionBufferSize = 0\<rparr>;
                   errCfg = build_errCfg b;
                   dlSink = build_dlSink b;
                   dlBuffer = map_option (\<lambda>_. length (wi_allBuffers wi)) dlSink;
                   dlRuntime = map_option (\<lambda>sink. dead_letter_runtime sink (length (wi_allBuffers wi))) dlSink;
                   allBuffers = wi_allBuffers wi @ (if dlSink = None then [] else [NewBuffer DefaultBufferCapacity]);
                   onError = makeErrorHandler errCfg dlBuffer;
                   src = (\<lambda>nid. the (map_of (gb_sources b) nid))
               in Inr \<lparr>p_name = gb_name b,
                       p_runtimes =
                         map (\<lambda>nid. source_runtime wi nid onError (src nid)) (bo_sources ord) @
                         map (\<lambda>nid. operator_runtime wi nid onError (the (map_of (gb_operators b) nid))) (bo_operators ord) @
                         map (\<lambda>nid. sink_runtime wi nid onError (the (map_of (gb_sinks b) nid))) (bo_sinks ord),
                       p_sourceRuntimes = [0..<length (bo_sources ord)],
                       p_sourceNodes = map (\<lambda>nid. wire_source wi nid onError (src nid)) (bo_sources ord),
                       p_sourceOutputs = map (\<lambda>nid. (nid, slice_at (wi_nodeOutputs wi) nid)) (bo_sources ord),
                       p_controller = controller, p_buffers = allBuffers, p_state = PipelineInitializing,
                       p_stopEpoch = 0, p_errCounts = newErrorCounts, p_dlBuffer = dlBuffer, p_dlRuntime = dlRuntime,
                       p_cancel = None, p_done = None\<rparr>))"

section \<open>The builder's invariant\<close>

text \<open>The calls of the fluent API, and a program that makes them in order.\<close>

datatype ('s, 'u) build_call =
    CallAddSource string "'u Source"
  | CallAddOperator string "('s, 'u) Operator" 's
  | CallAddSink string "('s, 'u) Operator" 's
  | CallConnect string string
  | CallConnectPort string string string string
  | CallSetBufferSize string string int
  | CallSetErrorConfig "(('s, 'u) Operator \<times> 's) ErrorConfig"
  | CallSetCheckpointManager CheckpointManager

primrec build_step :: "('s, 'u) build_call \<Rightarrow> ('s, 'u) GraphBuilder \<Rightarrow> ('s, 'u) GraphBuilder" where
  "build_step (CallAddSource nid src) b = AddSource nid src b"
| "build_step (CallAddOperator nid op s) b = AddOperator nid op s b"
| "build_step (CallAddSink nid sink s) b = AddSink nid sink s b"
| "build_step (CallConnect f t) b = Connect f t b"
| "build_step (CallConnectPort f fp t tp) b = ConnectPort f fp t tp b"
| "build_step (CallSetBufferSize f t sz) b = SetBufferSize f t sz b"
| "build_step (CallSetErrorConfig cfg) b = SetErrorConfig cfg b"
| "build_step (CallSetCheckpointManager mgr) b = SetCheckpointManager mgr b"

text \<open>Each of the three maps holds exactly the nodes of the graph of its type, as new nodes under their own ids.\<close>

definition fresh_source :: "string \<Rightarrow> 'u SourceNode \<Rightarrow> bool" where
  "fresh_source n x \<longleftrightarrow> (\<exists>src. x = NewSourceNode n src)"

definition fresh_operator :: "string \<Rightarrow> ('s, 'u) OperatorNode \<Rightarrow> bool" where
  "fresh_operator n x \<longleftrightarrow> (\<exists>op s. x = NewOperatorNode n op s)"

lemma fresh_new [simp]: "fresh_source n (NewSourceNode n src)" "fresh_operator n (NewOperatorNode n op s)"
  by (auto simp: fresh_source_def fresh_operator_def)

definition typed_map :: "NodeType \<Rightarrow> string Graph \<Rightarrow> (string \<Rightarrow> 'n \<Rightarrow> bool) \<Rightarrow> (string, 'n) gomap \<Rightarrow> bool" where
  "typed_map t g fresh m \<longleftrightarrow> gomap_ok m \<and> (\<forall>n. node_type g n = Some t \<longleftrightarrow> map_of m n \<noteq> None) \<and>
     (\<forall>n x. map_of m n = Some x \<longrightarrow> fresh n x)"

definition builder_ok :: "('s, 'u) GraphBuilder \<Rightarrow> bool" where
  "builder_ok b \<longleftrightarrow> graph_ok (gb_graph b) \<and> typed_map NodeTypeSource (gb_graph b) fresh_source (gb_sources b) \<and>
     typed_map NodeTypeOperator (gb_graph b) fresh_operator (gb_operators b) \<and> typed_map NodeTypeSink (gb_graph b) fresh_operator (gb_sinks b)"

lemma typed_map_add:
  assumes "typed_map t g fresh m" "node_type g' = (node_type g)(nid \<mapsto> t)" "fresh nid x"
  shows "typed_map t g' fresh (AList.update nid x m)"
  using assms by (auto simp: typed_map_def go_maps simp del: map_of_eq_Some_iff)

lemma typed_map_other:
  assumes "typed_map t g fresh m" "node_type g' = (node_type g)(nid \<mapsto> t')" "t \<noteq> t'" "node_type g nid = None"
  shows "typed_map t g' fresh m"
proof -
  have "map_of m nid = None" using assms(1,4) unfolding typed_map_def by (metis option.distinct(1))
  with assms show ?thesis by (auto simp: typed_map_def simp del: map_of_eq_Some_iff)
qed

lemma typed_map_cong: "typed_map t g fresh m \<Longrightarrow> node_type g' = node_type g \<Longrightarrow> typed_map t g' fresh m"
  by (simp add: typed_map_def)

lemma builder_ok_new: "builder_ok (NewGraphBuilder name)"
  by (simp add: builder_ok_def NewGraphBuilder_def typed_map_def node_type_def) (simp add: NewGraph_def)

lemma AddNode_ok:
  assumes "graph_ok g" "AddNode nid n t g = Inr g'"
  shows "graph_ok g' \<and> node_type g nid = None \<and> node_type g' = (node_type g)(nid \<mapsto> t)"
proof -
  have g': "map_of (g_nodes g) nid = None" "g' = g\<lparr>g_nodes := AList.update nid \<lparr>ne_Node = n, ne_NodeType = t\<rparr> (g_nodes g)\<rparr>"
    using assms(2) by (auto simp: AddNode_def split: if_splits)
  with assms(1) show ?thesis
    by (auto simp: graph_ok_def node_type_def fun_eq_iff go_maps list_all_iff)
qed

lemma AddEdge_ok:
  "graph_ok g \<Longrightarrow> AddEdge e g = Inr g' \<Longrightarrow> graph_ok g' \<and> node_type g' = node_type g"
  by (auto simp: AddEdge_def graph_ok_def node_type_def fun_eq_iff split: if_splits)

lemma AddSource_ok:
  assumes "builder_ok b"
  shows "builder_ok (AddSource nid src b)"
proof (cases "AddNode nid nid NodeTypeSource (gb_graph b)")
  case (Inr g)
  with assms have "graph_ok g" "node_type (gb_graph b) nid = None" "node_type g = (node_type (gb_graph b))(nid \<mapsto> NodeTypeSource)"
    using AddNode_ok [OF _ Inr] by (simp_all add: builder_ok_def)
  with assms Inr show ?thesis
    by (auto simp: AddSource_def builder_ok_def intro: typed_map_add typed_map_other)
qed (use assms in \<open>simp add: AddSource_def builder_ok_def\<close>)

lemma AddOperator_ok:
  assumes "builder_ok b"
  shows "builder_ok (AddOperator nid op s b)"
proof (cases "AddNode nid nid NodeTypeOperator (gb_graph b)")
  case (Inr g)
  with assms have "graph_ok g" "node_type (gb_graph b) nid = None" "node_type g = (node_type (gb_graph b))(nid \<mapsto> NodeTypeOperator)"
    using AddNode_ok [OF _ Inr] by (simp_all add: builder_ok_def)
  with assms Inr show ?thesis
    by (auto simp: AddOperator_def builder_ok_def intro: typed_map_add typed_map_other)
qed (use assms in \<open>simp add: AddOperator_def builder_ok_def\<close>)

lemma AddSink_ok:
  assumes "builder_ok b"
  shows "builder_ok (AddSink nid op s b)"
proof (cases "AddNode nid nid NodeTypeSink (gb_graph b)")
  case (Inr g)
  with assms have "graph_ok g" "node_type (gb_graph b) nid = None" "node_type g = (node_type (gb_graph b))(nid \<mapsto> NodeTypeSink)"
    using AddNode_ok [OF _ Inr] by (simp_all add: builder_ok_def)
  with assms Inr show ?thesis
    by (auto simp: AddSink_def builder_ok_def intro: typed_map_add typed_map_other)
qed (use assms in \<open>simp add: AddSink_def builder_ok_def\<close>)

lemma Connect_ok:
  "builder_ok b \<Longrightarrow> builder_ok (Connect f t b)" "builder_ok b \<Longrightarrow> builder_ok (ConnectPort f fp t tp b)"
  using AddEdge_ok [of "gb_graph b"]
  by (auto simp: Connect_def ConnectPort_def builder_ok_def split: sum.splits intro: typed_map_cong)

lemma build_step_ok: "builder_ok b \<Longrightarrow> builder_ok (build_step call b)"
proof (cases call)
  case (CallSetBufferSize f t sz)
  then show "builder_ok b \<Longrightarrow> ?thesis" by (simp add: SetBufferSize_def builder_ok_def)
next
  case (CallSetErrorConfig cfg)
  then show "builder_ok b \<Longrightarrow> ?thesis" by (simp add: SetErrorConfig_def builder_ok_def)
next
  case (CallSetCheckpointManager mgr)
  then show "builder_ok b \<Longrightarrow> ?thesis" by (simp add: SetCheckpointManager_def builder_ok_def)
qed (simp_all add: AddSource_ok AddOperator_ok AddSink_ok Connect_ok)

lemma build_calls_ok: "builder_ok b \<Longrightarrow> builder_ok (fold build_step calls b)"
  by (induction calls arbitrary: b) (simp_all add: build_step_ok)

section \<open>What the wiring is\<close>

definition edge_ids :: "(Edge \<Rightarrow> bool) \<Rightarrow> Edge list \<Rightarrow> nat list" where
  "edge_ids P es = filter (\<lambda>k. P (es ! k)) [0..<length es]"

lemma edge_ids_snoc: "edge_ids P (es @ [e]) = edge_ids P es @ (if P e then [length es] else [])"
proof -
  have "filter (\<lambda>k. P ((es @ [e]) ! k)) [0..<length es] = filter (\<lambda>k. P (es ! k)) [0..<length es]"
    by (rule filter_cong) (simp_all add: nth_append)
  then show ?thesis by (simp add: edge_ids_def)
qed

lemma edge_ids_Nil [simp]: "edge_ids P [] = []"
  by (simp add: edge_ids_def)

lemma slice_at_push [simp]: "slice_at (push_at k x m) k' = (if k' = k then slice_at m k @ [x] else slice_at m k')"
  by (simp add: slice_at_def push_at_def go_maps)

lemma slice_at_Nil [simp]: "slice_at [] k = []"
  by (simp add: slice_at_def)

definition edge_capacity :: "(string, int) gomap \<Rightarrow> Edge \<Rightarrow> int" where
  "edge_capacity sizes e =
     (case map_of sizes (size_key (e_FromNode e) (e_ToNode e)) of Some s \<Rightarrow> s | None \<Rightarrow> DefaultBufferCapacity)"

lemma wire_edges_snoc: "wire_edges sizes (es @ [e]) = wire_edge sizes e (wire_edges sizes es)"
  by (simp add: wire_edges_def)

lemma wire_edges_buffers:
  "wi_allBuffers (wire_edges sizes es) = map (\<lambda>e. NewBuffer (edge_capacity sizes e)) es"
proof (induction es rule: rev_induct)
  case Nil
  then show ?case by (simp add: wire_edges_def)
next
  case (snoc e es)
  then show ?case by (simp add: wire_edges_snoc wire_edge_def edge_capacity_def Let_def)
qed

lemma wire_edges_slices:
  "slice_at (wi_nodeInputs (wire_edges sizes es)) n = edge_ids (\<lambda>e. e_ToNode e = n) es"
  "slice_at (wi_nodeOutputs (wire_edges sizes es)) n = edge_ids (\<lambda>e. e_FromNode e = n) es"
  by (induction es rule: rev_induct)
    (auto simp: wire_edges_snoc edge_ids_snoc wire_edge_def wire_edges_buffers Let_def, simp_all add: wire_edges_def)

definition ports_at :: "'u wiring \<Rightarrow> string \<Rightarrow> (string, nat list) gomap" where
  "ports_at wi n = (case map_of (wi_nodePortOutputs wi) n of None \<Rightarrow> [] | Some ps \<Rightarrow> ps)"

lemma wire_edges_ports:
  "slice_at (ports_at (wire_edges sizes es :: 'u wiring) n) port = edge_ids (\<lambda>e. e_FromNode e = n \<and> e_FromPort e = port) es"
proof (induction es rule: rev_induct)
  case Nil
  then show ?case by (simp add: wire_edges_def ports_at_def)
next
  case (snoc e es)
  have "ports_at (wire_edges sizes (es @ [e]) :: 'u wiring) n =
      (if n = e_FromNode e then push_at (e_FromPort e) (length es) (ports_at (wire_edges sizes es :: 'u wiring) n)
       else ports_at (wire_edges sizes es :: 'u wiring) n)"
    by (simp add: ports_at_def wire_edges_snoc wire_edge_def go_maps wire_edges_buffers Let_def)
  with snoc show ?case by (auto simp: edge_ids_snoc)
qed

section \<open>Properties\<close>

definition orders_ok :: "build_order \<Rightarrow> ('s, 'u) GraphBuilder \<Rightarrow> bool" where
  "orders_ok ord b \<longleftrightarrow>
     range_order (bo_validate1 ord) (g_nodes (gb_graph b)) \<and> range_order (bo_validate2 ord) (g_nodes (gb_graph b)) \<and>
     range_order (bo_validate3 ord) (g_nodes (gb_graph b)) \<and>
     range_order (bo_sourceIDs ord) (gb_sources b) \<and> range_order (bo_operatorIDs ord) (gb_operators b) \<and>
     range_order (bo_sinkIDs ord) (gb_sinks b) \<and>
     range_order (bo_sources ord) (gb_sources b) \<and> range_order (bo_operators ord) (gb_operators b) \<and>
     range_order (bo_sinks ord) (gb_sinks b)"

text \<open>
  C38. Whatever sequence of calls a program makes, also after errors, the builder stays consistent:
  every edge joins nodes of the graph, and the maps of sources, operators and sinks hold exactly the
  nodes that the graph lists with that type, each under its own id.
\<close>

theorem builder_invariant: "builder_ok (fold build_step calls (NewGraphBuilder name))"
  by (rule build_calls_ok) (rule builder_ok_new)

lemma typed_map_order:
  assumes "typed_map t g fresh m" "range_order ks m"
  shows "set ks = {n. node_type g n = Some t}" "distinct ks"
  using assms range_order_mem [OF assms(2)] by (auto simp: typed_map_def range_order_def)

lemma typed_map_fresh: "typed_map t g fresh m \<Longrightarrow> node_type g n = Some t \<Longrightarrow> fresh n (the (map_of m n))"
  unfolding typed_map_def by (metis option.collapse)

lemma valid_graph:
  assumes "builder_ok b" "orders_ok ord b"
    and "Validate (bo_validate1 ord) (bo_validate2 ord) (bo_validate3 ord) (gb_graph b) = None"
  shows "node_type (gb_graph b) n = Some NodeTypeSource \<Longrightarrow> edge_ids (\<lambda>e. e_ToNode e = n) (g_edges (gb_graph b)) = []"
    and "node_type (gb_graph b) n = Some NodeTypeSink \<Longrightarrow> edge_ids (\<lambda>e. e_FromNode e = n) (g_edges (gb_graph b)) = []"
proof -
  let ?es = "g_edges (gb_graph b)"
  have v: "\<not> violation (gb_graph b) e" for e
    using Validate_exact [of "gb_graph b"] assms by (auto simp: builder_ok_def orders_ok_def)
  have "(e_FromNode (?es ! k), e_ToNode (?es ! k)) \<in> edge_rel (gb_graph b)" if "k < length ?es" for k
    using that by (simp add: edge_rel_def)
  then have rel: "e_FromNode (?es ! k) \<in> Domain (edge_rel (gb_graph b))" "e_ToNode (?es ! k) \<in> Range (edge_rel (gb_graph b))"
    if "k < length ?es" for k
    using that by blast+
  show "edge_ids (\<lambda>e. e_ToNode e = n) (g_edges (gb_graph b)) = []" if "node_type (gb_graph b) n = Some NodeTypeSource"
    using v [of "SourceHasIncoming n"] that rel by (auto simp: violation_def edge_ids_def filter_empty_conv)
  show "edge_ids (\<lambda>e. e_FromNode e = n) (g_edges (gb_graph b)) = []" if "node_type (gb_graph b) n = Some NodeTypeSink"
    using v [of "SinkHasOutgoing n"] that rel by (auto simp: violation_def edge_ids_def filter_empty_conv)
qed

text \<open>A runtime is wired as the edges say: runtime and node adapter agree on the outputs, and ports are those of the edges.\<close>

primrec node_outputs :: "('s, 'u) Node \<Rightarrow> nat list" where
  "node_outputs (OpNode n) = on_outputs n"
| "node_outputs (SrcNode n) = sn_outputs n"

primrec node_ports :: "('s, 'u) Node \<Rightarrow> (string, nat list) gomap" where
  "node_ports (OpNode n) = on_portOutputs n"
| "node_ports (SrcNode n) = sn_portOutputs n"

definition wired :: "Edge list \<Rightarrow> ('s, 'u) NodeRuntime \<Rightarrow> bool" where
  "wired es r \<longleftrightarrow>
     nr_inputs r = edge_ids (\<lambda>e. e_ToNode e = Node_ID (nr_node r)) es \<and>
     nr_outputs r = edge_ids (\<lambda>e. e_FromNode e = Node_ID (nr_node r)) es \<and>
     node_outputs (nr_node r) = nr_outputs r \<and>
     (\<forall>port. slice_at (node_ports (nr_node r)) port =
        edge_ids (\<lambda>e. e_FromNode e = Node_ID (nr_node r) \<and> e_FromPort e = port) es)"

lemma wire_source_eq:
  assumes "fresh_source n src"
  shows "sn_id (wire_source wi n h src) = n" "sn_outputs (wire_source wi n h src) = slice_at (wi_nodeOutputs wi) n"
    "sn_portOutputs (wire_source wi n h src) = ports_at wi n"
  using assms
  by (auto simp: wire_source_def fresh_source_def NewSourceNode_def SourceNode_SetOutputs_def SourceNode_SetPortOutputs_def SourceNode_SetOnError_def
      ports_at_def Let_def split: option.splits)

lemma wire_operator_eq:
  assumes "fresh_operator n op"
  shows "on_id (wire_operator wi n h op) = n" "on_outputs (wire_operator wi n h op) = slice_at (wi_nodeOutputs wi) n"
    "on_portOutputs (wire_operator wi n h op) = ports_at wi n"
  using assms
  by (auto simp: wire_operator_def fresh_operator_def NewOperatorNode_def OperatorNode_SetOutputs_def OperatorNode_SetPortOutputs_def
      OperatorNode_SetOnError_def ports_at_def Let_def split: option.splits)

lemma runtimes_wired:
  assumes wi: "wi = wire_edges sizes es"
  shows "fresh_source n src \<Longrightarrow> edge_ids (\<lambda>e. e_ToNode e = n) es = [] \<Longrightarrow>
      wired es (source_runtime wi n h src) \<and> Node_ID (nr_node (source_runtime wi n h src)) = n"
    and "fresh_operator n op \<Longrightarrow>
      wired es (operator_runtime wi n h op) \<and> Node_ID (nr_node (operator_runtime wi n h op)) = n"
    and "fresh_operator n op \<Longrightarrow> edge_ids (\<lambda>e. e_FromNode e = n) es = [] \<Longrightarrow>
      wired es (sink_runtime wi n h op) \<and> Node_ID (nr_node (sink_runtime wi n h op)) = n"
  by (simp_all add: wired_def source_runtime_def operator_runtime_def sink_runtime_def NewNodeRuntime_def wire_source_eq
      wire_operator_eq wi wire_edges_slices wire_edges_ports Let_def)

text \<open>When \<open>Build\<close> succeeds, and what the pipeline is made of.\<close>

lemma Build_iff:
  "(\<exists>p. Build ord b = Inr p) \<longleftrightarrow> gb_err b = None \<and>
     Validate (bo_validate1 ord) (bo_validate2 ord) (bo_validate3 ord) (gb_graph b) = None"
  by (auto simp: Build_def Let_def split: option.splits)

lemma Build_parts:
  fixes b :: "('s, 'u) GraphBuilder"
  assumes "Build ord b = Inr p"
  obtains wi :: "'u wiring" and h where "wi = wire_edges (gb_bufferSizes b) (g_edges (gb_graph b))"
    "p_runtimes p =
       map (\<lambda>n. source_runtime wi n h (the (map_of (gb_sources b) n))) (bo_sources ord) @
       map (\<lambda>n. operator_runtime wi n h (the (map_of (gb_operators b) n))) (bo_operators ord) @
       map (\<lambda>n. sink_runtime wi n h (the (map_of (gb_sinks b) n))) (bo_sinks ord)"
    "p_buffers p = wi_allBuffers wi @ (if build_dlSink b = None then [] else [NewBuffer DefaultBufferCapacity])"
    "c_nodeIDs (p_controller p) = id_set (bo_sourceIDs ord @ bo_operatorIDs ord @ bo_sinkIDs ord)"
proof (rule that)
  let ?wi = "wire_edges (gb_bufferSizes b) (g_edges (gb_graph b)) :: 'u wiring"
  let ?h = "makeErrorHandler (build_errCfg b) (map_option (\<lambda>_. length (wi_allBuffers ?wi)) (build_dlSink b))"
  show "p_runtimes p =
      map (\<lambda>n. source_runtime ?wi n ?h (the (map_of (gb_sources b) n))) (bo_sources ord) @
      map (\<lambda>n. operator_runtime ?wi n ?h (the (map_of (gb_operators b) n))) (bo_operators ord) @
      map (\<lambda>n. sink_runtime ?wi n ?h (the (map_of (gb_sinks b) n))) (bo_sinks ord)"
    "p_buffers p = wi_allBuffers ?wi @ (if build_dlSink b = None then [] else [NewBuffer DefaultBufferCapacity])"
    "c_nodeIDs (p_controller p) = id_set (bo_sourceIDs ord @ bo_operatorIDs ord @ bo_sinkIDs ord)"
    using assms by (auto simp: Build_def Let_def Graph_Edges_def NewController_def split: option.splits)
qed (rule refl)

lemma orders_nodes:
  assumes "builder_ok b" "orders_ok ord b"
  shows "set (bo_sources ord) = {n. node_type (gb_graph b) n = Some NodeTypeSource}" "distinct (bo_sources ord)"
    "set (bo_operators ord) = {n. node_type (gb_graph b) n = Some NodeTypeOperator}" "distinct (bo_operators ord)"
    "set (bo_sinks ord) = {n. node_type (gb_graph b) n = Some NodeTypeSink}" "distinct (bo_sinks ord)"
    "set (bo_sourceIDs ord) = {n. node_type (gb_graph b) n = Some NodeTypeSource}"
    "set (bo_operatorIDs ord) = {n. node_type (gb_graph b) n = Some NodeTypeOperator}"
    "set (bo_sinkIDs ord) = {n. node_type (gb_graph b) n = Some NodeTypeSink}"
proof -
  have "typed_map NodeTypeSource (gb_graph b) fresh_source (gb_sources b)"
    "typed_map NodeTypeOperator (gb_graph b) fresh_operator (gb_operators b)"
    "typed_map NodeTypeSink (gb_graph b) fresh_operator (gb_sinks b)"
    using assms(1) by (simp_all add: builder_ok_def)
  note os = this [THEN typed_map_order(1)] this [THEN typed_map_order(2)]
  show "set (bo_sources ord) = {n. node_type (gb_graph b) n = Some NodeTypeSource}" "distinct (bo_sources ord)"
    "set (bo_operators ord) = {n. node_type (gb_graph b) n = Some NodeTypeOperator}" "distinct (bo_operators ord)"
    "set (bo_sinks ord) = {n. node_type (gb_graph b) n = Some NodeTypeSink}" "distinct (bo_sinks ord)"
    "set (bo_sourceIDs ord) = {n. node_type (gb_graph b) n = Some NodeTypeSource}"
    "set (bo_operatorIDs ord) = {n. node_type (gb_graph b) n = Some NodeTypeOperator}"
    "set (bo_sinkIDs ord) = {n. node_type (gb_graph b) n = Some NodeTypeSink}"
    using assms(2) os by (simp_all add: orders_ok_def)
qed

lemma all_types: "t \<noteq> None \<longleftrightarrow> t = Some NodeTypeSource \<or> t = Some NodeTypeOperator \<or> t = Some NodeTypeSink"
  by (metis NodeType.exhaust option.exhaust option.distinct(1))

lemma build_nodes_wired:
  fixes b :: "('s, 'u) GraphBuilder"
  assumes ok: "builder_ok b" "orders_ok ord b" and built: "Build ord b = Inr p"
  shows "map (Node_ID \<circ> nr_node) (p_runtimes p) = bo_sources ord @ bo_operators ord @ bo_sinks ord"
    and "list_all (wired (g_edges (gb_graph b))) (p_runtimes p)"
proof -
  let ?g = "gb_graph b"
  obtain wi h where wi: "wi = wire_edges (gb_bufferSizes b) (g_edges ?g)" and rts: "p_runtimes p =
      map (\<lambda>n. source_runtime wi n h (the (map_of (gb_sources b) n))) (bo_sources ord) @
      map (\<lambda>n. operator_runtime wi n h (the (map_of (gb_operators b) n))) (bo_operators ord) @
      map (\<lambda>n. sink_runtime wi n h (the (map_of (gb_sinks b) n))) (bo_sinks ord)"
    and "p_buffers p = wi_allBuffers wi @ (if build_dlSink b = None then [] else [NewBuffer DefaultBufferCapacity])"
    and "c_nodeIDs (p_controller p) = id_set (bo_sourceIDs ord @ bo_operatorIDs ord @ bo_sinkIDs ord)"
    using built by (rule Build_parts)
  have src: "typed_map NodeTypeSource ?g fresh_source (gb_sources b)"
    and op: "typed_map NodeTypeOperator ?g fresh_operator (gb_operators b)"
    and sink: "typed_map NodeTypeSink ?g fresh_operator (gb_sinks b)"
    using ok(1) by (simp_all add: builder_ok_def)
  have "Validate (bo_validate1 ord) (bo_validate2 ord) (bo_validate3 ord) ?g = None"
    using built Build_iff by blast
  note vg = valid_graph [OF ok this]
  let ?ok = "\<lambda>n (r :: ('s, 'u) NodeRuntime). wired (g_edges ?g) r \<and> Node_ID (nr_node r) = n"
  have s: "?ok n (source_runtime wi n h (the (map_of (gb_sources b) n)))" if "n \<in> set (bo_sources ord)" for n
    using that orders_nodes(1) [OF ok] by (intro runtimes_wired(1) [OF wi] typed_map_fresh [OF src] vg(1)) auto
  have o: "?ok n (operator_runtime wi n h (the (map_of (gb_operators b) n)))" if "n \<in> set (bo_operators ord)" for n
    using that orders_nodes(3) [OF ok] by (intro runtimes_wired(2) [OF wi] typed_map_fresh [OF op]) auto
  have k: "?ok n (sink_runtime wi n h (the (map_of (gb_sinks b) n)))" if "n \<in> set (bo_sinks ord)" for n
    using that orders_nodes(5) [OF ok] by (intro runtimes_wired(3) [OF wi] typed_map_fresh [OF sink] vg(2)) auto
  show "map (Node_ID \<circ> nr_node) (p_runtimes p) = bo_sources ord @ bo_operators ord @ bo_sinks ord"
    using s o k by (simp add: rts map_idI)
  show "list_all (wired (g_edges ?g)) (p_runtimes p)"
    using s o k by (auto simp: rts list_all_iff)
qed

text \<open>
  C31. \<open>Build\<close> wires the graph. After any calls of the builder, \<open>Build\<close> succeeds exactly when none of
  them failed and the graph has no defect. Then it makes one runtime per node and one buffer per
  edge, of the configured capacity; a buffer is an input of exactly the node its edge leads to and
  an output of exactly the node it comes from, in the order of the edges and under the port of the
  edge; and the controller knows exactly the nodes of the graph. This holds for all iteration orders
  of the maps.
\<close>

theorem build_wires_graph:
  assumes "b = fold build_step calls (NewGraphBuilder name)" "orders_ok ord b"
  shows "((\<exists>p. Build ord b = Inr p) \<longleftrightarrow> gb_err b = None \<and> (\<forall>e. \<not> violation (gb_graph b) e)) \<and>
    (\<forall>p. Build ord b = Inr p \<longrightarrow>
      distinct (map (Node_ID \<circ> nr_node) (p_runtimes p)) \<and>
      set (map (Node_ID \<circ> nr_node) (p_runtimes p)) = {n. node_type (gb_graph b) n \<noteq> None} \<and>
      list_all (wired (g_edges (gb_graph b))) (p_runtimes p) \<and>
      (\<forall>k < length (g_edges (gb_graph b)).
         p_buffers p ! k = NewBuffer (edge_capacity (gb_bufferSizes b) (g_edges (gb_graph b) ! k))) \<and>
      set (map fst (c_nodeIDs (p_controller p))) = {n. node_type (gb_graph b) n \<noteq> None})"
proof -
  have ok: "builder_ok b" unfolding assms(1) by (rule build_calls_ok [OF builder_ok_new])
  note nodes = orders_nodes [OF ok assms(2)]
  have "(\<exists>p. Build ord b = Inr p) \<longleftrightarrow> gb_err b = None \<and> (\<forall>e. \<not> violation (gb_graph b) e)"
    using Validate_exact [of "gb_graph b"] ok assms(2) by (simp add: Build_iff builder_ok_def orders_ok_def)
  moreover have "distinct (map (Node_ID \<circ> nr_node) (p_runtimes p)) \<and>
      set (map (Node_ID \<circ> nr_node) (p_runtimes p)) = {n. node_type (gb_graph b) n \<noteq> None} \<and>
      list_all (wired (g_edges (gb_graph b))) (p_runtimes p)" if "Build ord b = Inr p" for p
    using nodes by (auto simp only: build_nodes_wired [OF ok assms(2) that] all_types set_append distinct_append)
  moreover have "(\<forall>k < length (g_edges (gb_graph b)).
        p_buffers p ! k = NewBuffer (edge_capacity (gb_bufferSizes b) (g_edges (gb_graph b) ! k))) \<and>
      set (map fst (c_nodeIDs (p_controller p))) = {n. node_type (gb_graph b) n \<noteq> None}" if "Build ord b = Inr p" for p
    using that
  proof (rule Build_parts)
  qed (use nodes in \<open>auto simp: wire_edges_buffers nth_append all_types simp del: not_None_eq\<close>)
  ultimately show ?thesis by blast
qed

text \<open>A source connected to a sink.\<close>

definition two_calls :: "(unit, unit) build_call list" where
  "two_calls = [CallAddSource ''a'' (\<lambda>c w. Some (w, None)), CallAddSink ''z'' nodes_Merge (), CallConnect ''a'' ''z'']"

definition two_order :: build_order where
  "two_order = \<lparr>bo_validate1 = [''a'', ''z''], bo_validate2 = [''z'', ''a''], bo_validate3 = [''a'', ''z''],
     bo_sourceIDs = [''a''], bo_operatorIDs = [], bo_sinkIDs = [''z''],
     bo_sources = [''a''], bo_operators = [], bo_sinks = [''z'']\<rparr>"

lemma two_builder:
  defines "b \<equiv> fold build_step two_calls (NewGraphBuilder ''p'')"
  shows "g_nodes (gb_graph b) = [(''a'', \<lparr>ne_Node = ''a'', ne_NodeType = NodeTypeSource\<rparr>), (''z'', \<lparr>ne_Node = ''z'', ne_NodeType = NodeTypeSink\<rparr>)]"
    and "g_edges (gb_graph b) = [NewEdge ''a'' ''z'']" and "gb_err b = None"
    and "map fst (gb_sources b) = [''a'']" "gb_operators b = []" "map fst (gb_sinks b) = [''z'']"
  unfolding b_def
  by (simp_all add: two_calls_def AddSource_def AddSink_def Connect_def NewGraphBuilder_def NewGraph_def AddNode_def AddEdge_def
      NewEdge_def Let_def)

lemma two_orders_ok: "orders_ok two_order (fold build_step two_calls (NewGraphBuilder ''p''))"
  unfolding orders_ok_def range_order_def two_builder by (simp add: two_order_def) auto

lemma two_builds: "\<exists>p. Build two_order (fold build_step two_calls (NewGraphBuilder ''p'')) = Inr p"
proof -
  let ?b = "fold build_step two_calls (NewGraphBuilder ''p'')"
  have "Validate (bo_validate1 two_order) (bo_validate2 two_order) (bo_validate3 two_order) (gb_graph ?b) = None"
    unfolding Validate_def two_builder detectCycles_def NodeCount_def
    by (simp add: two_order_def build_adj_def NewEdge_def dfs_def adj_at_def color_at_def connected_nodes_def two_builder
        check_node_def incoming_edges_def outgoing_edges_def incr_def bool_at_def count_at_def split del: if_split)
  then show ?thesis using two_builder(3) by (simp add: Build_def Let_def)
qed

theorem build_wires_graph_witness:
  "\<exists>p. Build two_order (fold build_step two_calls (NewGraphBuilder ''p'')) = Inr p \<and>
     list_all (wired [NewEdge ''a'' ''z'']) (p_runtimes p)"
proof -
  obtain p where p: "Build two_order (fold build_step two_calls (NewGraphBuilder ''p'')) = Inr p"
    using two_builds by blast
  with build_wires_graph [OF refl two_orders_ok] show ?thesis unfolding two_builder by blast
qed

end
