(* ===== verification/Flow.thy ===== *)
theory Flow
  imports Builder
begin

text \<open>
  What a node with one input does to the stream of data it receives. An operator that answers each
  message with a fixed list of messages, and keeps its state apart from what it computes from each
  message, satisfies the contract \<open>stream_operator\<close>; the built-in operators are instances. Whatever
  the goroutines of the runtime do, and whatever control messages come, the node sends on its output
  the image of the data it has handled, with the stop signal at its place; barriers and watermarks
  pass between them.
\<close>

section \<open>Streams\<close>

text \<open>The data messages of a list of messages in order, and \<open>None\<close> for a stop signal.\<close>

definition item_of :: "'u Message \<Rightarrow> 'u DataMessage option list" where
  "item_of m =
     (if IsData m then (case m_Data m of None \<Rightarrow> [] | Some d \<Rightarrow> [Some d])
      else if is_stop m then [None] else [])"

definition stream :: "'u Message list \<Rightarrow> 'u DataMessage option list" where
  "stream ms = concat (map item_of ms)"

definition datas :: "'u DataMessage option list \<Rightarrow> 'u DataMessage list" where
  "datas xs = concat (map (\<lambda>x. case x of None \<Rightarrow> [] | Some d \<Rightarrow> [d]) xs)"

definition image_stream :: "('u DataMessage \<Rightarrow> 'u DataMessage list) \<Rightarrow> 'u DataMessage option list \<Rightarrow> 'u DataMessage option list" where
  "image_stream f xs = concat (map (\<lambda>x. case x of None \<Rightarrow> [None] | Some d \<Rightarrow> map Some (f d)) xs)"

definition sent_to :: "nat \<Rightarrow> (nat \<times> 'u Message) list \<Rightarrow> 'u Message list" where
  "sent_to b log = map snd (filter (\<lambda>x. fst x = b) log)"

lemma stream_simps [simp]:
  "stream [] = []" "stream (m # ms) = item_of m @ stream ms" "stream (xs @ ys) = stream xs @ stream ys"
  "datas [] = []" "datas (xs' @ ys') = datas xs' @ datas ys'" "datas [None] = []" "datas [Some d] = [d]"
  "image_stream f [] = []" "image_stream f (xs' @ ys') = image_stream f xs' @ image_stream f ys'"
  "image_stream f [None] = [None]" "image_stream f [Some d] = map Some (f d)"
  "sent_to b [] = []" "sent_to b (l @ l') = sent_to b l @ sent_to b l'"
  "sent_to b ((b', m) # l) = (if b' = b then [m] else []) @ sent_to b l"
  by (simp_all add: stream_def datas_def image_stream_def sent_to_def)

lemma datas_map_Some [simp]: "datas (map Some ds) = ds"
  by (induction ds) (simp_all add: datas_def)

lemma item_of_simps [simp]:
  "item_of (NewDataMessage k v t) = [Some (DataMessage k v t)]" "item_of (data_message d) = [Some d]"
  "item_of (barrier_message b) = []" "item_of (watermark_message wm) = []" "item_of (NewSignalMessage NewStopSignal) = [None]"
  "item_of (NewSignalMessage (NewBarrierSignal now e me ts)) = []"
  by (simp_all add: item_of_def data_message_def barrier_message_def watermark_message_def IsData_def IsSignal_def is_stop_def
      NewDataMessage_def NewSignalMessage_def NewStopSignal_def NewBarrierSignal_def)

lemma item_of_watermark: "watermark_of m = Some wm \<Longrightarrow> item_of m = []"
  by (auto simp: watermark_of_def item_of_def is_stop_def IsData_def IsSignal_def split: if_splits option.splits)

lemma item_of_barrier: "barrier_of m = Some b \<Longrightarrow> item_of m = []"
  by (auto simp: barrier_of_def item_of_def is_stop_def IsData_def IsSignal_def split: if_splits option.splits)

section \<open>Sending when no context ends\<close>

lemma broadcast_sends:
  assumes "sends_ok w"
  obtains w' where "broadcast Send outs m w = (w', None)" "sends_ok w'" "w_timers w' = w_timers w"
    "w_sent w' = w_sent w @ map (\<lambda>out. (out, m)) outs"
proof -
  obtain w' r where b: "broadcast Send outs m w = (w', r)" by fastforce
  with broadcast_sends_ok [OF assms] have r: "r = None" "sends_ok w'" by auto
  from broadcast_frame [OF b] have "w_timers w' = w_timers w" by (metis World.ext_inject World.surjective World.update_convs(1,3))
  with that b r net.broadcast_ok [of outs m w w'] show ?thesis by simp
qed

lemma sent_to_all: "sent_to b (map (\<lambda>out. (out, m)) outs) = replicate (count_list outs b) m"
  by (induction outs) auto

lemma send_ignoring_sends:
  assumes "sends_ok w"
  shows "sends_ok (send_ignoring m outs w) \<and> w_timers (send_ignoring m outs w) = w_timers w \<and>
    w_sent (send_ignoring m outs w) = w_sent w @ map (\<lambda>out. (out, m)) outs"
  using assms unfolding send_ignoring_def
proof (induction outs arbitrary: w)
  case (Cons out outs)
  have "sends_ok (fst (Send out m w)) \<and> w_timers (fst (Send out m w)) = w_timers w \<and>
      w_sent (fst (Send out m w)) = w_sent w @ [(out, m)]"
    using Cons.prems by (simp add: Send_def sends_ok_def Let_def)
  with Cons.IH [of "fst (Send out m w)"] show ?case by simp
qed simp

section \<open>The contract of a stream operator\<close>

locale stream_operator =
  fixes op :: "('s, 'u) Operator" and f :: "'u DataMessage \<Rightarrow> 'u DataMessage list" and upd :: "'u DataMessage \<Rightarrow> 's \<Rightarrow> 's"
  assumes no_timers: "op_HandleTimer op = None"
    and no_drain: "op_Drain op = None"
    and no_tick: "op_HandleTick op = None"
    and watermark: "op_HandleWatermark op wm c s w = Some (s, w, None)"
    and snapshot: "fst (op_HandleCheckpoint op barrier s) = s"
    and process: "sends_ok w \<Longrightarrow>
      \<exists>w'. op_ProcessMessage op d c s w = Some (upd d s, w', None) \<and> sends_ok w' \<and> w_timers w' = w_timers w \<and>
        w_sent w' = w_sent w @ concat (map (\<lambda>d'. map (\<lambda>out. (out, data_message d')) (rc_outputs c)) (f d))"

lemma Emit_sends:
  assumes "sends_ok w"
  shows "\<exists>w'. Emit c d w = (w', None) \<and> sends_ok w' \<and> w_timers w' = w_timers w \<and>
    w_sent w' = w_sent w @ map (\<lambda>out. (out, data_message d)) (rc_outputs c)"
  using broadcast_sends [OF assms, of "rc_outputs c" "data_message d"] by (auto simp: Emit_def data_message_def Let_def)

text \<open>The instances among the built-in operators.\<close>

lemma base_simps [simp]:
  "op_HandleTimer BaseOperator = None" "op_Drain BaseOperator = None" "op_HandleTick BaseOperator = None"
  "op_HandleWatermark BaseOperator wm c s w = Some (s, w, None)" "op_HandleCheckpoint BaseOperator barrier s = (s, Inr [])"
  by (simp_all add: BaseOperator_def)

lemma stream_operator_base:
  assumes "\<And>d c s w. sends_ok w \<Longrightarrow>
      \<exists>w'. h d c s w = Some (upd d s, w', None) \<and> sends_ok w' \<and> w_timers w' = w_timers w \<and>
        w_sent w' = w_sent w @ concat (map (\<lambda>d'. map (\<lambda>out. (out, data_message d')) (rc_outputs c)) (f d))"
  shows "stream_operator (BaseOperator\<lparr>op_ProcessMessage := h\<rparr>) f upd"
  using assms by unfold_locales simp_all

interpretation merge_stream: stream_operator nodes_Merge "\<lambda>d. [d]" "\<lambda>d s. s"
  unfolding nodes_Merge_def by (rule stream_operator_base) (use Emit_sends in \<open>fastforce simp: returning_def\<close>)

interpretation fanout_stream: stream_operator nodes_FanOut "\<lambda>d. [d]" "\<lambda>d s. s"
  unfolding nodes_FanOut_def by (rule stream_operator_base) (use Emit_sends in \<open>fastforce simp: returning_def\<close>)

interpretation map_stream: stream_operator "nodes_Map as_In box fn"
    "\<lambda>d. case as_In (dm_Value d) of None \<Rightarrow> [] | Some v \<Rightarrow> [DataMessage (dm_Key d) (box (fn v)) (dm_EventTime d)]" "\<lambda>d s. s"
  unfolding nodes_Map_def
  by (rule stream_operator_base) (use Emit_sends in \<open>fastforce simp: returning_def mapOp_ProcessMessage_def split: option.splits\<close>)

interpretation filter_stream: stream_operator "nodes_Filter as_T pred"
    "\<lambda>d. case as_T (dm_Value d) of None \<Rightarrow> [] | Some v \<Rightarrow> if pred v then [d] else []" "\<lambda>d s. s"
  unfolding nodes_Filter_def
  by (rule stream_operator_base) (use Emit_sends in \<open>fastforce simp: returning_def filterOp_ProcessMessage_def split: option.splits\<close>)

section \<open>The flow through a node\<close>

text \<open>
  A node with at most one input whose operator is \<open>op\<close> and whose outputs are \<open>outs\<close> has handled the
  stream \<open>done\<close>: its state is computed from the data of it, each output has got its image, and the
  node has counted the stop signals in it.
\<close>

definition image_sent :: "('u DataMessage \<Rightarrow> 'u DataMessage list) \<Rightarrow> nat list \<Rightarrow> 'u DataMessage option list \<Rightarrow> 'u World \<Rightarrow> bool" where
  "image_sent f outs done w \<longleftrightarrow>
     (\<forall>b. stream (sent_to b (w_sent w)) = (if b \<in> set outs then image_stream f done else [])) \<and>
     fst ` set (w_sent w) \<subseteq> set outs"

definition flows ::
  "('s, 'u) Operator \<Rightarrow> ('u DataMessage \<Rightarrow> 'u DataMessage list) \<Rightarrow> ('u DataMessage \<Rightarrow> 's \<Rightarrow> 's) \<Rightarrow> 's \<Rightarrow> nat list \<Rightarrow>
     'u DataMessage option list \<Rightarrow> ('s, 'u) NodeRuntime \<Rightarrow> 'u World \<Rightarrow> bool" where
  "flows op f upd s0 outs done nr w \<longleftrightarrow>
     (\<exists>n. nr_node nr = OpNode n \<and> on_operator n = op \<and> on_outputs n = outs \<and> \<not> on_timerMgr n \<and>
        on_state n = fold upd (datas done) s0) \<and>
     nr_outputs nr = outs \<and> distinct outs \<and> idle_single nr \<and> nr_activeInputs nr = 1 - int (count_list done None) \<and> nr_tickInterval nr = 0 \<and>
     sends_ok w \<and> image_sent f outs done w"

lemma image_sent_skip:
  assumes "image_sent f outs done w" "w_sent w' = w_sent w @ map (\<lambda>out. (out, m)) outs'" "item_of m = []" "set outs' \<subseteq> set outs"
  shows "image_sent f outs done w'"
proof -
  have "stream (replicate n m) = []" for n using assms(3) by (induction n) simp_all
  with assms show ?thesis by (auto simp: image_sent_def sent_to_all)
qed

lemma sent_to_once:
  "distinct outs \<Longrightarrow> sent_to b (map (\<lambda>out. (out, m)) outs) = (if b \<in> set outs then [m] else [])"
  by (induction outs) auto

lemma stream_sent_each:
  assumes "distinct outs"
  shows "stream (sent_to b (concat (map (\<lambda>d. map (\<lambda>out. (out, data_message d)) outs) ds))) = (if b \<in> set outs then map Some ds else [])"
  using assms by (induction ds) (simp_all add: sent_to_once)

lemma image_sent_stop:
  assumes "image_sent f outs done w" "w_sent w' = w_sent w @ map (\<lambda>out. (out, m)) outs" "item_of m = [None]" "distinct outs"
  shows "image_sent f outs (done @ [None]) w'"
  using assms by (auto simp: image_sent_def sent_to_once)

lemma image_sent_data:
  assumes "image_sent f outs done w" "distinct outs"
    and "w_sent w' = w_sent w @ concat (map (\<lambda>d'. map (\<lambda>out. (out, data_message d')) outs) (f d))"
  shows "image_sent f outs (done @ [Some d]) w'"
  using assms by (auto simp: image_sent_def stream_sent_each)

lemma image_sent_cong: "image_sent f outs done w \<Longrightarrow> w_sent w' = w_sent w \<Longrightarrow> image_sent f outs done w'"
  by (simp add: image_sent_def)

context stream_operator
begin

definition handled :: "'s \<Rightarrow> nat list \<Rightarrow> 'u DataMessage option list \<Rightarrow> ('s, 'u) rt_result \<Rightarrow> bool" where
  "handled s0 outs done r \<longleftrightarrow> (\<forall>nr w err. r = Some (nr, w, err) \<longrightarrow> flows op f upd s0 outs done nr w)"

lemma flow_checkpoint:
  assumes "flows op f upd s0 outs done nr w" "Node_HandleCheckpoint barrier (nr_node nr) w = (n, r)"
  shows "flows op f upd s0 outs done (nr\<lparr>nr_node := n\<rparr>) w"
proof -
  obtain x where x: "nr_node nr = OpNode x" "on_operator x = op" "\<not> on_timerMgr x"
    using assms(1) by (auto simp: flows_def)
  obtain s r' where hc: "op_HandleCheckpoint op barrier (on_state x) = (s, r')" by fastforce
  have "s = on_state x" using snapshot [of barrier "on_state x"] hc by simp
  moreover have "n = OpNode (x\<lparr>on_state := s\<rparr>)"
    using assms(2) x hc by (auto simp: OperatorNode_HandleCheckpoint_def split: sum.splits)
  ultimately have "n = OpNode x" by simp
  with assms(1) x show ?thesis by (simp add: flows_def idle_single_def)
qed

lemma flow_forward:
  assumes "flows op f upd s0 outs done nr w" "item_of m = []"
  obtains w' where "broadcast Send (nr_outputs nr) m w = (w', None)" "flows op f upd s0 outs done nr w'"
proof -
  have "nr_outputs nr = outs" "sends_ok w" "image_sent f outs done w" using assms(1) by (simp_all add: flows_def)
  moreover obtain w' where w': "broadcast Send outs m w = (w', None)" "sends_ok w'" "w_sent w' = w_sent w @ map (\<lambda>out. (out, m)) outs"
    using broadcast_sends [OF \<open>sends_ok w\<close>, of outs m] by blast
  moreover have "image_sent f outs done w'"
    by (rule image_sent_skip [OF \<open>image_sent f outs done w\<close> w'(3) assms(2)]) simp
  ultimately show ?thesis using that assms(1) by (simp add: flows_def)
qed

lemma flow_cong:
  assumes "flows op f upd s0 outs done nr w"
    and "nr_node nr' = nr_node nr" "nr_outputs nr' = nr_outputs nr" "nr_aligner nr' = nr_aligner nr"
    "nr_activeInputs nr' = nr_activeInputs nr" "nr_tickInterval nr' = nr_tickInterval nr"
  shows "flows op f upd s0 outs done nr' w"
  using assms by (simp add: flows_def idle_single_def)

lemma flow_active: "flows op f upd s0 outs done nr w \<Longrightarrow> nr_activeInputs nr \<le> 1"
  by (simp add: flows_def)

lemma flow_barrier:
  assumes "flows op f upd s0 outs done nr w"
  shows "handled s0 outs done (Some (handleAlignedBarrier barrier nr w))"
proof -
  obtain n r where hc: "Node_HandleCheckpoint barrier (nr_node nr) w = (n, r)" by fastforce
  note fl = flow_checkpoint [OF assms hc]
  obtain w' where b: "broadcast Send (nr_outputs nr) (barrier_message barrier) w = (w', None)"
    "flows op f upd s0 outs done (nr\<lparr>nr_node := n\<rparr>) w'"
    using flow_forward [OF fl, of "barrier_message barrier"] by auto
  show ?thesis
  proof (cases r)
    case (Inl err)
    with hc fl show ?thesis by (simp add: handleAlignedBarrier_def handled_def)
  next
    case (Inr state)
    have "flows op f upd s0 outs done (fst (handleAlignedBarrier barrier nr w)) w'"
      by (rule flow_cong [OF b(2)])
        (use flow_active [OF b(2)] in \<open>simp_all add: handleAlignedBarrier_def hc Inr b(1) report_completion_def Runtime_Stop_def Let_def\<close>)
    moreover have "snd (handleAlignedBarrier barrier nr w) = (w', None)"
      by (simp add: handleAlignedBarrier_def hc Inr b(1) Let_def)
    ultimately show ?thesis by (metis handled_def fst_conv option.inject snd_conv)
  qed
qed

text \<open>What the node does with the two messages that count; no error, no panic.\<close>

lemma stop_result:
  assumes "flows op f upd s0 outs done nr w" "sm_SignalType sig = SignalTypeStop"
  obtains w' where "handleSignal m sig nr w = (Runtime_Stop (nr\<lparr>nr_activeInputs := nr_activeInputs nr - 1\<rparr>), w', None)"
    "sends_ok w'" "w_sent w' = w_sent w @ map (\<lambda>out. (out, m)) outs"
proof -
  obtain x where x: "nr_node nr = OpNode x" "on_operator x = op" using assms(1) by (auto simp: flows_def)
  have outs: "nr_outputs nr = outs" "sends_ok w" using assms(1) by (simp_all add: flows_def)
  obtain w' where w': "broadcast Send outs m w = (w', None)" "sends_ok w'" "w_sent w' = w_sent w @ map (\<lambda>out. (out, m)) outs"
    using broadcast_sends [OF outs(2), of outs m] by blast
  have "handleSignal m sig nr w = (Runtime_Stop (nr\<lparr>nr_activeInputs := nr_activeInputs nr - 1\<rparr>), w', None)"
    using flow_active [OF assms(1)] assms(2) x no_drain w' outs(1) by (simp add: handleSignal_def drainIfDrainable_def Let_def)
  with w'(2,3) that show ?thesis by blast
qed

lemma data_result:
  assumes fl: "flows op f upd s0 outs done nr w" and m: "IsData m" "m_Data m = Some d" and x: "nr_node nr = OpNode x"
  obtains w' where "handleMessage m nr w = Some (nr\<lparr>nr_node := OpNode (x\<lparr>on_state := upd d (on_state x)\<rparr>)\<rparr>, w', None)"
    "sends_ok w'" "w_sent w' = w_sent w @ concat (map (\<lambda>d'. map (\<lambda>out. (out, data_message d')) outs) (f d))"
proof -
  have op: "on_operator x = op" "on_outputs x = outs" "sends_ok w" using fl x by (auto simp: flows_def)
  obtain w' where p: "op_ProcessMessage op d (newCollector x) (on_state x) w = Some (upd d (on_state x), w', None)" "sends_ok w'"
    "w_sent w' = w_sent w @ concat (map (\<lambda>d'. map (\<lambda>out. (out, data_message d')) (rc_outputs (newCollector x))) (f d))"
    using process [OF op(3), of d "newCollector x" "on_state x"] by blast
  moreover have "handleMessage m nr w = Some (nr\<lparr>nr_node := OpNode (x\<lparr>on_state := upd d (on_state x)\<rparr>)\<rparr>, w', None)"
    using m x op(1) p(1) by (simp add: handleMessage_def OperatorNode_ProcessMessage_def with_state_def as_OpNode_def with_node_def)
  ultimately show ?thesis using that op(2) by (simp add: newCollector_def)
qed

lemma flow_stop:
  assumes "flows op f upd s0 outs done nr w" "item_of m = [None]" "sm_SignalType sig = SignalTypeStop"
  shows "handled s0 outs (done @ [None]) (Some (handleSignal m sig nr w))"
proof -
  obtain w' where w': "handleSignal m sig nr w = (Runtime_Stop (nr\<lparr>nr_activeInputs := nr_activeInputs nr - 1\<rparr>), w', None)"
    "sends_ok w'" "w_sent w' = w_sent w @ map (\<lambda>out. (out, m)) outs"
    by (rule stop_result [OF assms(1,3)])
  have "image_sent f outs (done @ [None]) w'"
    by (rule image_sent_stop [OF _ w'(3) assms(2)]) (use assms(1) in \<open>simp_all add: flows_def\<close>)
  with assms(1) w'(1,2) show ?thesis by (auto simp: handled_def flows_def idle_single_def Runtime_Stop_def)
qed

lemma flow_data:
  assumes fl: "flows op f upd s0 outs done nr w" and m: "IsData m" "m_Data m = Some d"
  shows "handled s0 outs (done @ [Some d]) (handleMessage m nr w)"
proof -
  obtain x where x: "nr_node nr = OpNode x" "on_state x = fold upd (datas done) s0" using fl by (auto simp: flows_def)
  obtain w' where w': "handleMessage m nr w = Some (nr\<lparr>nr_node := OpNode (x\<lparr>on_state := upd d (on_state x)\<rparr>)\<rparr>, w', None)"
    "sends_ok w'" "w_sent w' = w_sent w @ concat (map (\<lambda>d'. map (\<lambda>out. (out, data_message d')) outs) (f d))"
    by (rule data_result [OF fl m x(1)])
  have "image_sent f outs (done @ [Some d]) w'"
    by (rule image_sent_data [where w = w]) (use fl w'(3) in \<open>simp_all add: flows_def\<close>)
  with fl x w'(1,2) show ?thesis by (auto simp: handled_def flows_def idle_single_def)
qed

lemma flow_watermark:
  assumes "flows op f upd s0 outs done nr w"
  shows "handled s0 outs done (handleIndexedWatermark i wm nr w)"
proof -
  obtain adv wh where u: "Watermark_Update (int i) wm (nr_watermarks nr) = (adv, wh)" by fastforce
  let ?nr = "nr\<lparr>nr_watermarks := wh\<rparr>"
  have fl: "flows op f upd s0 outs done ?nr w"
    by (rule flow_cong [OF assms]) (use flow_active [OF assms] in simp_all)
  show ?thesis
  proof (cases adv)
    case None
    with u fl show ?thesis by (simp add: handleIndexedWatermark_def handled_def)
  next
    case (Some advanced)
    obtain x where x: "nr_node nr = OpNode x" "on_operator x = op" using assms by (auto simp: flows_def)
    have "with_node ?nr (Node_HandleWatermark advanced (nr_node nr) w) = Some (?nr, w, None)"
      using x watermark by (cases nr) (simp add: OperatorNode_HandleWatermark_def with_state_def as_OpNode_def with_node_def)
    moreover obtain w' where "broadcast Send (nr_outputs ?nr) (watermark_message advanced) w = (w', None)" "flows op f upd s0 outs done ?nr w'"
      using flow_forward [OF fl, of "watermark_message advanced"] by auto
    ultimately show ?thesis using u Some by (simp add: handleIndexedWatermark_def handled_def)
  qed
qed

lemma flow_message:
  assumes "flows op f upd s0 outs done nr w"
  shows "handled s0 outs (done @ item_of m) (handleMessage m nr w)"
proof (cases "IsData m")
  case True
  with flow_data [OF assms True] show ?thesis
    by (cases "m_Data m") (simp_all add: item_of_def handleMessage_def handled_def)
next
  case data: False
  show ?thesis
  proof (cases "if IsSignal m then m_Signal m else None")
    case None
    with data assms show ?thesis by (auto simp: handleMessage_def handled_def item_of_def is_stop_def)
  next
    case (Some sig)
    then have sig: "IsSignal m" "m_Signal m = Some sig" by (auto split: if_splits)
    have hm: "handleMessage m nr w = Some (handleSignal m sig nr w)"
      using data sig by (simp add: handleMessage_def)
    show ?thesis
    proof (cases "sm_SignalType sig")
      case SignalTypeStop
      then have "item_of m = [None]" using data sig by (simp add: item_of_def is_stop_def)
      with flow_stop [OF assms this SignalTypeStop] show ?thesis by (simp add: hm)
    next
      case SignalTypeBarrier
      then have "item_of m = []" using data sig by (simp add: item_of_def is_stop_def)
      with SignalTypeBarrier flow_barrier [OF assms] assms show ?thesis
        by (cases "sm_Barrier sig") (simp_all add: hm handleSignal_def handled_def)
    next
      case SignalTypeWatermark
      then have "item_of m = []" using data sig by (simp add: item_of_def is_stop_def)
      with SignalTypeWatermark assms show ?thesis by (simp add: hm handleSignal_def handled_def)
    qed
  qed
qed

lemma flow_indexed:
  assumes "flows op f upd s0 outs done nr w"
  shows "handled s0 outs (done @ item_of (im_Msg im)) (handleIndexedMessage im nr w)"
proof (cases "watermark_of (im_Msg im)")
  case (Some wm)
  with flow_watermark [OF assms] item_of_watermark [OF Some] show ?thesis by (simp add: handleIndexedMessage_def)
next
  case None
  have "idle_single nr" using assms by (simp add: flows_def)
  note eq = handle_single [OF this None]
  show ?thesis
  proof (cases "barrier_of (im_Msg im)")
    case (Some b)
    with flow_barrier [OF assms] item_of_barrier [OF Some] show ?thesis by (simp add: eq)
  next
    case None
    with flow_message [OF assms] show ?thesis by (simp add: eq)
  qed
qed

lemma flow_control:
  assumes "flows op f upd s0 outs done nr w" "handleControl ctrl nr w = (nr', w')"
  shows "flows op f upd s0 outs done nr' w'"
proof (cases "cm_Type ctrl = ControlTypeCheckpointRequest \<and> cm_Checkpoint ctrl \<noteq> None")
  case False
  have act: "nr_activeInputs nr \<le> 1" by (rule flow_active [OF assms(1)])
  have same: "nr\<lparr>nr_paused := nr_paused nr\<rparr> = nr" by (cases nr) simp
  obtain b where "handleControl ctrl nr w = (nr\<lparr>nr_paused := b\<rparr>, w)"
  proof (cases "cm_Type ctrl")
    case ControlTypeCheckpointRequest
    with False that [of "nr_paused nr"] show ?thesis by (simp add: handleControl_def same)
  next
    case ControlTypePause
    with that [of True] show ?thesis by (simp add: handleControl_def)
  next
    case ControlTypeResume
    with that [of False] show ?thesis by (simp add: handleControl_def)
  next
    case ControlTypeTerminate
    with that [of "nr_paused nr"] show ?thesis by (simp add: handleControl_def same)
  qed
  with assms(2) have "w' = w" "nr' = nr\<lparr>nr_paused := b\<rparr>" by simp_all
  with flow_cong [OF assms(1), of "nr\<lparr>nr_paused := b\<rparr>"] act show ?thesis by simp
next
  case True
  then obtain req where req: "cm_Type ctrl = ControlTypeCheckpointRequest" "cm_Checkpoint ctrl = Some req" by auto
  obtain now w1 where now: "Now w = (now, w1)" by fastforce
  then have w1_def: "w1 = snd (Now w)" by simp
  define barrier where "barrier = NewBarrierSignal now (cr_Epoch req) (cr_MinEpoch req) (cr_ThenStop req)"
  have "image_sent f outs done w1"
    by (rule image_sent_cong [of f outs "done" w]) (use assms(1) in \<open>simp_all add: flows_def w1_def\<close>)
  then have fl: "flows op f upd s0 outs done nr w1"
    using assms(1) by (auto simp: flows_def w1_def Now_def sends_ok_def)
  obtain n r where hc: "Node_HandleCheckpoint (the (sm_Barrier barrier)) (nr_node nr) w1 = (n, r)" by fastforce
  define w2 where "w2 = send_ignoring (NewSignalMessage barrier) (nr_outputs nr) w1"
  note fl2 = flow_checkpoint [OF fl hc]
  have "sends_ok w1" "nr_outputs nr = outs" "image_sent f outs done w1" using fl by (simp_all add: flows_def)
  then have "sends_ok w2" "w_sent w2 = w_sent w1 @ map (\<lambda>out. (out, NewSignalMessage barrier)) outs"
    using send_ignoring_sends [of w1 "NewSignalMessage barrier" outs] by (simp_all add: w2_def)
  moreover from this(2) have "image_sent f outs done w2"
    by (rule image_sent_skip [OF \<open>image_sent f outs done w1\<close>]) (simp_all add: barrier_def)
  ultimately have "flows op f upd s0 outs done (nr\<lparr>nr_node := n\<rparr>) w2" using fl2 by (simp add: flows_def)
  moreover have "w' = w2" "nr' = (let nr = report_completion
        \<lparr>nc_NodeID = Node_ID n, nc_Epoch = cr_Epoch req, nc_State = (case r of Inl _ \<Rightarrow> [] | Inr state \<Rightarrow> state)\<rparr> (nr\<lparr>nr_node := n\<rparr>)
      in if cr_ThenStop req then Runtime_Stop nr else nr)"
    using assms(2) hc by (auto simp: handleControl_def req now w2_def barrier_def [symmetric] Let_def)
  ultimately show ?thesis
    using flow_active [OF fl] by (auto intro!: flow_cong [of s0 outs "done" "nr\<lparr>nr_node := n\<rparr>" w2]
        simp: report_completion_def Runtime_Stop_def Let_def)
qed

end

section \<open>The flow through the goroutines of a node\<close>

text \<open>What the main loop has received, as a stream; all of it is handled except a message it waits with.\<close>

definition taken_stream :: "('s, 'u) rt_state \<Rightarrow> 'u DataMessage option list" where
  "taken_stream st = stream (map im_Msg (rt_taken st))"

primrec loop_handled :: "'u loop_point \<Rightarrow> 'u DataMessage option list \<Rightarrow> 'u DataMessage option list \<Rightarrow> bool" where
  "loop_handled AtHead done taken \<longleftrightarrow> taken = done"
| "loop_handled (AtSelect t) done taken \<longleftrightarrow> \<not> t \<and> taken = done"
| "loop_handled (Waiting im) done taken \<longleftrightarrow> taken = done @ item_of (im_Msg im)"
| "loop_handled Exited done taken \<longleftrightarrow> prefix done taken"
| "loop_handled Panicked done taken \<longleftrightarrow> prefix done taken"

lemma loop_handled_prefix: "loop_handled pt done taken \<Longrightarrow> prefix done taken"
  by (cases pt) auto

context stream_operator
begin

definition node_flow :: "'s \<Rightarrow> nat list \<Rightarrow> ('s, 'u) rt_state \<Rightarrow> bool" where
  "node_flow s0 outs st \<longleftrightarrow>
     (\<exists>done. flows op f upd s0 outs done (rt_nr st) (rt_w st) \<and> loop_handled (rt_point st) done (taken_stream st))"

lemma flow_finish:
  assumes "flows op f upd s0 outs done (rt_nr st) (rt_w st)" "prefix done (taken_stream st)"
  shows "node_flow s0 outs (finish st)"
proof -
  have "flows op f upd s0 outs done (rt_nr (finish st)) (rt_w (finish st))"
    using flow_cong [OF assms(1), of "rt_nr (finish st)"] flow_active [OF assms(1)] by (simp add: finish_def Let_def)
  with assms(2) show ?thesis by (auto simp: node_flow_def finish_def taken_stream_def Let_def)
qed

lemma flow_finish_err:
  assumes "flows op f upd s0 outs done nr w" "prefix done (taken_stream st)"
  shows "node_flow s0 outs (finish (st\<lparr>rt_nr := nr\<lparr>nr_err := e\<rparr>, rt_w := w\<rparr>))"
  by (rule flow_finish [of s0 outs "done"])
    (use assms flow_cong [OF assms(1), of "nr\<lparr>nr_err := e\<rparr>"] flow_active [OF assms(1)] in \<open>simp_all add: taken_stream_def\<close>)

lemma flow_loop_after:
  assumes "flows op f upd s0 outs done (rt_nr st) (rt_w st)" "handled s0 outs done' r" "taken_stream st = done'" "prefix done done'"
  shows "node_flow s0 outs (loop_after r st)"
proof (cases r)
  case None
  with assms show ?thesis by (auto simp: loop_after_def node_flow_def taken_stream_def)
next
  case (Some x)
  obtain nr w err where x: "x = (nr, w, err)" by (cases x)
  with Some assms(2) have fl: "flows op f upd s0 outs done' nr w" by (simp add: handled_def)
  show ?thesis
  proof (cases err)
    case None
    with Some x fl assms(3) show ?thesis by (auto simp: loop_after_def node_flow_def taken_stream_def)
  next
    case (Some e)
    with \<open>r = Some x\<close> x flow_finish_err [OF fl] assms(3) show ?thesis by (simp add: loop_after_def)
  qed
qed

lemma flow_process:
  assumes "flows op f upd s0 outs done (rt_nr st) (rt_w st)" "taken_stream st = done @ item_of (im_Msg im)"
  shows "node_flow s0 outs (run_process im st)"
  unfolding run_process_def by (rule flow_loop_after [OF assms(1) flow_indexed [OF assms(1)] assms(2)]) simp

lemma flow_resumed:
  assumes "flows op f upd s0 outs done (rt_nr st) (rt_w st)" "taken_stream st = done @ item_of (im_Msg im)"
  shows "node_flow s0 outs (run_resumed im st)"
proof (cases "cancelled (rt_nr st)")
  case True
  have "rt_nr st = rt_nr st" by simp
  with flow_finish_err [OF assms(1), of st "ctx_Err (rt_nr st)"] assms(2) True show ?thesis
    by (simp add: run_resumed_def run_cancelled_def)
qed (use flow_process [OF assms] in \<open>simp add: run_resumed_def\<close>)

text \<open>An event that changes neither the node, its world nor the loop keeps the flow.\<close>

lemma node_flow_cong:
  assumes "node_flow s0 outs st" "rt_w st' = rt_w st" "rt_point st' = rt_point st" "rt_taken st' = rt_taken st"
    and "nr_node (rt_nr st') = nr_node (rt_nr st)" "nr_outputs (rt_nr st') = nr_outputs (rt_nr st)"
    "nr_aligner (rt_nr st') = nr_aligner (rt_nr st)" "nr_activeInputs (rt_nr st') = nr_activeInputs (rt_nr st)"
    "nr_tickInterval (rt_nr st') = nr_tickInterval (rt_nr st)"
  shows "node_flow s0 outs st'"
  using assms by (simp add: node_flow_def flows_def idle_single_def taken_stream_def)

lemma node_flow_head:
  assumes "node_flow s0 outs st" "rt_point st = AtHead"
  shows "node_flow s0 outs (run_head st)"
proof -
  have "getTimerManager (nr_node (rt_nr st)) (rt_w st) = None"
    using assms(1) by (auto simp: node_flow_def flows_def)
  with assms show ?thesis by (auto simp: run_head_def node_flow_def taken_stream_def)
qed

lemma node_flow_select:
  assumes "node_flow s0 outs st" "rt_point st = AtSelect t" "rt_exec ev st = Some st'"
    and "ev \<in> {LoopDone, LoopControl, LoopMerged, LoopTimer, LoopTick}"
  shows "node_flow s0 outs st'"
proof -
  obtain dn where fl: "flows op f upd s0 outs dn (rt_nr st) (rt_w st)" and t: "\<not> t" and taken: "taken_stream st = dn"
    using assms(1,2) by (auto simp: node_flow_def)
  from assms(4) consider "ev = LoopDone" | "ev = LoopControl" | "ev = LoopMerged" | "ev = LoopTimer \<or> ev = LoopTick" by blast
  then show ?thesis
  proof cases
    case 1
    with assms(2,3) have "st' = run_cancelled st" by (auto split: if_splits)
    with flow_finish_err [OF fl, of st "ctx_Err (rt_nr st)"] taken show ?thesis by (simp add: run_cancelled_def)
  next
    case 2
    then obtain ctrl ctrls where pop: "nr_controlCh (rt_nr st) = ctrl # ctrls"
      and st': "st' = run_control ctrl (st\<lparr>rt_nr := (rt_nr st)\<lparr>nr_controlCh := ctrls\<rparr>\<rparr>)"
      using assms(2,3) by (auto simp: pop_control_def split: list.splits)
    obtain nr w where hc: "handleControl ctrl ((rt_nr st)\<lparr>nr_controlCh := ctrls\<rparr>) (rt_w st) = (nr, w)" by fastforce
    have "flows op f upd s0 outs dn ((rt_nr st)\<lparr>nr_controlCh := ctrls\<rparr>) (rt_w st)"
      by (rule flow_cong [OF fl]) (use flow_active [OF fl] in simp_all)
    note fl' = flow_control [OF this hc]
    let ?st = "st\<lparr>rt_nr := nr, rt_w := w\<rparr>"
    have "node_flow s0 outs (finish ?st)"
      by (rule flow_finish [of s0 outs dn]) (use fl' taken in \<open>simp_all add: taken_stream_def\<close>)
    moreover have "node_flow s0 outs (?st\<lparr>rt_point := AtHead\<rparr>)"
      using fl' taken by (auto simp: node_flow_def taken_stream_def)
    ultimately show ?thesis by (simp add: st' run_control_def hc Let_def)
  next
    case 3
    with assms(2,3) consider "nr_merged (rt_nr st) = Some []" "st' = finish st"
      | im ims where "nr_merged (rt_nr st) = Some (im # ims)"
        "st' = run_merged im (st\<lparr>rt_nr := (rt_nr st)\<lparr>nr_merged := Some ims\<rparr>, rt_taken := rt_taken st @ [im]\<rparr>)"
      by (auto split: option.splits list.splits if_splits)
    then show ?thesis
    proof cases
      case 1
      with flow_finish [OF fl] taken show ?thesis by simp
    next
      case 2
      let ?st = "st\<lparr>rt_nr := (rt_nr st)\<lparr>nr_merged := Some ims\<rparr>, rt_taken := rt_taken st @ [im]\<rparr>"
      have fl2: "flows op f upd s0 outs dn (rt_nr ?st) (rt_w ?st)"
        using flow_cong [OF fl, of "rt_nr ?st"] flow_active [OF fl] by simp
      have tk: "taken_stream ?st = dn @ item_of (im_Msg im)" using taken by (simp add: taken_stream_def)
      show ?thesis
      proof (cases "isPaused (rt_nr ?st)")
        case True
        with fl2 tk show ?thesis unfolding 2(2) by (auto simp: run_merged_def node_flow_def taken_stream_def)
      next
        case False
        with flow_process [OF fl2 tk] show ?thesis unfolding 2(2) by (simp add: run_merged_def)
      qed
    qed
  next
    case 4
    with assms(2,3) t fl show ?thesis by (auto simp: flows_def split: if_splits)
  qed
qed

lemma node_flow_waiting:
  assumes "node_flow s0 outs st" "rt_point st = Waiting im" "rt_exec ev st = Some st'" "ev \<in> {WaitDone, WaitControl}"
  shows "node_flow s0 outs st'"
proof -
  obtain dn where fl: "flows op f upd s0 outs dn (rt_nr st) (rt_w st)" and taken: "taken_stream st = dn @ item_of (im_Msg im)"
    using assms(1,2) by (auto simp: node_flow_def)
  from assms(4) consider "ev = WaitDone" | "ev = WaitControl" by blast
  then show ?thesis
  proof cases
    case 1
    with assms(2,3) have "st' = run_resumed im st" by (auto split: if_splits)
    with flow_resumed [OF fl taken] show ?thesis by simp
  next
    case 2
    then obtain ctrl ctrls where st': "st' = waitForResume_control ctrl im (st\<lparr>rt_nr := (rt_nr st)\<lparr>nr_controlCh := ctrls\<rparr>\<rparr>)"
      using assms(2,3) by (auto simp: pop_control_def split: list.splits)
    let ?nr = "(rt_nr st)\<lparr>nr_controlCh := ctrls\<rparr>"
    have res: "node_flow s0 outs (run_resumed im (st\<lparr>rt_nr := nr\<rparr>))"
      if "nr = ?nr\<lparr>nr_paused := False\<rparr> \<or> nr = Runtime_Stop ?nr" for nr
      by (rule flow_resumed [of s0 outs dn])
        (use that flow_cong [OF fl, of nr] flow_active [OF fl] taken in \<open>auto simp: taken_stream_def Runtime_Stop_def\<close>)
    have "node_flow s0 outs (st\<lparr>rt_nr := ?nr\<rparr>)" by (rule node_flow_cong [OF assms(1)]) simp_all
    with res st' show ?thesis by (auto simp: waitForResume_control_def split: ControlType.splits)
  qed
qed

lemma node_flow_step:
  assumes "node_flow s0 outs st" "rt_exec ev st = Some st'"
  shows "node_flow s0 outs st'"
proof (cases ev)
  case LoopHead
  with assms node_flow_head show ?thesis by (auto split: if_splits)
next
  case (EnvControl c)
  with assms(2) show ?thesis
    by (intro node_flow_cong [OF assms(1)]) (auto simp: env_control_def SendControl_def Let_def split: if_splits)
next
  case (MergerPuts i)
  with assms(2) show ?thesis
    by (intro node_flow_cong [OF assms(1)]) (auto simp: merger_puts_def split: if_splits option.splits merger.splits)
next
  case (MergerReceives i p)
  with assms(2) show ?thesis
    by (intro node_flow_cong [OF assms(1)]) (auto simp: merger_receives_def split: if_splits recv_outcome.splits)
next
  case (MergerDone i)
  with assms(2) show ?thesis
    by (intro node_flow_cong [OF assms(1)]) (auto simp: merger_done_def split: if_splits merger.splits)
next
  case MergedClose
  with assms(2) show ?thesis by (intro node_flow_cong [OF assms(1)]) (auto simp: close_merged_def split: if_splits)
next
  case (EnvInput i m)
  with assms(2) show ?thesis by (intro node_flow_cong [OF assms(1)]) (auto simp: env_input_def split: send_outcome.splits)
next
  case EnvCancel
  with assms(2) show ?thesis by (intro node_flow_cong [OF assms(1)]) (auto simp: Runtime_Stop_def)
next
  case WaitDone
  with assms(2) obtain im where "rt_point st = Waiting im" by (auto split: loop_point.splits)
  with assms node_flow_waiting WaitDone show ?thesis by blast
next
  case WaitControl
  with assms(2) obtain im where "rt_point st = Waiting im" by (auto split: loop_point.splits)
  with assms node_flow_waiting WaitControl show ?thesis by blast
next
  case LoopTimer
  with assms(2) have "rt_point st = AtSelect True" by (auto split: if_splits)
  with assms node_flow_select LoopTimer show ?thesis by blast
qed (use assms node_flow_select in \<open>(auto split: loop_point.splits; blast)+\<close>)

end

end
