(* ===== verification/Sending.thy ===== *)
theory Sending
  imports Run_Loop
begin

text \<open>
  Whatever a node handles, it only appends to what it has sent: operator code reaches the buffers
  through its collector, and the runtime broadcasts. Needed to speak of the order in which the
  messages of a node reach the buffers (\<open>Network\<close>).
\<close>

section \<open>Handlers only append to what a node sends\<close>

definition grows :: "'u World \<Rightarrow> 'u World \<Rightarrow> bool" where
  "grows w w' \<longleftrightarrow> prefix (w_sent w) (w_sent w')"

definition emitting :: "('s, 'u) NodeRuntime \<Rightarrow> bool" where
  "emitting nr \<longleftrightarrow> (\<forall>n. nr_node nr = OpNode n \<longrightarrow> data_emitter (on_operator n)) \<and>
     (\<forall>h. nr_onError nr = Some h \<longrightarrow> handler_data h)"

definition appends :: "'u World \<Rightarrow> ('s, 'u) rt_result \<Rightarrow> bool" where
  "appends w r \<longleftrightarrow> (\<forall>nr w' err. r = Some (nr, w', err) \<longrightarrow> emitting nr \<and> grows w w')"

lemma grows_refl [simp]: "grows w w"
  by (simp add: grows_def)

lemma grows_trans: "grows w w' \<Longrightarrow> grows w' w'' \<Longrightarrow> grows w w''"
  by (simp add: grows_def)

lemma grows_sent: "w_sent w' = w_sent w \<Longrightarrow> grows w w'"
  by (simp add: grows_def)

lemma grows_data: "sent_data w w' \<Longrightarrow> grows w w'"
  by (auto simp: sent_data_def grows_def)

lemma grows_broadcast: "broadcast Send outs m w = (w', r) \<Longrightarrow> grows w w'"
  using net.broadcast_delivered [of outs m w w' r] by (auto simp: grows_def)

lemma grows_ignoring: "grows w (send_ignoring m outs w)"
  unfolding send_ignoring_def
proof (induction outs arbitrary: w)
  case (Cons out outs)
  have "grows w (fst (Send out m w))"
    by (simp add: Send_def grows_def Let_def split: option.splits)
  with Cons.IH [of "fst (Send out m w)"] show ?case by (auto intro: grows_trans)
qed simp

lemma appends_after:
  assumes "appends w r" "\<And>nr w'. emitting nr \<Longrightarrow> grows w w' \<Longrightarrow> appends w' (k nr w')"
  shows "appends w (case r of None \<Rightarrow> None | Some (nr, w, Some err) \<Rightarrow> Some (nr, w, Some err) | Some (nr, w, None) \<Rightarrow> k nr w)"
proof (cases r)
  case (Some x)
  obtain nr w' err where x: "x = (nr, w', err)" by (cases x)
  with assms(1) Some have "emitting nr" "grows w w'" by (simp_all add: appends_def)
  with assms(2) [OF this] Some x show ?thesis
    by (cases err) (auto simp: appends_def intro: grows_trans)
qed (simp add: appends_def)

text \<open>A call of the operator of a node.\<close>

lemma appends_operator:
  assumes "emitting nr" "nr_node nr = OpNode n" "\<And>s w' err. r = Some (s, w', err) \<Longrightarrow> sent_data w w'"
  shows "appends w (with_node nr (as_OpNode (with_state n r)))"
proof (cases r)
  case None
  then show ?thesis by (simp add: appends_def with_node_def as_OpNode_def with_state_def)
next
  case (Some x)
  obtain s w' err where x: "x = (s, w', err)" by (cases x)
  with assms Some show ?thesis
    by (auto simp: appends_def emitting_def with_node_def as_OpNode_def with_state_def intro: grows_data)
qed

lemma appends_same: "emitting nr \<Longrightarrow> appends w (Some (nr, w, err))"
  by (simp add: appends_def)

lemma same_node: "with_node nr (Some (nr_node nr, w, err)) = Some (nr, w, err)"
  by (cases nr) (simp add: with_node_def)

lemma appends_opnode:
  assumes "emitting nr" and n: "nr_node nr = OpNode n"
  shows "appends w (with_node nr (Node_ProcessMessage d (nr_node nr) w))"
    and "appends w (with_node nr (Node_HandleWatermark wm (nr_node nr) w))"
    and "appends w (with_node nr (Node_HandleTimer name t (nr_node nr) w))"
    and "appends w (with_node nr (Node_HandleTick (nr_node nr) w))"
proof -
  have de: "data_emitter (on_operator n)" using assms by (simp add: emitting_def)
  have "OpNode n = nr_node nr" by (simp add: n)
  then have same: "with_node nr (Some (OpNode n, w, None)) = Some (nr, w, None)" using same_node [of nr w None] by simp
  show "appends w (with_node nr (Node_ProcessMessage d (nr_node nr) w))"
    using appends_operator [OF assms] data_emitter.process [OF de] by (simp add: n OperatorNode_ProcessMessage_def)
  show "appends w (with_node nr (Node_HandleWatermark wm (nr_node nr) w))"
    using appends_operator [OF assms] data_emitter.watermark [OF de] by (simp add: n OperatorNode_HandleWatermark_def)
  show "appends w (with_node nr (Node_HandleTimer name t (nr_node nr) w))"
    using appends_operator [OF assms] data_emitter.timer [OF de] same appends_same [OF assms(1)]
    by (cases "op_HandleTimer (on_operator n)") (simp_all add: n OperatorNode_HandleTimer_def as_OpNode_def [of "Some _"])
  show "appends w (with_node nr (Node_HandleTick (nr_node nr) w))"
    using appends_operator [OF assms] data_emitter.tick [OF de] same appends_same [OF assms(1)]
    by (cases "op_HandleTick (on_operator n)") (simp_all add: n OperatorNode_HandleTick_def as_OpNode_def [of "Some _"])
qed

lemma appends_node:
  assumes "emitting nr"
  shows "appends w (with_node nr (Node_ProcessMessage d (nr_node nr) w))"
    and "appends w (with_node nr (Node_HandleWatermark wm (nr_node nr) w))"
    and "appends w (with_node nr (Node_HandleTimer name t (nr_node nr) w))"
    and "appends w (with_node nr (Node_HandleTick (nr_node nr) w))"
  using appends_opnode [OF assms] same_node [of nr w None] appends_same [OF assms, of w None]
  by (cases "nr_node nr"; simp)+

lemma appends_barrier:
  assumes "emitting nr"
  shows "appends w (Some (handleAlignedBarrier barrier nr w))"
proof -
  have op: "emitting (nr\<lparr>nr_node := n\<rparr>)" if "Node_HandleCheckpoint barrier (nr_node nr) w = (n, r)" for n r
    using that assms
    by (cases "nr_node nr") (auto simp: emitting_def OperatorNode_HandleCheckpoint_def split: prod.splits sum.splits if_splits)
  show ?thesis
    using op grows_broadcast
    by (fastforce simp: appends_def handleAlignedBarrier_def report_completion_def Runtime_Stop_def emitting_def Let_def
        split: prod.splits sum.splits option.splits if_splits)
qed

lemma appends_watermark:
  assumes "emitting nr"
  shows "appends w (handleIndexedWatermark i wm nr w)"
proof -
  obtain adv wh where u: "Watermark_Update (int i) wm (nr_watermarks nr) = (adv, wh)" by fastforce
  have e: "emitting (nr\<lparr>nr_watermarks := wh\<rparr>)" using assms by (simp add: emitting_def)
  show ?thesis
  proof (cases adv)
    case None
    with u e show ?thesis by (simp add: handleIndexedWatermark_def appends_def)
  next
    case (Some advanced)
    have "appends w (case with_node (nr\<lparr>nr_watermarks := wh\<rparr>) (Node_HandleWatermark advanced (nr_node (nr\<lparr>nr_watermarks := wh\<rparr>)) w) of
        None \<Rightarrow> None | Some (nr, w, Some err) \<Rightarrow> Some (nr, w, Some err)
      | Some (nr, w, None) \<Rightarrow> (case broadcast Send (nr_outputs nr) (watermark_message advanced) w of (w, err) \<Rightarrow> Some (nr, w, err)))"
      by (rule appends_after [OF appends_node(2) [OF e]])
        (auto simp: appends_def split: prod.splits dest: grows_broadcast)
    with u Some show ?thesis by (simp add: handleIndexedWatermark_def)
  qed
qed

lemma appends_signal:
  assumes "emitting nr"
  shows "appends w (Some (handleSignal m sig nr w))"
proof (cases "sm_SignalType sig")
  case SignalTypeStop
  let ?nr = "nr\<lparr>nr_activeInputs := nr_activeInputs nr - 1\<rparr>"
  obtain nr1 w1 where dr: "drainIfDrainable ?nr w = (nr1, w1)" by fastforce
  have "emitting ?nr" using assms by (simp add: emitting_def)
  then have 1: "emitting nr1 \<and> grows w w1"
    using dr data_emitter.drain
    by (fastforce simp: drainIfDrainable_def emitting_def Let_def intro: grows_data split: Node.splits option.splits prod.splits if_splits)
  obtain w2 e where b: "broadcast Send (nr_outputs nr1) m w1 = (w2, e)" by fastforce
  have "emitting nr2 \<and> grows w w'" if "handleSignal m sig nr w = (nr2, w', err)" for nr2 w' err
    using that SignalTypeStop dr b 1 grows_broadcast [OF b] \<open>emitting ?nr\<close>
    by (auto simp: handleSignal_def Runtime_Stop_def emitting_def Let_def intro: grows_trans split: option.splits if_splits)
  then show ?thesis by (simp add: appends_def)
qed (use assms appends_barrier appends_same in \<open>auto simp: handleSignal_def split: option.splits\<close>)

lemma appends_message:
  assumes "emitting nr"
  shows "appends w (handleMessage m nr w)"
proof (cases "IsData m")
  case True
  show ?thesis
  proof (cases "m_Data m")
    case None
    with True show ?thesis by (simp add: handleMessage_def appends_def)
  next
    case (Some d)
    have "emitting nr' \<and> grows w w'" if hm: "handleMessage m nr w = Some (nr', w', err)" for nr' w' err
    proof -
      obtain nr1 w1 e1 where 1: "with_node nr (Node_ProcessMessage d (nr_node nr) w) = Some (nr1, w1, e1)"
        using hm True Some
        by (cases "with_node nr (Node_ProcessMessage d (nr_node nr) w)") (auto simp: handleMessage_def)
      with appends_node(1) [OF assms, of w d] have a: "emitting nr1" "grows w w1" by (simp_all add: appends_def)
      show ?thesis
      proof (cases "e1 = None \<or> nr_onError nr1 = None")
        case True
        with 1 hm \<open>IsData m\<close> Some have "nr' = nr1 \<and> w' = w1" by (cases e1) (simp_all add: handleMessage_def)
        with a show ?thesis by simp
      next
        case False
        then obtain e h where "e1 = Some e" "nr_onError nr1 = Some h" by auto
        with 1 hm \<open>IsData m\<close> Some
        have "map_option (\<lambda>(w, err). (nr1, w, err)) (h (Node_ID (nr_node nr1)) d e w1) = Some (nr', w', err)"
          by (simp add: handleMessage_def del: map_option_eq_Some)
        then obtain x where x: "h (Node_ID (nr_node nr1)) d e w1 = Some x" "(nr1, fst x, snd x) = (nr', w', err)"
          by (cases "h (Node_ID (nr_node nr1)) d e w1") (simp_all add: split_def)
        then have "h (Node_ID (nr_node nr1)) d e w1 = Some (w', snd x)" and "nr' = nr1" by (cases x; simp)+
        moreover have "handler_data h" using a(1) \<open>nr_onError nr1 = Some h\<close> by (simp add: emitting_def)
        ultimately have "grows w1 w'" unfolding handler_data_def by (metis grows_data)
        with a \<open>nr' = nr1\<close> show ?thesis using grows_trans by blast
      qed
    qed
    then show ?thesis by (simp add: appends_def)
  qed
next
  case False
  with appends_signal [OF assms] appends_same [OF assms] show ?thesis
    by (cases "if IsSignal m then m_Signal m else None") (simp_all add: handleMessage_def)
qed

lemma appends_released: "emitting nr \<Longrightarrow> appends w (process_released ms nr w)"
proof (induction ms arbitrary: nr w)
  case (Cons m ms)
  from appends_after [OF appends_message [OF Cons.prems] Cons.IH] show ?case by simp
qed (simp add: appends_same)

lemma appends_indexed:
  assumes "emitting nr"
  shows "appends w (handleIndexedMessage im nr w)"
proof (cases "watermark_of (im_Msg im)")
  case (Some wm)
  with appends_watermark [OF assms] show ?thesis by (simp add: handleIndexedMessage_def)
next
  case None
  obtain rel al ba where om: "OnMessage im (nr_aligner nr) = (rel, al, ba)" by (metis prod_cases3)
  have "emitting (nr\<lparr>nr_aligner := ba\<rparr>)" using assms by (simp add: emitting_def)
  note rel = appends_released [OF this, of w rel]
  have "handleIndexedMessage im nr w =
      (case process_released rel (nr\<lparr>nr_aligner := ba\<rparr>) w of
         None \<Rightarrow> None | Some (nr, w, Some err) \<Rightarrow> Some (nr, w, Some err)
       | Some (nr, w, None) \<Rightarrow> (case al of None \<Rightarrow> Some (nr, w, None) | Some b \<Rightarrow> Some (handleAlignedBarrier b nr w)))"
    by (simp add: handleIndexedMessage_def None om)
  moreover have "appends w \<dots>"
    by (rule appends_after [OF rel]) (cases al; simp add: appends_barrier appends_same)
  ultimately show ?thesis by simp
qed

lemma appends_timers: "emitting nr \<Longrightarrow> appends w (handle_timers ts nr w)"
proof (induction ts arbitrary: nr w)
  case (Cons t ts)
  from appends_after [OF appends_node(3) [OF Cons.prems] Cons.IH] show ?case by simp
qed (simp add: appends_same)

lemma appends_fire:
  assumes "emitting nr"
  shows "appends w (fireExpiredTimers tmr nr w)"
proof -
  obtain now w1 where now: "Now w = (now, w1)" by fastforce
  obtain expired tmr' where pop: "timer_PopExpired now tmr = (expired, tmr')" by fastforce
  have "w_sent (w1\<lparr>w_timers := Some tmr'\<rparr>) = w_sent w" using now by (auto simp: Now_def)
  with appends_timers [OF assms, of "w1\<lparr>w_timers := Some tmr'\<rparr>" expired] show ?thesis
    by (simp add: fireExpiredTimers_def now pop appends_def grows_def)
qed

lemma appends_control:
  assumes "emitting nr" "handleControl ctrl nr w = (nr', w')"
  shows "emitting nr' \<and> grows w w'"
proof (cases "cm_Type ctrl = ControlTypeCheckpointRequest \<and> cm_Checkpoint ctrl \<noteq> None")
  case False
  with assms show ?thesis
    by (auto simp: handleControl_def emitting_def split: ControlType.splits option.splits)
next
  case True
  then obtain req where req: "cm_Type ctrl = ControlTypeCheckpointRequest" "cm_Checkpoint ctrl = Some req" by auto
  obtain now w1 where now: "Now w = (now, w1)" by fastforce
  define barrier where "barrier = NewBarrierSignal now (cr_Epoch req) (cr_MinEpoch req) (cr_ThenStop req)"
  obtain n r where hc: "Node_HandleCheckpoint (the (sm_Barrier barrier)) (nr_node nr) w1 = (n, r)" by fastforce
  have "emitting (nr\<lparr>nr_node := n\<rparr>)"
    using hc assms(1)
    by (cases "nr_node nr") (auto simp: emitting_def OperatorNode_HandleCheckpoint_def split: prod.splits sum.splits if_splits)
  moreover have "w' = send_ignoring (NewSignalMessage barrier) (nr_outputs nr) w1" "nr_onError nr' = nr_onError nr" "nr_node nr' = n"
    using assms(2) hc by (auto simp: handleControl_def req now barrier_def [symmetric] report_completion_def Runtime_Stop_def Let_def)
  moreover have "grows w w1" using now by (auto simp: Now_def intro: grows_sent)
  ultimately show ?thesis using grows_ignoring by (auto simp: emitting_def intro: grows_trans)
qed

text \<open>The same of the steps of the goroutines; a step of a merger or of the environment sends nothing.\<close>

definition appended :: "('s, 'u) rt_state \<Rightarrow> ('s, 'u) rt_state \<Rightarrow> bool" where
  "appended st st' \<longleftrightarrow> emitting (rt_nr st') \<and> grows (rt_w st) (rt_w st')"

definition loop_event :: "'u rt_event \<Rightarrow> bool" where
  "loop_event ev \<longleftrightarrow> ev \<in> {LoopHead, LoopDone, LoopControl, LoopMerged, LoopTimer, LoopTick, WaitDone, WaitControl}"

lemma emitting_cong: "emitting nr \<Longrightarrow> nr_node nr' = nr_node nr \<Longrightarrow> nr_onError nr' = nr_onError nr \<Longrightarrow> emitting nr'"
  by (simp add: emitting_def)

lemma appended_nr:
  "emitting nr \<Longrightarrow> appended st (st\<lparr>rt_nr := nr, rt_w := rt_w st, rt_point := pt\<rparr>)"
  by (simp add: appended_def)

lemma appended_finish: "emitting (rt_nr st') \<Longrightarrow> grows (rt_w st) (rt_w st') \<Longrightarrow> appended st (finish st')"
  by (simp add: appended_def finish_def Let_def emitting_def)

lemma appended_loop_after:
  assumes "emitting (rt_nr st)" "appends w r" "grows (rt_w st0) w" "rt_w st = rt_w st0"
  shows "appended st0 (loop_after r st)"
proof (cases r)
  case None
  with assms show ?thesis by (simp add: loop_after_def appended_def)
next
  case (Some x)
  obtain nr w' err where x: "x = (nr, w', err)" by (cases x)
  with Some assms have "emitting nr" "grows (rt_w st0) w'" by (auto simp: appends_def intro: grows_trans)
  with Some x show ?thesis
    by (cases err) (simp_all add: loop_after_def appended_def finish_def Let_def emitting_def)
qed

lemma appended_process:
  assumes "emitting (rt_nr st)" "rt_w st = rt_w st0"
  shows "appended st0 (run_process im st)"
  unfolding run_process_def by (rule appended_loop_after [OF assms(1) appends_indexed [OF assms(1)]]) (simp_all add: assms(2))

lemma appended_resumed:
  assumes "emitting (rt_nr st)" "rt_w st = rt_w st0"
  shows "appended st0 (run_resumed im st)"
proof -
  have "appended st0 (run_cancelled st)"
    unfolding run_cancelled_def by (rule appended_finish) (use assms in \<open>simp_all add: emitting_def\<close>)
  with appended_process [OF assms] show ?thesis by (simp add: run_resumed_def)
qed

lemma appended_head:
  assumes "emitting (rt_nr st)"
  shows "appended st (run_head st)"
proof -
  have step: "appended st (st\<lparr>rt_w := w\<rparr>)" "appended st (st\<lparr>rt_w := w, rt_point := pt\<rparr>)" "appended st (st\<lparr>rt_point := pt\<rparr>)"
    "appended st (loop_after (fireExpiredTimers tmr (rt_nr st) w) st)" if "w_sent w = w_sent (rt_w st)" for w pt tmr
    using that assms appended_loop_after [OF assms appends_fire [OF assms] _ refl]
    by (simp_all add: appended_def grows_def)
  obtain now w where now: "Now (rt_w st) = (now, w)" by fastforce
  then have "w_sent w = w_sent (rt_w st)" by (auto simp: Now_def)
  note step = step [OF this] step(3) [OF refl]
  show ?thesis
    unfolding run_head_def now
    by (cases "getTimerManager (nr_node (rt_nr st)) (rt_w st)"; simp add: step)
      (simp add: step now Let_def split: option.split)
qed

lemma rt_exec_appends:
  assumes "emitting (rt_nr st)" "rt_exec ev st = Some st'"
  shows "appended st st'"
proof (cases ev)
  case LoopHead
  with assms appended_head show ?thesis by (auto split: if_splits)
next
  case LoopDone
  with assms(2) have "st' = run_cancelled st" by (auto split: loop_point.splits if_splits)
  with assms(1) show ?thesis unfolding run_cancelled_def by (auto intro!: appended_finish simp: emitting_def)
next
  case LoopControl
  then obtain ctrl ctrls where st': "st' = run_control ctrl (st\<lparr>rt_nr := (rt_nr st)\<lparr>nr_controlCh := ctrls\<rparr>\<rparr>)"
    using assms(2) by (auto simp: pop_control_def split: loop_point.splits list.splits)
  obtain nr w where hc: "handleControl ctrl ((rt_nr st)\<lparr>nr_controlCh := ctrls\<rparr>) (rt_w st) = (nr, w)" by fastforce
  have "emitting nr \<and> grows (rt_w st) w"
    by (rule appends_control [OF _ hc]) (rule emitting_cong [OF assms(1)]; simp)
  then show ?thesis
    unfolding st' by (simp add: run_control_def hc Let_def appended_def finish_def emitting_def)
next
  case LoopMerged
  then consider "st' = finish st"
    | im ims where "st' = run_merged im (st\<lparr>rt_nr := (rt_nr st)\<lparr>nr_merged := Some ims\<rparr>, rt_taken := rt_taken st @ [im]\<rparr>)"
    using assms(2) by (auto split: loop_point.splits option.splits list.splits if_splits)
  then show ?thesis
  proof cases
    case 1
    with assms(1) show ?thesis by (auto intro: appended_finish)
  next
    case 2
    let ?st = "st\<lparr>rt_nr := (rt_nr st)\<lparr>nr_merged := Some ims\<rparr>, rt_taken := rt_taken st @ [im]\<rparr>"
    have e: "emitting (rt_nr ?st)" by (rule emitting_cong [OF assms(1)]) simp_all
    with appended_process [OF e, of st im] show ?thesis unfolding 2 by (simp add: run_merged_def appended_def)
  qed
next
  case LoopTimer
  with assms(2) have "st' = run_timer st" by (auto split: if_splits)
  with assms(1) appended_loop_after [OF assms(1) appends_fire [OF assms(1)] grows_refl refl] show ?thesis
    by (cases "getTimerManager (nr_node (rt_nr st)) (rt_w st)") (simp_all add: run_timer_def appended_def)
next
  case LoopTick
  with assms(2) have "st' = run_tick st" by (auto split: loop_point.splits if_splits)
  with assms(1) appended_loop_after [OF assms(1) appends_node(4) [OF assms(1)] grows_refl refl] show ?thesis
    by (simp add: run_tick_def appended_def)
next
  case WaitDone
  with assms(2) obtain im where "st' = run_resumed im st" by (auto split: loop_point.splits if_splits)
  with appended_resumed [OF assms(1) refl] show ?thesis by simp
next
  case WaitControl
  then obtain ctrl im ctrls where st': "st' = waitForResume_control ctrl im (st\<lparr>rt_nr := (rt_nr st)\<lparr>nr_controlCh := ctrls\<rparr>\<rparr>)"
    using assms(2) by (auto simp: pop_control_def split: loop_point.splits list.splits)
  let ?nr = "(rt_nr st)\<lparr>nr_controlCh := ctrls\<rparr>"
  have e: "emitting ?nr" "emitting (?nr\<lparr>nr_paused := False\<rparr>)" "emitting (Runtime_Stop ?nr)"
    using assms(1) by (simp_all add: emitting_def Runtime_Stop_def)
  have r: "appended st (run_resumed im (st\<lparr>rt_nr := nr\<rparr>))" if "emitting nr" for nr
    by (rule appended_resumed) (simp_all add: that)
  show ?thesis
    unfolding st' waitForResume_control_def using r e by (cases "cm_Type ctrl") (simp_all add: appended_def)
qed (use assms in \<open>auto simp: appended_def emitting_def merger_receives_def merger_puts_def merger_done_def close_merged_def
      env_input_def env_control_def SendControl_def Runtime_Stop_def Let_def
    split: if_splits recv_outcome.splits send_outcome.splits merger.splits option.splits\<close>)

end
