(* ===== verification/Pipeline.thy ===== *)
theory Pipeline
  imports Builder
begin

text \<open>
  The life cycle of a pipeline, \<open>internal/engine/pipeline.go\<close>: the API calls, the goroutine of a
  source and the steps of the monitor. Calls of the API are atomic here; \<open>env k\<close> is the environment's
  answer to the \<open>k\<close>-th send of a call, the context and the choice of \<open>SendControl\<close>. The state of the
  pipeline (\<open>Pipeline\<close>, \<open>PipelineState\<close>) is declared in \<open>Builder\<close>, which makes it.
\<close>

section \<open>Names of states\<close>

primrec PipelineState_String :: "PipelineState \<Rightarrow> string" where
  "PipelineState_String PipelineInitializing = ''Initializing''"
| "PipelineState_String PipelineRunning = ''Running''"
| "PipelineState_String PipelinePaused = ''Paused''"
| "PipelineState_String PipelineStopping = ''Stopping''"
| "PipelineState_String PipelineStopped = ''Stopped''"
| "PipelineState_String PipelineTerminated = ''Terminated''"
| "PipelineState_String PipelineError = ''Error''"

definition Pipeline_State :: "('s, 'u) Pipeline \<Rightarrow> PipelineState" where
  "Pipeline_State p = p_state p"

definition Pipeline_Name :: "('s, 'u) Pipeline \<Rightarrow> string" where
  "Pipeline_Name p = p_name p"

definition ErrorCounts :: "('s, 'u) Pipeline \<Rightarrow> (string, u64) gomap" where
  "ErrorCounts p = counts_snapshot (p_errCounts p)"

definition storeState :: "PipelineState \<Rightarrow> ('s, 'u) Pipeline \<Rightarrow> ('s, 'u) Pipeline" where
  "storeState s p = p\<lparr>p_state := s\<rparr>"

definition compareAndSwapState :: "PipelineState \<Rightarrow> PipelineState \<Rightarrow> ('s, 'u) Pipeline \<Rightarrow> bool \<times> ('s, 'u) Pipeline" where
  "compareAndSwapState old new p = (if p_state p = old then (True, p\<lparr>p_state := new\<rparr>) else (False, p))"

section \<open>Sending control messages\<close>

text \<open>A call returns nil or an error, or still waits in a send on a full channel.\<close>

datatype call_end = Returns "error option" | Waits

type_synonym env = "nat \<Rightarrow> bool \<times> error option"

primrec send_all ::
  "env \<Rightarrow> ControlMessage \<Rightarrow> nat \<Rightarrow> ('s, 'u) NodeRuntime list \<Rightarrow> ('s, 'u) NodeRuntime list \<times> call_end" where
  "send_all env ctrl k [] = ([], Returns None)"
| "send_all env ctrl k (rt # rts) =
     (case SendControl (fst (env k)) (snd (env k)) ctrl rt of
        ControlErr err \<Rightarrow> (rt # rts, Returns (Some err))
      | ControlBlocks \<Rightarrow> (rt # rts, Waits)
      | ControlSent rt' \<Rightarrow> (case send_all env ctrl (Suc k) rts of (rts', r) \<Rightarrow> (rt' # rts', r)))"

text \<open>The loop of \<open>Terminate\<close> ignores errors.\<close>

primrec send_each ::
  "env \<Rightarrow> ControlMessage \<Rightarrow> nat \<Rightarrow> ('s, 'u) NodeRuntime list \<Rightarrow> ('s, 'u) NodeRuntime list \<times> call_end" where
  "send_each env ctrl k [] = ([], Returns None)"
| "send_each env ctrl k (rt # rts) =
     (case SendControl (fst (env k)) (snd (env k)) ctrl rt of
        ControlErr err \<Rightarrow> (case send_each env ctrl (Suc k) rts of (rts', r) \<Rightarrow> (rt # rts', r))
      | ControlBlocks \<Rightarrow> (rt # rts, Waits)
      | ControlSent rt' \<Rightarrow> (case send_each env ctrl (Suc k) rts of (rts', r) \<Rightarrow> (rt' # rts', r)))"

text \<open>\<open>sourceRuntimes\<close> are pointers into \<open>runtimes\<close>.\<close>

definition write_back :: "nat list \<Rightarrow> 'a list \<Rightarrow> 'a list \<Rightarrow> 'a list" where
  "write_back idxs new xs = fold (\<lambda>(i, x) xs. xs[i := x]) (zip idxs new) xs"

section \<open>The API\<close>

text \<open>Cancelling the pipeline's context cancels the contexts of all runtimes.\<close>

definition Pipeline_cancel :: "('s, 'u) Pipeline \<Rightarrow> ('s, 'u) Pipeline" where
  "Pipeline_cancel p =
     (case p_cancel p of
        None \<Rightarrow> p
      | Some _ \<Rightarrow> p\<lparr>p_cancel := Some True, p_runtimes := map Runtime_Stop (p_runtimes p),
                   p_dlRuntime := map_option Runtime_Stop (p_dlRuntime p)\<rparr>)"

definition Pipeline_Start :: "bool \<Rightarrow> ('s, 'u) Pipeline \<Rightarrow> ('s, 'u) Pipeline" where
  "Pipeline_Start ctx_cancelled p =
     (case compareAndSwapState PipelineInitializing PipelineRunning p of
        (False, p) \<Rightarrow> p
      | (True, p) \<Rightarrow>
          p\<lparr>p_cancel := Some ctx_cancelled, p_done := Some False,
            p_runtimes := map (Runtime_Start ctx_cancelled) (p_runtimes p),
            p_dlRuntime := map_option (Runtime_Start ctx_cancelled) (p_dlRuntime p)\<rparr>)"

definition Pipeline_Stop :: "env \<Rightarrow> time \<Rightarrow> ('s, 'u) Pipeline \<Rightarrow> ('s, 'u) Pipeline \<times> call_end" where
  "Pipeline_Stop env now p =
     (let state = Pipeline_State p
      in if state \<noteq> PipelineRunning \<and> state \<noteq> PipelinePaused
         then (p, Returns (Some (CannotStop (PipelineState_String state))))
         else
           let p = snd (compareAndSwapState state PipelineStopping p);
               p = p\<lparr>p_stopEpoch := p_stopEpoch p + 1\<rparr>;
               epoch = p_stopEpoch p;
               p = p\<lparr>p_controller := track_checkpoint now epoch True (p_controller p)\<rparr>
           in case send_all env (NewCheckpointRequestControl epoch 0 True) 0
                     (map ((!) (p_runtimes p)) (p_sourceRuntimes p)) of
                (srcs, r) \<Rightarrow> (p\<lparr>p_runtimes := write_back (p_sourceRuntimes p) srcs (p_runtimes p)\<rparr>, r))"

definition Pipeline_Pause :: "env \<Rightarrow> ('s, 'u) Pipeline \<Rightarrow> ('s, 'u) Pipeline \<times> call_end" where
  "Pipeline_Pause env p =
     (case compareAndSwapState PipelineRunning PipelinePaused p of
        (False, p) \<Rightarrow> (p, Returns (Some (CannotPause (PipelineState_String (Pipeline_State p)))))
      | (True, p) \<Rightarrow>
          (case send_all env NewPauseControl 0 (p_runtimes p) of (rts, r) \<Rightarrow> (p\<lparr>p_runtimes := rts\<rparr>, r)))"

definition Pipeline_Resume :: "env \<Rightarrow> ('s, 'u) Pipeline \<Rightarrow> ('s, 'u) Pipeline \<times> call_end" where
  "Pipeline_Resume env p =
     (case compareAndSwapState PipelinePaused PipelineRunning p of
        (False, p) \<Rightarrow> (p, Returns (Some (CannotResume (PipelineState_String (Pipeline_State p)))))
      | (True, p) \<Rightarrow>
          (case send_all env NewResumeControl 0 (p_runtimes p) of (rts, r) \<Rightarrow> (p\<lparr>p_runtimes := rts\<rparr>, r)))"

definition Pipeline_Terminate :: "env \<Rightarrow> ('s, 'u) Pipeline \<Rightarrow> ('s, 'u) Pipeline \<times> call_end" where
  "Pipeline_Terminate env p =
     (let state = Pipeline_State p
      in if state \<noteq> PipelineRunning \<and> state \<noteq> PipelinePaused
         then (p, Returns (Some (CannotTerminate (PipelineState_String state))))
         else
           let p = storeState PipelineTerminated p
           in case send_each env NewTerminateControl 0 (p_runtimes p) of
                (rts, Waits) \<Rightarrow> (p\<lparr>p_runtimes := rts\<rparr>, Waits)
              | (rts, Returns _) \<Rightarrow>
                  let p = p\<lparr>p_runtimes := rts\<rparr>
                  in case send_each env NewTerminateControl (length rts)
                            (case p_dlRuntime p of None \<Rightarrow> [] | Some dl \<Rightarrow> [dl]) of
                       (dls, Waits) \<Rightarrow> (p, Waits)
                     | (dls, Returns _) \<Rightarrow>
                         (Pipeline_cancel (p\<lparr>p_dlRuntime := (case dls of [] \<Rightarrow> None | dl # _ \<Rightarrow> Some dl)\<rparr>), Returns None))"

text \<open>\<open>Wait\<close> returns at once before \<open>Start\<close>, and otherwise when \<open>done\<close> is closed.\<close>

definition Pipeline_Wait :: "('s, 'u) Pipeline \<Rightarrow> call_end" where
  "Pipeline_Wait p =
     (case p_done p of None \<Rightarrow> Returns None | Some closed \<Rightarrow> if closed then Returns None else Waits)"

section \<open>Goroutines of \<open>Start\<close>\<close>

text \<open>
  The goroutine of a source: run it, send a stop signal to each of its outputs with the background
  context, which never fails, and stop its runtime. \<open>None\<close> is a panic of the source.
\<close>

definition source_goroutine ::
  "nat list \<Rightarrow> 'u SourceNode \<Rightarrow> ('s, 'u) NodeRuntime \<Rightarrow> 'u World \<Rightarrow> (('s, 'u) NodeRuntime \<times> 'u World) option" where
  "source_goroutine outputs s rt w =
     map_option (\<lambda>(w, _).
       (Runtime_Stop rt, w\<lparr>w_sent := w_sent w @ map (\<lambda>buf. (buf, NewSignalMessage NewStopSignal)) outputs\<rparr>))
       (RunSource s w)"

text \<open>The monitor: one error of a runtime; the shutdown of the dead-letter runtime; the final state.\<close>

definition monitor_error :: "error option \<Rightarrow> ('s, 'u) Pipeline \<Rightarrow> ('s, 'u) Pipeline" where
  "monitor_error e p =
     (if e \<noteq> None \<and> e \<noteq> Some Canceled then Pipeline_cancel (storeState PipelineError p) else p)"

definition monitor_dead_letter :: "bool \<Rightarrow> ('s, 'u) Pipeline \<Rightarrow> 'u World \<Rightarrow> ('s, 'u) Pipeline \<times> 'u World" where
  "monitor_dead_letter timed_out p w =
     (case (p_dlRuntime p, p_dlBuffer p) of
        (Some dl, Some buf) \<Rightarrow>
          (if timed_out then p\<lparr>p_dlRuntime := Some (Runtime_Stop dl)\<rparr> else p,
           w\<lparr>w_sent := w_sent w @ [(buf, NewSignalMessage NewStopSignal)]\<rparr>)
      | _ \<Rightarrow> (p, w))"

definition monitor_finish :: "('s, 'u) Pipeline \<Rightarrow> ('s, 'u) Pipeline" where
  "monitor_finish p =
     (let state = Pipeline_State p;
          p = (if state \<noteq> PipelineError \<and> state \<noteq> PipelineTerminated then storeState PipelineStopped p else p)
      in p\<lparr>p_done := Some True\<rparr>)"

section \<open>Histories\<close>

datatype api_call = CallStart bool | CallStop env time | CallPause env | CallResume env | CallTerminate env

primrec api_step :: "api_call \<Rightarrow> ('s, 'u) Pipeline \<Rightarrow> ('s, 'u) Pipeline \<times> call_end" where
  "api_step (CallStart c) p = (Pipeline_Start c p, Returns None)"
| "api_step (CallStop env now) p = Pipeline_Stop env now p"
| "api_step (CallPause env) p = Pipeline_Pause env p"
| "api_step (CallResume env) p = Pipeline_Resume env p"
| "api_step (CallTerminate env) p = Pipeline_Terminate env p"

text \<open>A step is a call or one of the monitor, which runs once the pipeline has been started and finishes once.\<close>

inductive pipe_step :: "('s, 'u) Pipeline \<Rightarrow> ('s, 'u) Pipeline \<Rightarrow> bool" where
  call: "pipe_step p (fst (api_step c p))"
| node_error: "p_done p \<noteq> None \<Longrightarrow> pipe_step p (monitor_error e p)"
| finish: "p_done p = Some False \<Longrightarrow> pipe_step p (monitor_finish p)"

inductive pipe_run :: "('s, 'u) Pipeline \<Rightarrow> ('s, 'u) Pipeline \<Rightarrow> bool" where
  here: "pipe_run p p"
| more: "pipe_run p q \<Longrightarrow> pipe_step q r \<Longrightarrow> pipe_run p r"

section \<open>Lemmas\<close>

definition push_control :: "ControlMessage \<Rightarrow> ('s, 'u) NodeRuntime \<Rightarrow> ('s, 'u) NodeRuntime" where
  "push_control c rt = rt\<lparr>nr_controlCh := nr_controlCh rt @ [c]\<rparr>"

lemma SendControl_sent: "SendControl pick ctx c rt = ControlSent rt' \<Longrightarrow> rt' = push_control c rt"
  by (auto simp: SendControl_def push_control_def Let_def split: option.splits if_splits)

lemma send_all_sent: "send_all env c k rts = (rts', Returns None) \<Longrightarrow> rts' = map (push_control c) rts"
proof (induction rts arbitrary: k rts')
  case (Cons rt rts)
  then show ?case
    using SendControl_sent [of "fst (env k)" "snd (env k)" c rt]
    by (auto split: control_outcome.splits prod.splits)
qed simp

lemma write_back_other: "i \<notin> set idxs \<Longrightarrow> write_back idxs new xs ! i = xs ! i"
  unfolding write_back_def
proof (induction idxs arbitrary: new xs)
  case (Cons j idxs)
  then show ?case by (cases new) auto
qed simp

lemma length_write_back [simp]: "length (write_back idxs new xs) = length xs"
  unfolding write_back_def
proof (induction idxs arbitrary: new xs)
  case (Cons j idxs)
  then show ?case by (cases new) auto
qed simp

lemma Pipeline_cancel_frame [simp]:
  "p_state (Pipeline_cancel p) = p_state p" "p_done (Pipeline_cancel p) = p_done p"
  by (simp_all add: Pipeline_cancel_def split: option.splits)

text \<open>In any other state than running or paused the calls that stop, pause, resume or terminate do nothing.\<close>

definition live_state :: "PipelineState \<Rightarrow> bool" where
  "live_state s \<longleftrightarrow> s \<in> {PipelineInitializing, PipelineRunning, PipelinePaused}"

lemma api_step_dead: "\<not> live_state (p_state p) \<Longrightarrow> fst (api_step c p) = p"
  by (cases c)
    (auto simp: live_state_def Pipeline_Start_def Pipeline_Stop_def Pipeline_Pause_def Pipeline_Resume_def Pipeline_Terminate_def
      compareAndSwapState_def Pipeline_State_def)

text \<open>The states that can follow each state.\<close>

primrec moves :: "PipelineState \<Rightarrow> PipelineState set" where
  "moves PipelineInitializing = {PipelineInitializing, PipelineRunning}"
| "moves PipelineRunning = {PipelineRunning, PipelinePaused, PipelineStopping, PipelineStopped, PipelineTerminated, PipelineError}"
| "moves PipelinePaused = {PipelinePaused, PipelineRunning, PipelineStopping, PipelineStopped, PipelineTerminated, PipelineError}"
| "moves PipelineStopping = {PipelineStopping, PipelineStopped, PipelineError}"
| "moves PipelineStopped = {PipelineStopped, PipelineError}"
| "moves PipelineTerminated = {PipelineTerminated, PipelineError}"
| "moves PipelineError = {PipelineError}"

definition terminal :: "PipelineState \<Rightarrow> bool" where
  "terminal s \<longleftrightarrow> s \<in> {PipelineStopped, PipelineTerminated, PipelineError}"

definition pipe_ok :: "('s, 'u) Pipeline \<Rightarrow> bool" where
  "pipe_ok p \<longleftrightarrow> (p_done p = None \<longleftrightarrow> p_state p = PipelineInitializing) \<and> (p_done p = Some True \<longrightarrow> terminal (p_state p))"

text \<open>What each call makes of the state and of \<open>done\<close>.\<close>

lemma Stop_state:
  "p_state (fst (Pipeline_Stop env now p)) = (if p_state p \<in> {PipelineRunning, PipelinePaused} then PipelineStopping else p_state p)"
  "p_done (fst (Pipeline_Stop env now p)) = p_done p"
  by (auto simp: Pipeline_Stop_def Pipeline_State_def compareAndSwapState_def Let_def split: prod.splits)

lemma Pause_state:
  "p_state (fst (Pipeline_Pause env p)) = (if p_state p = PipelineRunning then PipelinePaused else p_state p)"
  "p_done (fst (Pipeline_Pause env p)) = p_done p"
  by (auto simp: Pipeline_Pause_def compareAndSwapState_def split: prod.splits)

lemma Resume_state:
  "p_state (fst (Pipeline_Resume env p)) = (if p_state p = PipelinePaused then PipelineRunning else p_state p)"
  "p_done (fst (Pipeline_Resume env p)) = p_done p"
  by (auto simp: Pipeline_Resume_def compareAndSwapState_def split: prod.splits)

lemma Terminate_state:
  "p_state (fst (Pipeline_Terminate env p)) =
     (if p_state p \<in> {PipelineRunning, PipelinePaused} then PipelineTerminated else p_state p)"
  "p_done (fst (Pipeline_Terminate env p)) = p_done p"
  by (auto simp: Pipeline_Terminate_def Pipeline_State_def storeState_def Let_def split: prod.splits call_end.splits)

lemma Start_state:
  "p_state (Pipeline_Start c p) = (if p_state p = PipelineInitializing then PipelineRunning else p_state p)"
  "p_done (Pipeline_Start c p) = (if p_state p = PipelineInitializing then Some False else p_done p)"
  by (auto simp: Pipeline_Start_def compareAndSwapState_def)

lemmas call_states = Start_state Stop_state Pause_state Resume_state Terminate_state

lemma pipe_step_ok:
  assumes "pipe_step p q" "pipe_ok p"
  shows "pipe_ok q \<and> p_state q \<in> moves (p_state p)"
  using assms
proof (induction rule: pipe_step.induct)
  case (call p c)
  then show ?case
    by (cases c; cases "p_state p") (auto simp: call_states pipe_ok_def terminal_def)
next
  case (node_error p e)
  then show ?case
    by (cases "p_state p") (auto simp: monitor_error_def storeState_def pipe_ok_def terminal_def)
next
  case (finish p)
  then show ?case
    by (cases "p_state p") (auto simp: monitor_finish_def Pipeline_State_def storeState_def pipe_ok_def terminal_def Let_def)
qed

lemma pipe_run_ok: "pipe_run p q \<Longrightarrow> pipe_ok p \<Longrightarrow> pipe_ok q"
  by (induction rule: pipe_run.induct) (auto dest: pipe_step_ok)

section \<open>Properties\<close>



text \<open>
  Pausing and resuming. A pause and a resume that succeed send each node exactly a pause and a
  resume, in this order, and bring the pipeline back to running with nothing else changed.
\<close>

theorem pause_resume_roundtrip:
  assumes "p_state p = PipelineRunning" "Pipeline_Pause env p = (p1, Returns None)" "Pipeline_Resume env' p1 = (p2, Returns None)"
  shows "p2 = p\<lparr>p_runtimes := map (push_control NewResumeControl \<circ> push_control NewPauseControl) (p_runtimes p)\<rparr>"
proof -
  obtain rts where rts: "send_all env NewPauseControl 0 (p_runtimes p) = (rts, Returns None)"
    and p1: "p1 = p\<lparr>p_state := PipelinePaused, p_runtimes := rts\<rparr>"
    using assms(1,2) by (auto simp: Pipeline_Pause_def compareAndSwapState_def split: prod.splits)
  obtain rts' where rts': "send_all env' NewResumeControl 0 rts = (rts', Returns None)"
    and p2: "p2 = p\<lparr>p_state := PipelineRunning, p_runtimes := rts'\<rparr>"
    using assms(3) p1 by (auto simp: Pipeline_Resume_def compareAndSwapState_def split: prod.splits)
  have "p\<lparr>p_state := PipelineRunning\<rparr> = p" using assms(1) by (cases p) simp
  with p2 send_all_sent [OF rts] send_all_sent [OF rts'] show ?thesis
    by (metis Pipeline.update_convs(2) map_map)
qed

text \<open>
  C37. Stopping a paused pipeline. If a running pipeline is paused and then stopped, every node that
  is not a source has received a pause and nothing else, and no later call of the API changes
  anything: the calls that would resume or terminate the nodes are refused.
\<close>

theorem stop_while_paused_stuck:
  assumes "p_state p = PipelineRunning" "Pipeline_Pause env p = (p1, Returns None)" "Pipeline_Stop env' now p1 = (p2, Returns None)"
    and "i < length (p_runtimes p)" "i \<notin> set (p_sourceRuntimes p)"
  shows "p_runtimes p2 ! i = push_control NewPauseControl (p_runtimes p ! i) \<and> p_state p2 = PipelineStopping \<and>
    fold (\<lambda>c p. fst (api_step c p)) calls p2 = p2"
proof -
  obtain rts where rts: "send_all env NewPauseControl 0 (p_runtimes p) = (rts, Returns None)"
    and p1: "p1 = p\<lparr>p_state := PipelinePaused, p_runtimes := rts\<rparr>"
    using assms(1,2) by (auto simp: Pipeline_Pause_def compareAndSwapState_def split: prod.splits)
  have st: "p_state p2 = PipelineStopping"
    using Stop_state(1) [of env' now p1] assms(3) p1 by simp
  have "p_runtimes p2 ! i = rts ! i"
    using assms(3,5) p1
    by (auto simp: Pipeline_Stop_def Pipeline_State_def compareAndSwapState_def write_back_other Let_def split: prod.splits)
  moreover have "fold (\<lambda>c p. fst (api_step c p)) calls p2 = p2"
    using api_step_dead [of p2] st by (induction calls) (simp_all add: live_state_def)
  ultimately show ?thesis using st send_all_sent [OF rts] assms(4) by simp
qed

text \<open>A running pipeline of one node with two inputs, whose control channel is empty.\<close>

definition tiny_pipeline :: "(nat, unit) Pipeline" where
  "tiny_pipeline = \<lparr>p_name = ''t'', p_runtimes = [counting_runtime], p_sourceRuntimes = [], p_sourceNodes = [],
     p_sourceOutputs = [],
     p_controller = NewController \<lparr>cfg_NodeIDs = [''c''], cfg_SourceIDs = [], cfg_SinkIDs = [], cfg_OnCheckpointComplete = False,
       cfg_OnQuiescence = False, cfg_CompletionBufferSize = 0\<rparr>,
     p_buffers = [], p_state = PipelineRunning, p_stopEpoch = 0, p_errCounts = [], p_dlBuffer = None, p_dlRuntime = None,
     p_cancel = Some False, p_done = Some False\<rparr>"

lemma counting_control: "nr_controlCh counting_runtime = []" "nr_controlCap counting_runtime = 16"
  by (simp_all add: counting_runtime_def NewNodeRuntime_def)

lemma tiny_pause:
  "Pipeline_Pause (\<lambda>_. (True, None)) tiny_pipeline =
     (tiny_pipeline\<lparr>p_state := PipelinePaused, p_runtimes := [push_control NewPauseControl counting_runtime]\<rparr>, Returns None)"
  by (simp add: Pipeline_Pause_def compareAndSwapState_def tiny_pipeline_def SendControl_def push_control_def counting_control)

theorem pause_resume_roundtrip_witness:
  "\<exists>p. Pipeline_Resume (\<lambda>_. (True, None)) (fst (Pipeline_Pause (\<lambda>_. (True, None)) tiny_pipeline)) = (p, Returns None) \<and>
     map nr_controlCh (p_runtimes p) = [[NewPauseControl, NewResumeControl]]"
proof -
  obtain p where res: "Pipeline_Resume (\<lambda>_. (True, None)) (fst (Pipeline_Pause (\<lambda>_. (True, None)) tiny_pipeline)) = (p, Returns None)"
    by (simp add: tiny_pause Pipeline_Resume_def compareAndSwapState_def SendControl_def push_control_def counting_control)
  have "p = tiny_pipeline\<lparr>p_runtimes := map (push_control NewResumeControl \<circ> push_control NewPauseControl) (p_runtimes tiny_pipeline)\<rparr>"
    using pause_resume_roundtrip [OF _ tiny_pause] res [unfolded tiny_pause] by (simp add: tiny_pipeline_def)
  with res show ?thesis by (simp add: tiny_pipeline_def push_control_def counting_control)
qed

theorem stop_while_paused_stuck_witness:
  "\<exists>p. Pipeline_Stop (\<lambda>_. (True, None)) 0 (fst (Pipeline_Pause (\<lambda>_. (True, None)) tiny_pipeline)) = (p, Returns None) \<and>
     fst (Pipeline_Resume (\<lambda>_. (True, None)) p) = p \<and> nr_controlCh (p_runtimes p ! 0) = [NewPauseControl]"
proof -
  obtain p where stop: "Pipeline_Stop (\<lambda>_. (True, None)) 0 (fst (Pipeline_Pause (\<lambda>_. (True, None)) tiny_pipeline)) = (p, Returns None)"
    unfolding tiny_pause
    by (simp add: Pipeline_Stop_def Pipeline_State_def compareAndSwapState_def tiny_pipeline_def write_back_def Let_def)
  have "p_runtimes p ! 0 = push_control NewPauseControl (p_runtimes tiny_pipeline ! 0) \<and> p_state p = PipelineStopping \<and>
      fold (\<lambda>c p. fst (api_step c p)) [CallResume (\<lambda>_. (True, None))] p = p"
    by (rule stop_while_paused_stuck [OF _ tiny_pause stop [unfolded tiny_pause fst_conv]]) (simp_all add: tiny_pipeline_def)
  with stop show ?thesis by (simp add: tiny_pipeline_def push_control_def counting_control)
qed

end
