(* ===== verification/Network.thy ===== *)
theory Network
  imports Flow Sending Pipeline
begin

text \<open>
  The running pipeline: the runtimes of \<open>Pipeline\<close> with their goroutines, connected by the buffers
  that \<open>Build\<close> made, and the goroutines of the sources. A send of a handler is put into the log of its
  node; a step of its own then moves it into the buffer, in the order of the log and as soon as there
  is room, and until all are moved the main loop of the node, which waits in \<open>Send\<close>, makes no step.
  Every interleaving of these steps, control messages and cancellations is a run.
\<close>

section \<open>State and steps\<close>

text \<open>
  \<open>nt_consumer\<close> finds the node and the input that read a buffer; \<open>nt_moved\<close> counts the messages of a
  node's log that are in the buffers; \<open>nt_source\<close> is what the goroutine of a source still has to send,
  and \<open>nt_running\<close> are the sources whose goroutine has not ended; it ends with stopping the source's runtime.
  \<open>nt_log\<close> is a history variable: everything put into buffers, in order, by whom and into which.
\<close>

datatype origin = FromLoop nat | FromSource nat

record ('s, 'u) net =
  nt_nodes :: "('s, 'u) rt_state list"
  nt_consumer :: "nat \<Rightarrow> (nat \<times> nat) option"
  nt_moved :: "nat \<Rightarrow> nat"
  nt_source :: "nat \<Rightarrow> (nat \<times> 'u Message) list"
  nt_running :: "nat list"
  nt_log :: "(origin \<times> nat \<times> 'u Message) list"

definition input_places :: "nat list list \<Rightarrow> (nat \<times> nat) list" where
  "input_places inputs = concat (map (\<lambda>i. map (Pair i) [0..<length (inputs ! i)]) [0..<length inputs])"

definition find_consumer :: "nat list list \<Rightarrow> nat \<Rightarrow> (nat \<times> nat) option" where
  "find_consumer inputs b = find (\<lambda>(i, k). inputs ! i ! k = b) (input_places inputs)"

text \<open>
  What the goroutine of a source will send, its items and then the stop signal, in a world of its own.
  A source that panics ends the process; it is left out.
\<close>

definition source_log :: "nat list \<Rightarrow> 'u SourceNode \<Rightarrow> ('s, 'u) NodeRuntime \<Rightarrow> 'u World \<Rightarrow> (nat \<times> 'u Message) list" where
  "source_log outputs s rt w = (case source_goroutine outputs s rt w of None \<Rightarrow> [] | Some (_, w') \<Rightarrow> w_sent w')"

definition all_runtimes :: "('s, 'u) Pipeline \<Rightarrow> ('s, 'u) NodeRuntime list" where
  "all_runtimes p = p_runtimes p @ (case p_dlRuntime p of None \<Rightarrow> [] | Some dl \<Rightarrow> [dl])"

definition source_program :: "('s, 'u) Pipeline \<Rightarrow> (nat \<Rightarrow> 'u World) \<Rightarrow> nat \<Rightarrow> (nat \<times> 'u Message) list" where
  "source_program p sw i =
     (case map_of (zip (p_sourceRuntimes p) (p_sourceNodes p)) i of
        None \<Rightarrow> []
      | Some s \<Rightarrow> source_log (slice_at (p_sourceOutputs p) (sn_id s)) s (all_runtimes p ! i) (sw i))"

definition net_start :: "bool \<Rightarrow> ('s, 'u) Pipeline \<Rightarrow> (nat \<Rightarrow> 'u World) \<Rightarrow> (nat \<Rightarrow> 'u World) \<Rightarrow> ('s, 'u) net" where
  "net_start pc p ws sw =
     (let rts = all_runtimes p
      in \<lparr>nt_nodes = map (\<lambda>i. start_state pc (rts ! i) (ws i) (\<lambda>k. p_buffers p ! (nr_inputs (rts ! i) ! k))) [0..<length rts],
          nt_consumer = find_consumer (map nr_inputs rts), nt_moved = (\<lambda>_. 0), nt_source = source_program p sw,
          nt_running = p_sourceRuntimes p, nt_log = []\<rparr>)"

datatype 'u net_event = NodeStep nat "'u rt_event" | MoveSent nat | SourceSends nat | SourceStops nat

text \<open>Putting a message into a buffer: \<open>None\<close> while the buffer is full.\<close>

definition put_into :: "origin \<Rightarrow> nat \<times> 'u Message \<Rightarrow> ('s, 'u) net \<Rightarrow> ('s, 'u) net option" where
  "put_into who x nt =
     (case nt_consumer nt (fst x) of
        None \<Rightarrow> None
      | Some (i, k) \<Rightarrow>
          map_option (\<lambda>st. nt\<lparr>nt_nodes := (nt_nodes nt)[i := st], nt_log := nt_log nt @ [(who, x)]\<rparr>)
            (env_input k (snd x) (nt_nodes nt ! i)))"

definition env_put :: "'u rt_event \<Rightarrow> bool" where
  "env_put ev = (case ev of EnvInput _ _ \<Rightarrow> True | _ \<Rightarrow> False)"

lemma env_put_iff: "env_put ev \<longleftrightarrow> (\<exists>k m. ev = EnvInput k m)"
  by (cases ev) (simp_all add: env_put_def)

primrec net_exec :: "'u net_event \<Rightarrow> ('s, 'u) net \<Rightarrow> ('s, 'u) net option" where
  "net_exec (NodeStep i ev) nt =
     (if i < length (nt_nodes nt) \<and> \<not> env_put ev \<and>
         (loop_event ev \<longrightarrow> nt_moved nt i = length (w_sent (rt_w (nt_nodes nt ! i))))
      then map_option (\<lambda>st. nt\<lparr>nt_nodes := (nt_nodes nt)[i := st]\<rparr>) (rt_exec ev (nt_nodes nt ! i))
      else None)"
| "net_exec (MoveSent i) nt =
     (if i < length (nt_nodes nt) \<and> nt_moved nt i < length (w_sent (rt_w (nt_nodes nt ! i)))
      then map_option (\<lambda>nt. nt\<lparr>nt_moved := (nt_moved nt)(i := nt_moved nt i + 1)\<rparr>)
             (put_into (FromLoop i) (w_sent (rt_w (nt_nodes nt ! i)) ! nt_moved nt i) nt)
      else None)"
| "net_exec (SourceSends i) nt =
     (case nt_source nt i of
        [] \<Rightarrow> None
      | x # rest \<Rightarrow> map_option (\<lambda>nt. nt\<lparr>nt_source := (nt_source nt)(i := rest)\<rparr>) (put_into (FromSource i) x nt))"
| "net_exec (SourceStops i) nt =
     (if i < length (nt_nodes nt) \<and> i \<in> set (nt_running nt) \<and> nt_source nt i = []
      then map_option (\<lambda>st. nt\<lparr>nt_nodes := (nt_nodes nt)[i := st], nt_running := removeAll i (nt_running nt)\<rparr>)
             (rt_exec EnvCancel (nt_nodes nt ! i))
      else None)"

primrec net_run :: "'u net_event list \<Rightarrow> ('s, 'u) net \<Rightarrow> ('s, 'u) net option" where
  "net_run [] nt = Some nt"
| "net_run (ev # evs) nt = (case net_exec ev nt of None \<Rightarrow> None | Some nt \<Rightarrow> net_run evs nt)"

section \<open>Invariants\<close>

definition put_in :: "nat \<Rightarrow> (origin \<times> nat \<times> 'u Message) list \<Rightarrow> 'u Message list" where
  "put_in b log = sent_to b (map snd log)"

definition put_by :: "origin \<Rightarrow> (origin \<times> nat \<times> 'u Message) list \<Rightarrow> (nat \<times> 'u Message) list" where
  "put_by who log = map snd (filter (\<lambda>x. fst x = who) log)"

lemma put_simps [simp]:
  "put_in b [] = []" "put_in b (l @ l') = put_in b l @ put_in b l'" "put_in b [(who, b', m)] = (if b' = b then [m] else [])"
  "put_by who [] = []" "put_by who (l @ l') = put_by who l @ put_by who l'" "put_by who [(who', x)] = (if who' = who then [x] else [])"
  by (simp_all add: put_in_def put_by_def)

text \<open>The consumer of a buffer is the only one.\<close>

definition consumers_ok :: "('s, 'u) net \<Rightarrow> bool" where
  "consumers_ok nt \<longleftrightarrow>
     (\<forall>b i k. nt_consumer nt b = Some (i, k) \<longrightarrow>
        i < length (nt_nodes nt) \<and> k < length (nr_inputs (rt_nr (nt_nodes nt ! i))) \<and> nr_inputs (rt_nr (nt_nodes nt ! i)) ! k = b)"

definition net_inv :: "(nat \<Rightarrow> (nat \<times> 'u Message) list) \<Rightarrow> ('s, 'u) net \<Rightarrow> bool" where
  "net_inv programs nt \<longleftrightarrow> consumers_ok nt \<and>
     (\<forall>b i k. nt_consumer nt b = Some (i, k) \<longrightarrow> rt_sentTo (nt_nodes nt ! i) k = put_in b (nt_log nt)) \<and>
     (\<forall>i < length (nt_nodes nt). emitting (rt_nr (nt_nodes nt ! i)) \<and>
        (\<forall>k < length (nr_inputs (rt_nr (nt_nodes nt ! i))). fifo k (nt_nodes nt ! i)) \<and>
        nt_moved nt i \<le> length (w_sent (rt_w (nt_nodes nt ! i))) \<and>
        put_by (FromLoop i) (nt_log nt) = take (nt_moved nt i) (w_sent (rt_w (nt_nodes nt ! i)))) \<and>
     (\<forall>i. put_by (FromSource i) (nt_log nt) @ nt_source nt i = programs i)"

lemma input_places_iff: "(i, k) \<in> set (input_places inputs) \<longleftrightarrow> i < length inputs \<and> k < length (inputs ! i)"
  by (auto simp: input_places_def image_iff Bex_def)

lemma find_consumer_Some:
  assumes "find_consumer inputs b = Some (i, k)"
  shows "i < length inputs" "k < length (inputs ! i)" "inputs ! i ! k = b"
  using assms by (auto simp: find_consumer_def find_Some_iff input_places_def dest!: nth_mem)

lemma rt_exec_frame:
  assumes "rt_exec ev st = Some st'"
  shows "nr_inputs (rt_nr st') = nr_inputs (rt_nr st)"
    and "\<forall>k m. ev \<noteq> EnvInput k m \<Longrightarrow> rt_sentTo st' = rt_sentTo st"
    and "\<not> loop_event ev \<Longrightarrow> rt_w st' = rt_w st"
proof -
  have move: "nr_inputs (rt_nr s2) = nr_inputs (rt_nr s1) \<and> rt_sentTo s2 = rt_sentTo s1" if "loop_move s1 s2" for s1 s2 :: "('a, 'b) rt_state"
    using that by (auto simp: loop_move_def loop_core_def finish_def Let_def)
  have loop: "nr_inputs (rt_nr st') = nr_inputs (rt_nr st) \<and> rt_sentTo st' = rt_sentTo st" if "loop_event ev"
    using rt_exec_loop [OF assms] that move by (fastforce simp: loop_event_def take_im_def)
  have other: "nr_inputs (rt_nr st') = nr_inputs (rt_nr st) \<and> rt_w st' = rt_w st \<and>
      ((\<forall>k m. ev \<noteq> EnvInput k m) \<longrightarrow> rt_sentTo st' = rt_sentTo st)" if "\<not> loop_event ev"
    using assms that
    by (cases ev) (auto simp: loop_event_def merger_receives_def merger_puts_def merger_done_def close_merged_def
        env_input_def env_control_def SendControl_def Runtime_Stop_def Let_def
      split: if_splits recv_outcome.splits send_outcome.splits merger.splits option.splits)
  show "nr_inputs (rt_nr st') = nr_inputs (rt_nr st)" using loop other by blast
  show "rt_sentTo st' = rt_sentTo st" if "\<forall>k m. ev \<noteq> EnvInput k m" using loop other that by blast
  show "rt_w st' = rt_w st" if "\<not> loop_event ev" using other that by blast
qed

text \<open>What \<open>net_inv\<close> says of one node.\<close>

definition node_inv :: "(origin \<times> nat \<times> 'u Message) list \<Rightarrow> nat \<Rightarrow> nat \<Rightarrow> ('s, 'u) rt_state \<Rightarrow> bool" where
  "node_inv log moved i st \<longleftrightarrow>
     emitting (rt_nr st) \<and> (\<forall>k < length (nr_inputs (rt_nr st)). fifo k st) \<and>
     moved \<le> length (w_sent (rt_w st)) \<and> put_by (FromLoop i) log = take moved (w_sent (rt_w st))"

lemma net_inv_nodes:
  "net_inv programs nt \<longleftrightarrow> consumers_ok nt \<and>
     (\<forall>b i k. nt_consumer nt b = Some (i, k) \<longrightarrow> rt_sentTo (nt_nodes nt ! i) k = put_in b (nt_log nt)) \<and>
     (\<forall>i < length (nt_nodes nt). node_inv (nt_log nt) (nt_moved nt i) i (nt_nodes nt ! i)) \<and>
     (\<forall>i. put_by (FromSource i) (nt_log nt) @ nt_source nt i = programs i)"
  by (simp add: net_inv_def node_inv_def)

lemma node_inv_step:
  assumes "node_inv log moved i st" "rt_exec ev st = Some st'" "loop_event ev \<longrightarrow> moved = length (w_sent (rt_w st))"
  shows "node_inv log moved i st'"
proof -
  have a: "appended st st'" using rt_exec_appends [OF _ assms(2)] assms(1) by (simp add: node_inv_def)
  then obtain new where new: "w_sent (rt_w st') = w_sent (rt_w st) @ new" by (auto simp: appended_def grows_def prefix_def)
  show ?thesis
    using assms(1) a new fifo_step [OF _ assms(2)] rt_exec_frame [OF assms(2)] assms(3)
    by (cases "loop_event ev") (auto simp: node_inv_def appended_def)
qed

lemma node_inv_input:
  assumes "node_inv log moved i st" "env_input k m st = Some st'" "put_by (FromLoop i) log' = put_by (FromLoop i) log"
  shows "node_inv log' moved i st'"
proof -
  have "rt_exec (EnvInput k m) st = Some st'" using assms(2) by simp
  with assms(1) have "node_inv log moved i st'" by (rule node_inv_step) (simp add: loop_event_def)
  with assms(3) show ?thesis by (simp add: node_inv_def)
qed

lemma consumers_update:
  assumes "consumers_ok nt" "i < length (nt_nodes nt) \<Longrightarrow> nr_inputs (rt_nr st) = nr_inputs (rt_nr (nt_nodes nt ! i))"
  shows "consumers_ok (nt\<lparr>nt_nodes := (nt_nodes nt)[i := st]\<rparr>)"
proof -
  have "nr_inputs (rt_nr ((nt_nodes nt)[i := st] ! j)) = nr_inputs (rt_nr (nt_nodes nt ! j))" for j
    using assms(2) by (cases "i < length (nt_nodes nt)"; cases "j = i") (simp_all add: not_less list_update_beyond)
  with assms(1) show ?thesis by (simp add: consumers_ok_def)
qed

lemma env_input_effect:
  assumes "env_input k m st = Some st'"
  shows "rt_sentTo st' = (rt_sentTo st)(k := rt_sentTo st k @ [m])" "rt_nr st' = rt_nr st" "rt_w st' = rt_w st"
  using assms by (auto simp: env_input_def split: send_outcome.splits)

lemma put_into_inv:
  assumes "net_inv programs nt" "put_into who x nt = Some nt'"
  shows "consumers_ok nt' \<and>
    (\<forall>b i k. nt_consumer nt' b = Some (i, k) \<longrightarrow> rt_sentTo (nt_nodes nt' ! i) k = put_in b (nt_log nt')) \<and>
    length (nt_nodes nt') = length (nt_nodes nt) \<and> nt_moved nt' = nt_moved nt \<and> nt_source nt' = nt_source nt \<and>
    nt_log nt' = nt_log nt @ [(who, x)] \<and> nt_consumer nt' = nt_consumer nt \<and>
    (\<forall>i < length (nt_nodes nt). rt_w (nt_nodes nt' ! i) = rt_w (nt_nodes nt ! i) \<and>
       (who \<noteq> FromLoop i \<longrightarrow> node_inv (nt_log nt') (nt_moved nt i) i (nt_nodes nt' ! i)) \<and>
       (node_inv (nt_log nt) (nt_moved nt i) i (nt_nodes nt' ! i)))"
proof -
  obtain b m where x: "x = (b, m)" by (cases x)
  then obtain j k st where c: "nt_consumer nt b = Some (j, k)" and st: "env_input k m (nt_nodes nt ! j) = Some st"
    and nt': "nt' = nt\<lparr>nt_nodes := (nt_nodes nt)[j := st], nt_log := nt_log nt @ [(who, x)]\<rparr>"
    using assms(2) by (auto simp: put_into_def split: option.splits)
  have cons: "consumers_ok nt" and sent: "\<And>b i k. nt_consumer nt b = Some (i, k) \<Longrightarrow> rt_sentTo (nt_nodes nt ! i) k = put_in b (nt_log nt)"
    and nodes: "\<And>i. i < length (nt_nodes nt) \<Longrightarrow> node_inv (nt_log nt) (nt_moved nt i) i (nt_nodes nt ! i)"
    using assms(1) by (simp_all add: net_inv_nodes)
  note ef = env_input_effect [OF st]
  have j: "j < length (nt_nodes nt)" using cons c by (auto simp: consumers_ok_def)
  have "consumers_ok nt'"
    using consumers_update [OF cons, of j st] ef(2) by (simp add: nt' consumers_ok_def)
  moreover have "rt_sentTo (nt_nodes nt' ! i') k' = put_in b' (nt_log nt')" if "nt_consumer nt' b' = Some (i', k')" for b' i' k'
  proof -
    have c': "nt_consumer nt b' = Some (i', k')" using that by (simp add: nt')
    have "nr_inputs (rt_nr (nt_nodes nt ! j)) ! k = b" "nr_inputs (rt_nr (nt_nodes nt ! i')) ! k' = b'"
      using cons c c' by (simp_all add: consumers_ok_def)
    then have same: "b' = b" if "i' = j" "k' = k" using that by simp
    have other: "(i', k') = (j, k)" if "b' = b" using c c' that by simp
    have new: "nt_nodes nt' ! j = st" "nt_nodes nt' ! i' = nt_nodes nt ! i'" if "i' \<noteq> j" using j that by (simp_all add: nt')
    have log: "put_in b' (nt_log nt') = put_in b' (nt_log nt) @ (if b' = b then [m] else [])" by (simp add: nt' x)
    show ?thesis
    proof (cases "i' = j")
      case True
      then have "rt_sentTo (nt_nodes nt' ! i') k' = (if k' = k then rt_sentTo (nt_nodes nt ! j) k @ [m] else rt_sentTo (nt_nodes nt ! j) k')"
        using j ef(1) by (simp add: nt')
      with True sent [OF c'] same other log show ?thesis by auto
    next
      case False
      with sent [OF c'] other log new(2) [OF False] show ?thesis by auto
    qed
  qed
  moreover have "rt_w (nt_nodes nt' ! i) = rt_w (nt_nodes nt ! i) \<and>
      (who \<noteq> FromLoop i \<longrightarrow> node_inv (nt_log nt') (nt_moved nt i) i (nt_nodes nt' ! i)) \<and>
      node_inv (nt_log nt) (nt_moved nt i) i (nt_nodes nt' ! i)" if "i < length (nt_nodes nt)" for i
  proof (cases "i = j")
    case True
    with nodes [OF that] ef(3) j node_inv_input [OF nodes [OF j] st] show ?thesis by (simp add: nt')
  next
    case False
    with nodes [OF that] show ?thesis by (simp add: nt' node_inv_def)
  qed
  ultimately show ?thesis by (simp add: nt')
qed

lemma node_step_inv:
  assumes inv: "net_inv programs nt" and i: "i < length (nt_nodes nt)" and e: "\<forall>k m. e \<noteq> EnvInput k m"
    and moved: "loop_event e \<longrightarrow> nt_moved nt i = length (w_sent (rt_w (nt_nodes nt ! i)))" and st: "rt_exec e (nt_nodes nt ! i) = Some st"
  shows "net_inv programs (nt\<lparr>nt_nodes := (nt_nodes nt)[i := st]\<rparr>)"
proof -
  note fr = rt_exec_frame [OF st]
  have "node_inv (nt_log nt) (nt_moved nt i) i st"
    using inv i by (intro node_inv_step [OF _ st moved]) (simp add: net_inv_nodes)
  moreover have "consumers_ok (nt\<lparr>nt_nodes := (nt_nodes nt)[i := st]\<rparr>)"
    by (rule consumers_update) (use inv fr(1) in \<open>simp_all add: net_inv_nodes\<close>)
  ultimately show ?thesis
    using inv i fr(2) [OF e] by (auto simp: net_inv_nodes nth_list_update)
qed

lemma net_inv_step:
  assumes inv: "net_inv programs nt" and ex: "net_exec ev nt = Some nt'"
  shows "net_inv programs nt'"
proof (cases ev)
  case (NodeStep i e)
  then obtain st where st: "i < length (nt_nodes nt)" "\<forall>k m. e \<noteq> EnvInput k m"
    "loop_event e \<longrightarrow> nt_moved nt i = length (w_sent (rt_w (nt_nodes nt ! i)))" "rt_exec e (nt_nodes nt ! i) = Some st"
    and nt': "nt' = nt\<lparr>nt_nodes := (nt_nodes nt)[i := st]\<rparr>"
    using ex by (auto simp: env_put_iff split: if_splits)
  show ?thesis unfolding nt' by (rule node_step_inv [OF inv st])
next
  case (SourceStops i)
  then obtain st where st: "i < length (nt_nodes nt)" "rt_exec EnvCancel (nt_nodes nt ! i) = Some st"
    and nt': "nt' = nt\<lparr>nt_nodes := (nt_nodes nt)[i := st], nt_running := removeAll i (nt_running nt)\<rparr>"
    using ex by (auto simp del: rt_exec.simps split: if_splits)
  have "net_inv programs (nt\<lparr>nt_nodes := (nt_nodes nt)[i := st]\<rparr>)"
    by (rule node_step_inv [OF inv st(1) _ _ st(2)]) (simp_all add: loop_event_def)
  then show ?thesis by (simp add: nt' net_inv_def consumers_ok_def)
next
  case (MoveSent i)
  let ?x = "w_sent (rt_w (nt_nodes nt ! i)) ! nt_moved nt i"
  obtain nt1 where i: "i < length (nt_nodes nt)" "nt_moved nt i < length (w_sent (rt_w (nt_nodes nt ! i)))"
    and put: "put_into (FromLoop i) ?x nt = Some nt1" and nt': "nt' = nt1\<lparr>nt_moved := (nt_moved nt1)(i := nt_moved nt1 i + 1)\<rparr>"
    using MoveSent ex by (auto split: if_splits)
  note p = put_into_inv [OF inv put]
  have "node_inv (nt_log nt1) (nt_moved nt i + 1) i (nt_nodes nt1 ! i)"
    using p i by (auto simp: node_inv_def take_Suc_conv_app_nth)
  with p inv show ?thesis by (auto simp: net_inv_nodes nt' consumers_ok_def)
next
  case (SourceSends i)
  then obtain x rest nt1 where src: "nt_source nt i = x # rest" and put: "put_into (FromSource i) x nt = Some nt1"
    and nt': "nt' = nt1\<lparr>nt_source := (nt_source nt1)(i := rest)\<rparr>"
    using ex by (auto split: list.splits)
  note p = put_into_inv [OF inv put]
  have "put_by (FromSource i) (nt_log nt) @ x # rest = programs i" using inv src by (metis net_inv_def)
  with p inv show ?thesis by (auto simp: net_inv_nodes nt' consumers_ok_def)
qed

lemma net_run_inv: "net_inv programs nt \<Longrightarrow> net_run evs nt = Some nt' \<Longrightarrow> net_inv programs nt'"
  by (induction evs arbitrary: nt) (auto split: option.splits dest: net_inv_step)

section \<open>The network that \<open>Build\<close> makes\<close>

lemma all_runtimes_built:
  fixes b :: "('s, 'u) GraphBuilder"
  assumes ok: "builder_ok b" "orders_ok ord b" and built: "Build ord b = Inr p"
    and r: "r \<in> set (all_runtimes p)"
  shows "\<forall>k \<in> set (nr_inputs r). k < length (p_buffers p)"
    and "nr_merged r = Some []" and "\<forall>h. nr_onError r = Some h \<longrightarrow> handler_data h"
    and "\<forall>buf \<in> set (p_buffers p). b_ch buf = []"
proof -
  let ?es = "g_edges (gb_graph b)"
  let ?wi = "wire_edges (gb_bufferSizes b) ?es :: 'u wiring"
  have dl: "p_dlRuntime p = map_option (\<lambda>sink. dead_letter_runtime sink (length ?es)) (build_dlSink b)"
    and bufs: "p_buffers p = wi_allBuffers ?wi @ (if build_dlSink b = None then [] else [NewBuffer DefaultBufferCapacity])"
    using built by (auto simp: Build_def Let_def Graph_Edges_def wire_edges_buffers split: option.splits)
  have "\<forall>r \<in> set (p_runtimes p). nr_merged r = Some [] \<and> (\<forall>h. nr_onError r = Some h \<longrightarrow> handler_data h)"
    using built
    by (auto simp: Build_def Let_def source_runtime_def operator_runtime_def sink_runtime_def NewNodeRuntime_def makeErrorHandler_data
        split: option.splits)
  moreover have "\<forall>r \<in> set (p_runtimes p). \<forall>k \<in> set (nr_inputs r). k < length ?es"
    using build_nodes_wired(2) [OF ok built] by (auto simp: list_all_iff wired_def edge_ids_def)
  ultimately show "\<forall>k \<in> set (nr_inputs r). k < length (p_buffers p)" "nr_merged r = Some []"
    "\<forall>h. nr_onError r = Some h \<longrightarrow> handler_data h"
    using r
    by (fastforce simp: all_runtimes_def dl bufs wire_edges_buffers dead_letter_runtime_def NewNodeRuntime_def split: option.splits)+
  show "\<forall>buf \<in> set (p_buffers p). b_ch buf = []"
    by (auto simp: bufs wire_edges_buffers NewBuffer_def split: if_splits)
qed


lemma net_start_node:
  assumes "i < length (all_runtimes p)"
  shows "nt_nodes (net_start pc p ws sw) ! i =
    start_state pc (all_runtimes p ! i) (ws i) (\<lambda>k. p_buffers p ! (nr_inputs (all_runtimes p ! i) ! k))"
  using assms by (simp add: net_start_def Let_def)

lemma net_start_simps [simp]:
  "length (nt_nodes (net_start pc p ws sw)) = length (all_runtimes p)" "nt_log (net_start pc p ws sw) = []"
  "nt_moved (net_start pc p ws sw) i = 0" "nt_running (net_start pc p ws sw) = p_sourceRuntimes p" "nt_source (net_start pc p ws sw) = source_program p sw"
  "nt_consumer (net_start pc p ws sw) = find_consumer (map nr_inputs (all_runtimes p))"
  by (simp_all add: net_start_def Let_def)

lemma Runtime_Start_simps [simp]:
  "nr_inputs (Runtime_Start pc nr) = nr_inputs nr" "nr_outputs (Runtime_Start pc nr) = nr_outputs nr"
  "nr_node (Runtime_Start pc nr) = nr_node nr" "nr_onError (Runtime_Start pc nr) = nr_onError nr"
  by (simp_all add: Runtime_Start_def Let_def)

lemma net_start_inv:
  assumes ok: "builder_ok b" "orders_ok ord b" and built: "Build ord b = Inr p"
    and fresh: "\<forall>i. w_sent (ws i) = []"
    and emits: "\<forall>r \<in> set (all_runtimes p). \<forall>n. nr_node r = OpNode n \<longrightarrow> data_emitter (on_operator n)"
  shows "net_inv (source_program p sw) (net_start pc p ws sw)"
proof -
  let ?rts = "all_runtimes p" and ?nt = "net_start pc p ws sw"
  note rb = all_runtimes_built [OF ok built nth_mem]
  have nr: "rt_nr (nt_nodes ?nt ! i) = Runtime_Start pc (?rts ! i)" "rt_w (nt_nodes ?nt ! i) = ws i" if "i < length ?rts" for i
    using net_start_node [OF that] by (simp_all add: start_state_def)
  have sent: "rt_sentTo (nt_nodes ?nt ! i) k = []" if "i < length ?rts" "k < length (nr_inputs (?rts ! i))" for i k
    using net_start_node [OF that(1)] rb(1,4) [OF that(1)] that(2) by (simp add: start_state_def)
  have "i < length ?rts \<and> k < length (nr_inputs (rt_nr (nt_nodes ?nt ! i))) \<and> nr_inputs (rt_nr (nt_nodes ?nt ! i)) ! k = buf"
    if "nt_consumer ?nt buf = Some (i, k)" for buf i k
    using find_consumer_Some [of "map nr_inputs ?rts" buf i k] that by (simp add: nr)
  note place = this
  then have "consumers_ok ?nt" by (simp add: consumers_ok_def)
  moreover have "rt_sentTo (nt_nodes ?nt ! i) k = put_in buf (nt_log ?nt)" if "nt_consumer ?nt buf = Some (i, k)" for buf i k
    using sent [of i k] place [OF that] nr(1) [of i] by auto
  moreover have "node_inv [] 0 i (nt_nodes ?nt ! i)" if i: "i < length ?rts" for i
  proof -
    have "emitting (Runtime_Start pc (?rts ! i))"
      using emits [rule_format, OF nth_mem [OF i]] rb(3) [OF i] by (simp add: emitting_def)
    moreover have "fifo k (nt_nodes ?nt ! i)" if "k < length (nr_inputs (?rts ! i))" for k
      using sent [OF i that] rb(1,2,4) [OF i] that
      by (simp add: fifo_def net_start_node [OF i]) (simp add: start_state_def in_channel_def held_def Runtime_Start_def of_input_def Let_def)
    ultimately show ?thesis using fresh by (simp add: node_inv_def nr [OF i])
  qed
  ultimately show ?thesis by (simp add: net_inv_nodes)
qed

text \<open>In a built network the buffer of an edge is read by the node the edge leads to.\<close>

lemma built_consumer:
  assumes ok: "builder_ok b" "orders_ok ord b" and built: "Build ord b = Inr p"
    and k: "k < length (g_edges (gb_graph b))"
  obtains i j where "find_consumer (map nr_inputs (all_runtimes p)) k = Some (i, j)" "i < length (p_runtimes p)"
    "Node_ID (nr_node (p_runtimes p ! i)) = e_ToNode (g_edges (gb_graph b) ! k)"
proof -
  let ?rts = "all_runtimes p" and ?es = "g_edges (gb_graph b)"
  note wired = build_nodes_wired [OF ok built]
  have "e_ToNode (?es ! k) \<in> {n. node_type (gb_graph b) n \<noteq> None}"
    using ok(1) k by (auto simp add: builder_ok_def graph_ok_def node_type_def list_all_length simp del: map_of_eq_Some_iff)
  also have "\<dots> = set (map (Node_ID \<circ> nr_node) (p_runtimes p))"
    using orders_nodes [OF ok] unfolding wired(1) by (auto simp only: all_types set_append)
  finally obtain i where i: "i < length (p_runtimes p)" "Node_ID (nr_node (p_runtimes p ! i)) = e_ToNode (?es ! k)"
    by (auto simp: in_set_conv_nth)
  with wired(2) k have "k \<in> set (nr_inputs (p_runtimes p ! i))" by (simp add: list_all_length wired_def edge_ids_def)
  then obtain j where "j < length (nr_inputs (p_runtimes p ! i))" "nr_inputs (p_runtimes p ! i) ! j = k" by (auto simp: in_set_conv_nth)
  with i(1) have "(i, j) \<in> set (input_places (map nr_inputs ?rts))" "map nr_inputs ?rts ! i ! j = k"
    by (simp_all add: input_places_iff all_runtimes_def nth_append)
  then have "find_consumer (map nr_inputs ?rts) k \<noteq> None"
    by (auto simp: find_consumer_def find_None_iff)
  then obtain i' j' where c: "find_consumer (map nr_inputs ?rts) k = Some (i', j')" by auto
  note c' = find_consumer_Some [OF c]
  have "i' < length (p_runtimes p)"
  proof (rule ccontr)
    assume "\<not> ?thesis"
    then have "?rts ! i' \<in> set (case p_dlRuntime p of None \<Rightarrow> [] | Some dl \<Rightarrow> [dl])"
      using c'(1) by (auto simp: all_runtimes_def nth_append split: option.splits)
    moreover have "p_dlRuntime p = map_option (\<lambda>sink. dead_letter_runtime sink (length ?es)) (build_dlSink b)"
      using built by (auto simp: Build_def Let_def Graph_Edges_def wire_edges_buffers split: option.splits)
    ultimately have "nr_inputs (?rts ! i') = [length ?es]"
      by (auto simp: dead_letter_runtime_def NewNodeRuntime_def split: option.splits)
    with c' k show False by simp
  qed
  moreover from this have "Node_ID (nr_node (p_runtimes p ! i')) = e_ToNode (?es ! k)"
    using wired(2) c' nth_mem [OF c'(2)]
    by (auto simp: all_runtimes_def nth_append list_all_length wired_def edge_ids_def)
  ultimately show ?thesis using that c by blast
qed


lemma net_exec_consumer: "net_exec ev nt = Some nt' \<Longrightarrow> nt_consumer nt' = nt_consumer nt"
  by (cases ev) (auto simp: put_into_def split: if_splits option.splits list.splits)

lemma net_run_consumer: "net_run evs nt = Some nt' \<Longrightarrow> nt_consumer nt' = nt_consumer nt"
  by (induction evs arbitrary: nt) (auto split: option.splits dest: net_exec_consumer)

end
