(* ===== verification/Harness.thy ===== *)
theory Harness
  imports Pipeline
begin

text \<open>
  The test harness of \<open>internal/engine/test_harness.go\<close>, which the package exports beside the
  engine: sample sources, operators and sinks, factories of sample graphs, and a runner that waits for
  a pipeline and reports a deadlock when it does not complete. All sample operators have the same
  type of state, the values a sink has collected; the other operators leave it alone. Goroutine
  stacks come from Go's runtime and are arguments.
\<close>

section \<open>Sample operators\<close>

type_synonym 'u collected = "'u any list"

definition collectSink_ProcessMessage :: "'u DataMessage \<Rightarrow> ('u collected, 'u) handler" where
  "collectSink_ProcessMessage msg c s w = Some (s @ [dm_Value msg], w, None)"

definition collectSinkHarness :: "('u collected, 'u) Operator" where
  "collectSinkHarness = BaseOperator\<lparr>op_ProcessMessage := collectSink_ProcessMessage\<rparr>"

definition collectSink_Count :: "'u collected \<Rightarrow> int" where
  "collectSink_Count s = int (length s)"

definition collectSink_Values :: "'u collected \<Rightarrow> 'u any list" where
  "collectSink_Values s = s"

primrec sliceSource_Run :: "'u any list \<Rightarrow> 'u Source" where
  "sliceSource_Run [] c w = Some (w, None)"
| "sliceSource_Run (item # items) c w =
     (case Emit c (DataMessage [] item zero_time) w of
        (w, Some err) \<Rightarrow> Some (w, Some err)
      | (w, None) \<Rightarrow> sliceSource_Run items c w)"

definition passthrough_ProcessMessage :: "'u DataMessage \<Rightarrow> ('s, 'u) handler" where
  "passthrough_ProcessMessage msg c s w = returning s (Emit c msg w)"

definition passthroughOp :: "('s, 'u) Operator" where
  "passthroughOp = BaseOperator\<lparr>op_ProcessMessage := passthrough_ProcessMessage\<rparr>"

text \<open>The wait ends with the delay or with the context; like that of a send, the end is the environment's answer.\<close>

definition delayOp_ProcessMessage :: "duration \<Rightarrow> 'u DataMessage \<Rightarrow> ('s, 'u) handler" where
  "delayOp_ProcessMessage delay msg c s w =
     (case w_outcome w (w_sends w) of
        Some err \<Rightarrow> Some (s, w\<lparr>w_sends := w_sends w + 1\<rparr>, Some err)
      | None \<Rightarrow> returning s (Emit c msg (w\<lparr>w_sends := w_sends w + 1\<rparr>)))"

definition delayOp :: "duration \<Rightarrow> ('s, 'u) Operator" where
  "delayOp delay = BaseOperator\<lparr>op_ProcessMessage := delayOp_ProcessMessage delay\<rparr>"

primrec amplify_loop :: "nat \<Rightarrow> 'u DataMessage \<Rightarrow> 'u runtimeCollector \<Rightarrow> 'u World \<Rightarrow> 'u World \<times> error option" where
  "amplify_loop 0 msg c w = (w, None)"
| "amplify_loop (Suc n) msg c w =
     (case Emit c (DataMessage (dm_Key msg) (dm_Value msg) (dm_EventTime msg)) w of
        (w, Some err) \<Rightarrow> (w, Some err)
      | (w, None) \<Rightarrow> amplify_loop n msg c w)"

definition amplify_ProcessMessage :: "int \<Rightarrow> 'u DataMessage \<Rightarrow> ('s, 'u) handler" where
  "amplify_ProcessMessage factor msg c s w = returning s (amplify_loop (nat factor) msg c w)"

definition amplifyOp :: "int \<Rightarrow> ('s, 'u) Operator" where
  "amplifyOp factor = BaseOperator\<lparr>op_ProcessMessage := amplify_ProcessMessage factor\<rparr>"

text \<open>A negative length panics in Go; the factories are called with lengths.\<close>

definition makeItems :: "nat \<Rightarrow> int any list" where
  "makeItems n = map (\<lambda>i. AnyValue (int i)) [0..<n]"

section \<open>Sample graphs\<close>

type_synonym harness_builder = "(int collected, int) GraphBuilder"
type_synonym harness_pipeline = "(int collected, int) Pipeline"

definition op_id :: "nat \<Rightarrow> string" where
  "op_id i = ''op'' @ FormatUint i"

definition consumer_id :: "nat \<Rightarrow> string" where
  "consumer_id i = ''consumer'' @ FormatUint i"

definition chain_link :: "nat \<Rightarrow> harness_builder \<times> string \<Rightarrow> harness_builder \<times> string" where
  "chain_link i bp =
     (let nid = op_id i; b = AddOperator nid passthroughOp [] (fst bp)
      in (Connect (snd bp) nid b, nid))"

definition LinearChain_builder :: "nat \<Rightarrow> int \<Rightarrow> harness_builder" where
  "LinearChain_builder numMessages numOperators =
     (let b = NewGraphBuilder ''linear-chain'';
          b = AddSource ''source'' (sliceSource_Run (makeItems numMessages)) b;
          b = AddSink ''sink'' collectSinkHarness [] b;
          (b, prev) = fold chain_link [0..<nat numOperators] (b, ''source'')
      in Connect prev ''sink'' b)"

definition BuildLinearChain :: "build_order \<Rightarrow> nat \<Rightarrow> int \<Rightarrow> error + harness_pipeline" where
  "BuildLinearChain ord numMessages numOperators = Build ord (LinearChain_builder numMessages numOperators)"

definition two_branches ::
  "string \<Rightarrow> string \<Rightarrow> (int collected, int) Operator \<Rightarrow> string \<Rightarrow> (int collected, int) Operator \<Rightarrow> nat \<Rightarrow> harness_builder" where
  "two_branches name left leftOp right rightOp numMessages =
     (let b = NewGraphBuilder name;
          b = AddSource ''source'' (sliceSource_Run (makeItems numMessages)) b;
          b = AddOperator ''fanout'' FanOutOperator [] b;
          b = AddOperator left leftOp [] b;
          b = AddOperator right rightOp [] b;
          b = AddOperator ''merge'' MergeOperator [] b;
          b = AddSink ''sink'' collectSinkHarness [] b;
          b = Connect ''source'' ''fanout'' b;
          b = Connect ''fanout'' left b;
          b = Connect ''fanout'' right b;
          b = Connect left ''merge'' b;
          b = Connect right ''merge'' b
      in Connect ''merge'' ''sink'' b)"

definition Diamond_builder :: "nat \<Rightarrow> harness_builder" where
  "Diamond_builder numMessages = two_branches ''diamond'' ''left'' passthroughOp ''right'' passthroughOp numMessages"

definition BuildDiamond :: "build_order \<Rightarrow> nat \<Rightarrow> error + harness_pipeline" where
  "BuildDiamond ord numMessages = Build ord (Diamond_builder numMessages)"

definition SlowConsumerDiamond_builder :: "nat \<Rightarrow> duration \<Rightarrow> harness_builder" where
  "SlowConsumerDiamond_builder numMessages slowDelay =
     two_branches ''slow-consumer-diamond'' ''fast'' passthroughOp ''slow'' (delayOp slowDelay) numMessages"

definition BuildSlowConsumerDiamond :: "build_order \<Rightarrow> nat \<Rightarrow> duration \<Rightarrow> error + harness_pipeline" where
  "BuildSlowConsumerDiamond ord numMessages slowDelay = Build ord (SlowConsumerDiamond_builder numMessages slowDelay)"

definition fan_branch :: "nat \<Rightarrow> harness_builder \<Rightarrow> harness_builder" where
  "fan_branch i b =
     (let nid = consumer_id i;
          b = AddOperator nid passthroughOp [] b;
          b = Connect ''fanout'' nid b
      in Connect nid ''merge'' b)"

definition FanOutFanIn_builder :: "nat \<Rightarrow> int \<Rightarrow> harness_builder" where
  "FanOutFanIn_builder numMessages numConsumers =
     (let b = NewGraphBuilder ''fan-out-fan-in'';
          b = AddSource ''source'' (sliceSource_Run (makeItems numMessages)) b;
          b = AddOperator ''fanout'' FanOutOperator [] b;
          b = AddOperator ''merge'' MergeOperator [] b;
          b = AddSink ''sink'' collectSinkHarness [] b;
          b = Connect ''source'' ''fanout'' b;
          b = fold fan_branch [0..<nat numConsumers] b
      in Connect ''merge'' ''sink'' b)"

definition BuildFanOutFanIn :: "build_order \<Rightarrow> nat \<Rightarrow> int \<Rightarrow> error + harness_pipeline" where
  "BuildFanOutFanIn ord numMessages numConsumers = Build ord (FanOutFanIn_builder numMessages numConsumers)"

definition Amplifier_builder :: "nat \<Rightarrow> int \<Rightarrow> harness_builder" where
  "Amplifier_builder numMessages amplification =
     (let b = NewGraphBuilder ''amplifier'';
          b = AddSource ''source'' (sliceSource_Run (makeItems numMessages)) b;
          b = AddOperator ''amplify'' (amplifyOp amplification) [] b;
          b = AddSink ''sink'' collectSinkHarness [] b;
          b = Connect ''source'' ''amplify'' b
      in Connect ''amplify'' ''sink'' b)"

definition BuildAmplifier :: "build_order \<Rightarrow> nat \<Rightarrow> int \<Rightarrow> error + harness_pipeline" where
  "BuildAmplifier ord numMessages amplification = Build ord (Amplifier_builder numMessages amplification)"

section \<open>The runner\<close>

record TestHarness =
  h_Timeout :: duration

record TestHarnessResult =
  hr_Completed :: bool
  hr_Deadlocked :: bool
  hr_Duration :: duration
  hr_Error :: "error option"
  hr_GoroutineStacks :: string
  hr_FinalState :: PipelineState

text \<open>\<open>strings.Contains\<close>, and \<open>strings.Split\<close> at a non-empty separator, from the left.\<close>

fun strings_Contains :: "string \<Rightarrow> string \<Rightarrow> bool" where
  "strings_Contains [] sub \<longleftrightarrow> sub = []"
| "strings_Contains (c # cs) sub \<longleftrightarrow> prefix sub (c # cs) \<or> strings_Contains cs sub"

function strings_Split :: "string \<Rightarrow> string \<Rightarrow> string list" where
  "strings_Split sep [] = [[]]"
| "strings_Split sep (c # cs) =
     (if sep \<noteq> [] \<and> prefix sep (c # cs) then [] # strings_Split sep (drop (length sep) (c # cs))
      else case strings_Split sep cs of [] \<Rightarrow> [[c]] | part # parts \<Rightarrow> (c # part) # parts)"
  by pat_completeness auto
termination
  by (relation "measure (length \<circ> snd)") (auto simp: neq_Nil_conv)

definition blockIndicators :: "string list" where
  "blockIndicators = [''chan send'', ''chan receive'', ''select'', ''semacquire'']"

definition hasBlockedGoroutines :: "string \<Rightarrow> bool" where
  "hasBlockedGoroutines stacks =
     list_ex (\<lambda>section. strings_Contains section ''go-stream-processor'' \<and>
                        list_ex (strings_Contains section) blockIndicators)
       (strings_Split [CHR 0x0A, CHR 0x0A] stacks)"

definition harness_timeout :: "TestHarness \<Rightarrow> duration" where
  "harness_timeout h = (if h_Timeout h = 0 then 10 * 1000000000 else h_Timeout h)"

text \<open>
  \<open>Run\<close> after the pipeline was started: \<open>done_at\<close> is when its \<open>done\<close> channel was closed, \<open>None\<close> for
  never, and \<open>pick\<close> the choice of the \<open>select\<close> when both cases are ready at once; \<open>p\<close> is the pipeline
  when the harness returns, and \<open>stacks\<close> what \<open>captureGoroutineStacks\<close> returned.
\<close>

definition Harness_Run ::
  "TestHarness \<Rightarrow> bool \<Rightarrow> duration option \<Rightarrow> duration \<Rightarrow> string \<Rightarrow> ('s, 'u) Pipeline \<Rightarrow> TestHarnessResult" where
  "Harness_Run h pick done_at elapsed stacks p =
     (let timeout = harness_timeout h;
          done_first = (case done_at of None \<Rightarrow> False | Some t \<Rightarrow> t < timeout \<or> t = timeout \<and> pick)
      in if done_first then
           \<lparr>hr_Completed = True, hr_Deadlocked = False, hr_Duration = elapsed, hr_Error = None,
            hr_GoroutineStacks = [], hr_FinalState = Pipeline_State p\<rparr>
         else
           let deadlocked = hasBlockedGoroutines stacks
           in \<lparr>hr_Completed = False, hr_Deadlocked = deadlocked, hr_Duration = elapsed, hr_Error = None,
               hr_GoroutineStacks = stacks, hr_FinalState = Pipeline_State p\<rparr>)"

section \<open>What the factories build\<close>

text \<open>The shape of a builder without an error: the types of its nodes and its edges.\<close>

definition shape :: "('s, 'u) GraphBuilder \<Rightarrow> (string \<Rightarrow> NodeType option) \<Rightarrow> Edge list \<Rightarrow> bool" where
  "shape b types es \<longleftrightarrow> builder_ok b \<and> gb_err b = None \<and> node_type (gb_graph b) = types \<and> g_edges (gb_graph b) = es"

lemma AddNode_fresh:
  assumes "node_type g nid = None"
  shows "\<exists>g'. AddNode nid n t g = Inr g' \<and> node_type g' = (node_type g)(nid \<mapsto> t) \<and> g_edges g' = g_edges g"
  using assms by (auto simp: AddNode_def node_type_def fun_eq_iff go_maps)

lemma AddEdge_known:
  assumes "node_type g (e_FromNode e) \<noteq> None" "node_type g (e_ToNode e) \<noteq> None"
  shows "\<exists>g'. AddEdge e g = Inr g' \<and> node_type g' = node_type g \<and> g_edges g' = g_edges g @ [e]"
  using assms by (auto simp: AddEdge_def node_type_def fun_eq_iff)

lemma shape_new: "shape (NewGraphBuilder name) Map.empty []"
  by (simp add: shape_def builder_ok_new) (simp add: NewGraphBuilder_def NewGraph_def node_type_def fun_eq_iff)

lemma shape_add:
  assumes "shape b types es" "types nid = None"
  shows "shape (AddSource nid src b) (types(nid \<mapsto> NodeTypeSource)) es"
    and "shape (AddOperator nid op s b) (types(nid \<mapsto> NodeTypeOperator)) es"
    and "shape (AddSink nid op s b) (types(nid \<mapsto> NodeTypeSink)) es"
proof -
  have fresh: "node_type (gb_graph b) nid = None" "builder_ok b" "gb_err b = None" "types = node_type (gb_graph b)"
    "g_edges (gb_graph b) = es"
    using assms by (simp_all add: shape_def)
  obtain g where "AddNode nid nid NodeTypeSource (gb_graph b) = Inr g" "node_type g = types(nid \<mapsto> NodeTypeSource)" "g_edges g = es"
    using AddNode_fresh [OF fresh(1), of nid NodeTypeSource] fresh by auto
  with fresh AddSource_ok [OF fresh(2), of nid src] show "shape (AddSource nid src b) (types(nid \<mapsto> NodeTypeSource)) es"
    by (simp add: shape_def AddSource_def Let_def)
  obtain g where "AddNode nid nid NodeTypeOperator (gb_graph b) = Inr g" "node_type g = types(nid \<mapsto> NodeTypeOperator)" "g_edges g = es"
    using AddNode_fresh [OF fresh(1), of nid NodeTypeOperator] fresh by auto
  with fresh AddOperator_ok [OF fresh(2), of nid op s] show "shape (AddOperator nid op s b) (types(nid \<mapsto> NodeTypeOperator)) es"
    by (simp add: shape_def AddOperator_def Let_def)
  obtain g where "AddNode nid nid NodeTypeSink (gb_graph b) = Inr g" "node_type g = types(nid \<mapsto> NodeTypeSink)" "g_edges g = es"
    using AddNode_fresh [OF fresh(1), of nid NodeTypeSink] fresh by auto
  with fresh AddSink_ok [OF fresh(2), of nid op s] show "shape (AddSink nid op s b) (types(nid \<mapsto> NodeTypeSink)) es"
    by (simp add: shape_def AddSink_def Let_def)
qed

lemma shape_connect:
  assumes "shape b types es" "types f \<noteq> None" "types t \<noteq> None"
  shows "shape (Connect f t b) types (es @ [NewEdge f t])"
proof -
  have known: "builder_ok b" "gb_err b = None" "types = node_type (gb_graph b)" "g_edges (gb_graph b) = es"
    using assms by (simp_all add: shape_def)
  obtain g where "AddEdge (NewEdge f t) (gb_graph b) = Inr g" "node_type g = types" "g_edges g = es @ [NewEdge f t]"
    using AddEdge_known [of "gb_graph b" "NewEdge f t"] assms(2,3) known by (auto simp: NewEdge_def)
  with known Connect_ok(1) [OF known(1), of f t] show ?thesis by (simp add: shape_def Connect_def)
qed

lemmas shapes = shape_new shape_add shape_connect

text \<open>A graph whose edges go up in rank, with edges at the right sides of its nodes, has no defect.\<close>

lemma ranked_acyclic:
  fixes rank :: "'a \<Rightarrow> nat"
  assumes "\<And>u v. (u, v) \<in> R \<Longrightarrow> rank u < rank v"
  shows "(x, x) \<notin> R\<^sup>+"
proof
  assume "(x, x) \<in> R\<^sup>+"
  moreover have "rank u < rank v" if "(u, v) \<in> R\<^sup>+" for u v
    using that by (induction rule: trancl.induct) (auto dest: assms intro: less_trans)
  ultimately show False by blast
qed

definition sides_ok :: "(string \<Rightarrow> NodeType option) \<Rightarrow> Edge list \<Rightarrow> bool" where
  "sides_ok types es \<longleftrightarrow>
     (\<forall>n t. types n = Some t \<longrightarrow>
        (t \<noteq> NodeTypeSource \<longleftrightarrow> n \<in> e_ToNode ` set es) \<and> (t \<noteq> NodeTypeSink \<longleftrightarrow> n \<in> e_FromNode ` set es))"

lemma no_violation:
  assumes "shape b types es" "sides_ok types es" "types n0 \<noteq> None"
    and rank: "\<And>e. e \<in> set es \<Longrightarrow> (rank (e_FromNode e) :: nat) < rank (e_ToNode e)"
  shows "\<not> violation (gb_graph b) e"
proof
  let ?g = "gb_graph b"
  assume v: "violation ?g e"
  have types: "node_type ?g = types" and es: "g_edges ?g = es" using assms(1) by (simp_all add: shape_def)
  have rel: "x \<in> Range (edge_rel ?g) \<longleftrightarrow> x \<in> e_ToNode ` set es" "x \<in> Domain (edge_rel ?g) \<longleftrightarrow> x \<in> e_FromNode ` set es" for x
    by (force simp: edge_rel_def es)+
  have "(u, w) \<in> edge_rel ?g \<Longrightarrow> rank u < rank w" for u w
    using rank by (auto simp: edge_rel_def es)
  then have "(n, n) \<notin> (edge_rel ?g)\<^sup>+" for n by (rule ranked_acyclic)
  moreover have "g_nodes ?g \<noteq> []" using assms(3) by (auto simp flip: types simp: node_type_def)
  moreover have "n \<in> Field (edge_rel ?g)" if "types n \<noteq> None" for n
    using that assms(2) rel by (cases "the (types n)") (auto simp: sides_ok_def Field_def)
  ultimately show False
    using v assms(2) by (auto simp: violation_def types rel sides_ok_def split: error.splits)
qed

lemma shape_builds:
  assumes "shape b types es" "sides_ok types es" "types n0 \<noteq> None"
    and "\<And>e. e \<in> set es \<Longrightarrow> (rank (e_FromNode e) :: nat) < rank (e_ToNode e)" "orders_ok ord b"
  shows "\<exists>p. Build ord b = Inr p"
  using assms(1,5) no_violation [OF assms(1-4)] Validate_exact [of "gb_graph b"]
  by (simp add: Build_iff shape_def builder_ok_def orders_ok_def)

section \<open>The linear chain\<close>

definition chain_ids :: "nat \<Rightarrow> string list" where
  "chain_ids n = ''source'' # map op_id [0..<n] @ [''sink'']"

definition links :: "string list \<Rightarrow> Edge list" where
  "links ids = map (\<lambda>(u, v). NewEdge u v) (zip ids (tl ids))"

definition chain_types :: "nat \<Rightarrow> string \<Rightarrow> NodeType option" where
  "chain_types n x =
     (if x = ''source'' then Some NodeTypeSource else if x = ''sink'' then Some NodeTypeSink
      else if x \<in> op_id ` {..<n} then Some NodeTypeOperator else None)"

lemma op_id_simps [simp]:
  "op_id i = op_id j \<longleftrightarrow> i = j" "op_id i \<noteq> ''source''" "op_id i \<noteq> ''sink''" "''source'' \<noteq> op_id i" "''sink'' \<noteq> op_id i"
  by (simp_all add: op_id_def)

lemma chain_ids_distinct: "distinct (chain_ids n)"
  by (auto simp: chain_ids_def distinct_map inj_on_def)

lemma links_snoc: "ids \<noteq> [] \<Longrightarrow> links (ids @ [x]) = links ids @ [NewEdge (last ids) x]"
proof (induction ids)
  case (Cons y ids)
  then show ?case by (cases ids) (simp_all add: links_def)
qed simp

lemma chain_fold:
  assumes "shape b (chain_types 0) []"
  shows "snd (fold chain_link [0..<n] (b, ''source'')) = last (''source'' # map op_id [0..<n]) \<and>
    shape (fst (fold chain_link [0..<n] (b, ''source''))) (chain_types n) (links (''source'' # map op_id [0..<n]))"
proof (induction n)
  case 0
  with assms show ?case by (simp add: links_def)
next
  case (Suc n)
  let ?ids = "''source'' # map op_id [0..<n]"
  obtain b' prev where f: "fold chain_link [0..<n] (b, ''source'') = (b', prev)" by fastforce
  with Suc have b': "shape b' (chain_types n) (links ?ids)" and prev: "prev = last ?ids" by simp_all
  have up: "(chain_types n)(op_id n \<mapsto> NodeTypeOperator) = chain_types (Suc n)"
    by (auto simp: chain_types_def fun_eq_iff lessThan_Suc)
  have "chain_types n (op_id n) = None" by (auto simp: chain_types_def)
  from shape_add(2) [OF b' this] have a: "shape (AddOperator (op_id n) passthroughOp [] b') (chain_types (Suc n)) (links ?ids)"
    by (simp add: up)
  have "chain_types (Suc n) prev \<noteq> None" by (auto simp: prev chain_types_def last_map)
  moreover have "chain_types (Suc n) (op_id n) \<noteq> None" by (simp add: chain_types_def)
  ultimately have "shape (Connect prev (op_id n) (AddOperator (op_id n) passthroughOp [] b')) (chain_types (Suc n))
      (links ?ids @ [NewEdge prev (op_id n)])"
    by (rule shape_connect [OF a])
  moreover have "fold chain_link [0..<Suc n] (b, ''source'') =
      (Connect prev (op_id n) (AddOperator (op_id n) passthroughOp [] b'), op_id n)"
    by (simp add: f) (simp add: chain_link_def Let_def)
  ultimately show ?case using links_snoc [of ?ids "op_id n"] by (simp add: prev)
qed

lemma LinearChain_shape: "shape (LinearChain_builder m k) (chain_types (nat k)) (links (chain_ids (nat k)))"
proof -
  let ?b = "AddSink ''sink'' collectSinkHarness [] (AddSource ''source'' (sliceSource_Run (makeItems m)) (NewGraphBuilder ''linear-chain'')) :: harness_builder"
  have "chain_types 0 = (Map.empty (''source'' \<mapsto> NodeTypeSource))(''sink'' \<mapsto> NodeTypeSink)"
    by (auto simp: chain_types_def fun_eq_iff)
  then have "shape ?b (chain_types 0) []"
    by (simp only:) (intro shapes; simp)
  from chain_fold [OF this, of "nat k"] obtain b' where
    f: "fold chain_link [0..<nat k] (?b, ''source'') = (b', last (''source'' # map op_id [0..<nat k]))"
    and b': "shape b' (chain_types (nat k)) (links (''source'' # map op_id [0..<nat k]))"
    by (metis prod.collapse)
  have "chain_types (nat k) (last (''source'' # map op_id [0..<nat k])) \<noteq> None" by (auto simp: chain_types_def last_map)
  moreover have "chain_types (nat k) ''sink'' \<noteq> None" by (simp add: chain_types_def)
  ultimately have "shape (Connect (last (''source'' # map op_id [0..<nat k])) ''sink'' b') (chain_types (nat k)) (links (chain_ids (nat k)))"
    using shape_connect [OF b'] links_snoc [of "''source'' # map op_id [0..<nat k]" "''sink''"] by (simp add: chain_ids_def)
  then show ?thesis by (simp add: LinearChain_builder_def f Let_def)
qed

lemma links_ends: "map e_FromNode (links ids) = butlast ids" "map e_ToNode (links ids) = tl ids"
proof -
  have "map e_FromNode (links ids) = map fst (zip ids (tl ids))" "map e_ToNode (links ids) = map snd (zip ids (tl ids))"
    by (simp_all add: links_def NewEdge_def split_def)
  then show "map e_FromNode (links ids) = butlast ids" "map e_ToNode (links ids) = tl ids"
    by (simp_all add: map_fst_zip_take map_snd_zip_take butlast_conv_take)
qed

lemma links_rank:
  assumes "distinct ids" "e \<in> set (links ids)"
  shows "the (map_of (zip ids [0..<length ids]) (e_FromNode e)) < the (map_of (zip ids [0..<length ids]) (e_ToNode e))"
proof -
  obtain i where "Suc i < length ids" "e = NewEdge (ids ! i) (ids ! Suc i)"
    using assms(2) by (auto simp: links_def set_zip nth_tl less_diff_conv)
  with assms(1) show ?thesis by (simp add: NewEdge_def map_of_zip_nth)
qed

lemma chain_sides: "sides_ok (chain_types n) (links (chain_ids n))"
proof -
  have "e_FromNode ` set (links (chain_ids n)) = insert ''source'' (op_id ` {..<n})"
    using arg_cong [OF links_ends(1) [of "chain_ids n"], of set] by (auto simp: chain_ids_def butlast_append)
  moreover have "e_ToNode ` set (links (chain_ids n)) = insert ''sink'' (op_id ` {..<n})"
    using arg_cong [OF links_ends(2) [of "chain_ids n"], of set] by (auto simp: chain_ids_def)
  ultimately show ?thesis by (auto simp: sides_ok_def chain_types_def)
qed

lemma LinearChain_builds:
  assumes "orders_ok ord (LinearChain_builder m k)"
  shows "\<exists>p. BuildLinearChain ord m k = Inr p"
  unfolding BuildLinearChain_def
proof (rule shape_builds [OF LinearChain_shape chain_sides _ _ assms])
  show "chain_types (nat k) ''source'' \<noteq> None" by (simp add: chain_types_def)
qed (rule links_rank [OF chain_ids_distinct])

section \<open>The other graphs\<close>

text \<open>A graph with two branches, and the one of a chain of three nodes.\<close>

definition branch_types :: "string \<Rightarrow> string \<Rightarrow> string \<Rightarrow> NodeType option" where
  "branch_types left right =
     [''source'' \<mapsto> NodeTypeSource, ''fanout'' \<mapsto> NodeTypeOperator, left \<mapsto> NodeTypeOperator, right \<mapsto> NodeTypeOperator,
      ''merge'' \<mapsto> NodeTypeOperator, ''sink'' \<mapsto> NodeTypeSink]"

lemma two_branches_build:
  assumes "distinct [''source'', ''fanout'', left, right, ''merge'', ''sink'']"
    and "orders_ok ord (two_branches name left op1 right op2 m)"
  shows "\<exists>p. Build ord (two_branches name left op1 right op2 m) = Inr p"
proof (rule shape_builds [OF _ _ _ _ assms(2)])
  let ?es = "[NewEdge ''source'' ''fanout'', NewEdge ''fanout'' left, NewEdge ''fanout'' right, NewEdge left ''merge'',
     NewEdge right ''merge'', NewEdge ''merge'' ''sink'']"
  have "shape (two_branches name left op1 right op2 m) (branch_types left right)
      (((((([] @ [NewEdge ''source'' ''fanout'']) @ [NewEdge ''fanout'' left]) @ [NewEdge ''fanout'' right]) @ [NewEdge left ''merge'']) @
       [NewEdge right ''merge'']) @ [NewEdge ''merge'' ''sink''])"
    unfolding two_branches_def branch_types_def Let_def using assms(1) by (intro shapes; force)
  then show "shape (two_branches name left op1 right op2 m) (branch_types left right) ?es" by simp
  show "sides_ok (branch_types left right) ?es"
    using assms(1) by (auto simp: sides_ok_def branch_types_def NewEdge_def)
  show "branch_types left right ''source'' \<noteq> None" using assms(1) by (auto simp: branch_types_def)
  let ?rank = "(\<lambda>_. 2) (''source'' := 0, ''fanout'' := 1, ''merge'' := 3, ''sink'' := 4 :: nat)"
  show "?rank (e_FromNode e) < ?rank (e_ToNode e)" if "e \<in> set ?es" for e
    using that assms(1) by (auto simp: NewEdge_def)
qed

lemma Amplifier_builds:
  assumes "orders_ok ord (Amplifier_builder m a)"
  shows "\<exists>p. BuildAmplifier ord m a = Inr p"
  unfolding BuildAmplifier_def
proof (rule shape_builds [OF _ _ _ _ assms])
  let ?types = "[''source'' \<mapsto> NodeTypeSource, ''amplify'' \<mapsto> NodeTypeOperator, ''sink'' \<mapsto> NodeTypeSink]"
  let ?es = "[NewEdge ''source'' ''amplify'', NewEdge ''amplify'' ''sink'']"
  have "shape (Amplifier_builder m a) ?types (([] @ [NewEdge ''source'' ''amplify'']) @ [NewEdge ''amplify'' ''sink''])"
    unfolding Amplifier_builder_def Let_def by (intro shapes; simp)
  then show "shape (Amplifier_builder m a) ?types ?es" by simp
  show "sides_ok ?types ?es" by (auto simp: sides_ok_def NewEdge_def)
  show "?types ''source'' \<noteq> None" by simp
  let ?rank = "(\<lambda>_. 1) (''source'' := 0, ''sink'' := 2 :: nat)"
  show "?rank (e_FromNode e) < ?rank (e_ToNode e)" if "e \<in> set ?es" for e
    using that by (auto simp: NewEdge_def)
qed

text \<open>Fan-out and fan-in over \<open>n\<close> consumers.\<close>

definition fan_types :: "nat \<Rightarrow> string \<Rightarrow> NodeType option" where
  "fan_types n x =
     (if x = ''source'' then Some NodeTypeSource else if x = ''sink'' then Some NodeTypeSink
      else if x = ''fanout'' \<or> x = ''merge'' \<or> x \<in> consumer_id ` {..<n} then Some NodeTypeOperator else None)"

definition fan_edges :: "nat \<Rightarrow> Edge list" where
  "fan_edges n = concat (map (\<lambda>i. [NewEdge ''fanout'' (consumer_id i), NewEdge (consumer_id i) ''merge'']) [0..<n])"

lemma consumer_id_simps [simp]:
  "consumer_id i = consumer_id j \<longleftrightarrow> i = j" "consumer_id i \<noteq> ''source''" "consumer_id i \<noteq> ''sink''"
  "consumer_id i \<noteq> ''fanout''" "consumer_id i \<noteq> ''merge''" "''source'' \<noteq> consumer_id i" "''sink'' \<noteq> consumer_id i"
  "''fanout'' \<noteq> consumer_id i" "''merge'' \<noteq> consumer_id i"
  by (simp_all add: consumer_id_def)

lemma fan_fold:
  assumes "shape b (fan_types 0) es"
  shows "shape (fold fan_branch [0..<n] b) (fan_types n) (es @ fan_edges n)"
proof (induction n)
  case 0
  with assms show ?case by (simp add: fan_edges_def)
next
  case (Suc n)
  have up: "(fan_types n)(consumer_id n \<mapsto> NodeTypeOperator) = fan_types (Suc n)"
    by (auto simp: fan_types_def fun_eq_iff lessThan_Suc)
  have "fan_types n (consumer_id n) = None" by (auto simp: fan_types_def)
  from shape_add(2) [OF Suc this]
  have "shape (fan_branch n (fold fan_branch [0..<n] b)) (fan_types (Suc n))
      (((es @ fan_edges n) @ [NewEdge ''fanout'' (consumer_id n)]) @ [NewEdge (consumer_id n) ''merge''])"
    unfolding fan_branch_def Let_def up by (intro shape_connect; simp add: fan_types_def)
  moreover have "fan_edges (Suc n) = fan_edges n @ [NewEdge ''fanout'' (consumer_id n), NewEdge (consumer_id n) ''merge'']"
    by (simp add: fan_edges_def)
  ultimately show ?case by simp
qed

lemma FanOutFanIn_shape:
  "shape (FanOutFanIn_builder m k) (fan_types (nat k))
     (([NewEdge ''source'' ''fanout''] @ fan_edges (nat k)) @ [NewEdge ''merge'' ''sink''])"
proof -
  have "fan_types 0 = (((Map.empty (''source'' \<mapsto> NodeTypeSource)) (''fanout'' \<mapsto> NodeTypeOperator)) (''merge'' \<mapsto> NodeTypeOperator))
      (''sink'' \<mapsto> NodeTypeSink)"
    by (auto simp: fan_types_def fun_eq_iff)
  then have "shape (Connect ''source'' ''fanout'' (AddSink ''sink'' collectSinkHarness [] (AddOperator ''merge'' MergeOperator []
      (AddOperator ''fanout'' FanOutOperator [] (AddSource ''source'' (sliceSource_Run (makeItems m)) (NewGraphBuilder ''fan-out-fan-in''))))))
      (fan_types 0) ([] @ [NewEdge ''source'' ''fanout''])"
    by (simp only:) (intro shapes; simp)
  from fan_fold [OF this, of "nat k"] show ?thesis
    unfolding FanOutFanIn_builder_def Let_def append_Nil by (rule shape_connect) (simp_all add: fan_types_def)
qed

lemma fan_edges_ends:
  "e_FromNode ` set (fan_edges n) = (if n = 0 then {} else insert ''fanout'' (consumer_id ` {..<n}))"
  "e_ToNode ` set (fan_edges n) = (if n = 0 then {} else insert ''merge'' (consumer_id ` {..<n}))"
  by (auto simp: fan_edges_def NewEdge_def image_iff)

lemma FanOutFanIn_builds:
  assumes "orders_ok ord (FanOutFanIn_builder m k)"
  shows "(\<exists>p. BuildFanOutFanIn ord m k = Inr p) \<longleftrightarrow> 0 < k"
proof (cases "0 < k")
  case True
  let ?es = "([NewEdge ''source'' ''fanout''] @ fan_edges (nat k)) @ [NewEdge ''merge'' ''sink'']"
  have "\<exists>p. Build ord (FanOutFanIn_builder m k) = Inr p"
  proof (rule shape_builds [OF FanOutFanIn_shape _ _ _ assms])
    show "sides_ok (fan_types (nat k)) ?es"
      using True by (auto simp: sides_ok_def fan_types_def image_Un fan_edges_ends NewEdge_def)
    show "fan_types (nat k) ''source'' \<noteq> None" by (simp add: fan_types_def)
    let ?rank = "(\<lambda>_. 2) (''source'' := 0, ''fanout'' := 1, ''merge'' := 3, ''sink'' := 4 :: nat)"
    show "?rank (e_FromNode e) < ?rank (e_ToNode e)" if "e \<in> set ?es" for e
      using that by (auto simp: NewEdge_def fan_edges_def)
  qed
  with True show ?thesis by (simp add: BuildFanOutFanIn_def)
next
  case False
  then have "shape (FanOutFanIn_builder m k) (fan_types 0) [NewEdge ''source'' ''fanout'', NewEdge ''merge'' ''sink'']"
    using FanOutFanIn_shape [of m k] by (simp add: fan_edges_def)
  then have "violation (gb_graph (FanOutFanIn_builder m k)) (OperatorNoOutgoing ''fanout'')"
    by (auto simp: shape_def violation_def edge_rel_def NewEdge_def fan_types_def)
  moreover have "graph_ok (gb_graph (FanOutFanIn_builder m k))"
    using FanOutFanIn_shape [of m k] by (simp add: shape_def builder_ok_def)
  ultimately have "\<not> (\<exists>p. BuildFanOutFanIn ord m k = Inr p)"
    using assms Validate_exact [of "gb_graph (FanOutFanIn_builder m k)"]
    by (auto simp: BuildFanOutFanIn_def Build_iff orders_ok_def)
  with False show ?thesis by simp
qed

text \<open>Every map has an order: the one of its own list.\<close>

definition insertion_order :: "('s, 'u) GraphBuilder \<Rightarrow> build_order" where
  "insertion_order b =
     (let ks = map fst (g_nodes (gb_graph b))
      in \<lparr>bo_validate1 = ks, bo_validate2 = ks, bo_validate3 = ks,
          bo_sourceIDs = map fst (gb_sources b), bo_operatorIDs = map fst (gb_operators b), bo_sinkIDs = map fst (gb_sinks b),
          bo_sources = map fst (gb_sources b), bo_operators = map fst (gb_operators b), bo_sinks = map fst (gb_sinks b)\<rparr>)"

lemma insertion_order_ok: "builder_ok b \<Longrightarrow> orders_ok (insertion_order b) b"
  by (simp add: orders_ok_def insertion_order_def builder_ok_def graph_ok_def typed_map_def Let_def)

lemma harness_builders_ok:
  "builder_ok (LinearChain_builder m k)" "builder_ok (FanOutFanIn_builder m k)" "builder_ok (Amplifier_builder m k)"
  "builder_ok (two_branches name left op1 right op2 m)"
  using LinearChain_shape [of m k] FanOutFanIn_shape [of m k]
  by (simp_all add: shape_def Amplifier_builder_def two_branches_def Let_def AddSource_ok AddOperator_ok AddSink_ok Connect_ok
      builder_ok_new)

section \<open>Properties\<close>

text \<open>
  C40. The factories of the harness. Whatever their parameters and in whatever order the maps are
  visited, \<open>Build\<close> accepts the linear chain of any length, the two diamonds and the amplifier; it
  accepts the fan-out and fan-in graph exactly when it has a consumer, since otherwise its fan-out
  node has no output.
\<close>

theorem harness_graphs_build:
  assumes "orders_ok ord1 (LinearChain_builder m k)" "orders_ok ord2 (Diamond_builder m)"
    "orders_ok ord3 (SlowConsumerDiamond_builder m delay)" "orders_ok ord4 (FanOutFanIn_builder m k)"
    "orders_ok ord5 (Amplifier_builder m k)"
  shows "(\<exists>p. BuildLinearChain ord1 m k = Inr p) \<and> (\<exists>p. BuildDiamond ord2 m = Inr p) \<and>
    (\<exists>p. BuildSlowConsumerDiamond ord3 m delay = Inr p) \<and>
    ((\<exists>p. BuildFanOutFanIn ord4 m k = Inr p) \<longleftrightarrow> 0 < k) \<and> (\<exists>p. BuildAmplifier ord5 m k = Inr p)"
  using assms LinearChain_builds FanOutFanIn_builds Amplifier_builds
    two_branches_build [of "''left''" "''right''" ord2 "''diamond''"]
    two_branches_build [of "''fast''" "''slow''" ord3 "''slow-consumer-diamond''"]
  by (simp add: BuildDiamond_def Diamond_builder_def BuildSlowConsumerDiamond_def SlowConsumerDiamond_builder_def)

theorem harness_graphs_build_witness:
  "\<exists>p q. BuildLinearChain (insertion_order (LinearChain_builder 3 2)) 3 2 = Inr p \<and>
     BuildFanOutFanIn (insertion_order (FanOutFanIn_builder 3 2)) 3 2 = Inr q"
  using harness_graphs_build [where m = 3 and k = 2 and delay = 5, OF insertion_order_ok insertion_order_ok insertion_order_ok
      insertion_order_ok insertion_order_ok]
  by (simp add: harness_builders_ok Diamond_builder_def SlowConsumerDiamond_builder_def)

end
