(* ===== verification/Linear.thy ===== *)
theory Linear
  imports Network Harness
begin

text \<open>
  Linear pipelines: a source, operators one after the other, a sink. \<open>linear_runtimes\<close> says what
  \<open>Build\<close> makes of such a graph, \<open>stream_nodes\<close> what each node does with what it has taken (\<open>Flow\<close>),
  and \<open>stream_writer\<close> and \<open>stream_reader\<close> what passes through the buffers (\<open>Network\<close>). Put together,
  \<open>stream_delivers\<close>: each node has computed its function on a prefix of the stream of the source.
\<close>

section \<open>Linear graphs\<close>

definition linear :: "string list \<Rightarrow> ('s, 'u) GraphBuilder \<Rightarrow> bool" where
  "linear ids b \<longleftrightarrow> 2 \<le> length ids \<and> distinct ids \<and> set ids = {n. node_type (gb_graph b) n \<noteq> None} \<and>
     g_edges (gb_graph b) = links ids \<and> build_dlSink b = None"

definition built_node :: "('s, 'u) GraphBuilder \<Rightarrow> string \<Rightarrow> ('s, 'u) OperatorNode" where
  "built_node b n = the (map_of (gb_operators b @ gb_sinks b) n)"

lemma links_nth: "i < length ids - 1 \<Longrightarrow> links ids ! i = NewEdge (ids ! i) (ids ! Suc i)"
  by (simp add: links_def nth_tl)

lemma links_length [simp]: "length (links ids) = length ids - 1"
  by (simp add: links_def)

lemma edge_ids_links:
  assumes "distinct ids" "i < length ids"
  shows "edge_ids (\<lambda>e. e_ToNode e = ids ! i) (links ids) = (if i = 0 then [] else [i - 1])"
    and "edge_ids (\<lambda>e. e_FromNode e = ids ! i) (links ids) = (if Suc i < length ids then [i] else [])"
proof -
  have one: "filter (\<lambda>k. k = j) [0..<n] = (if j < n then [j] else [])" for j n :: nat
    by (induction n) auto
  have to: "e_ToNode (links ids ! k) = ids ! i \<longleftrightarrow> Suc k = i" if "k < length ids - 1" for k
    using that assms by (simp add: links_nth NewEdge_def nth_eq_iff_index_eq)
  then have "edge_ids (\<lambda>e. e_ToNode e = ids ! i) (links ids) = filter (\<lambda>k. Suc k = i) [0..<length ids - 1]"
    unfolding edge_ids_def by (intro filter_cong) auto
  also have "\<dots> = (if i = 0 then [] else [i - 1])"
    using assms(2) one [of "i - 1" "length ids - 1"] by (cases i) auto
  finally show "edge_ids (\<lambda>e. e_ToNode e = ids ! i) (links ids) = (if i = 0 then [] else [i - 1])" .
  have "e_FromNode (links ids ! k) = ids ! i \<longleftrightarrow> k = i" if "k < length ids - 1" for k
    using that assms by (simp add: links_nth NewEdge_def nth_eq_iff_index_eq)
  then have "edge_ids (\<lambda>e. e_FromNode e = ids ! i) (links ids) = filter (\<lambda>k. k = i) [0..<length ids - 1]"
    unfolding edge_ids_def by (intro filter_cong) auto
  with one [of i "length ids - 1"] show "edge_ids (\<lambda>e. e_FromNode e = ids ! i) (links ids) = (if Suc i < length ids then [i] else [])"
    by auto
qed

lemma nth_mem_ends:
  assumes "distinct ids" "i < length ids"
  shows "ids ! i \<in> set (butlast ids) \<longleftrightarrow> Suc i \<noteq> length ids" and "ids ! i \<in> set (tl ids) \<longleftrightarrow> i \<noteq> 0"
proof -
  have "ids ! i \<in> set (butlast ids) \<longleftrightarrow> (\<exists>k < length ids - 1. ids ! k = ids ! i)"
    by (auto simp: in_set_conv_nth nth_butlast)
  also have "\<dots> \<longleftrightarrow> i < length ids - 1" using assms by (auto simp: nth_eq_iff_index_eq)
  finally show "ids ! i \<in> set (butlast ids) \<longleftrightarrow> Suc i \<noteq> length ids" using assms(2) by auto
  have "ids ! i \<in> set (tl ids) \<longleftrightarrow> (\<exists>k < length ids - 1. ids ! Suc k = ids ! i)"
    by (auto simp: in_set_conv_nth nth_tl)
  also have "\<dots> \<longleftrightarrow> i \<noteq> 0"
  proof (cases i)
    case (Suc k)
    with assms(2) have "k < length ids - 1" by simp
    with Suc show ?thesis by blast
  qed (use assms in \<open>auto simp: nth_eq_iff_index_eq\<close>)
  finally show "ids ! i \<in> set (tl ids) \<longleftrightarrow> i \<noteq> 0" .
qed

text \<open>The types of the nodes of a linear graph without defects.\<close>

lemma linear_types:
  fixes b :: "('s, 'u) GraphBuilder"
  assumes ok: "builder_ok b" "orders_ok ord b" and built: "Build ord b = Inr p" and lin: "linear ids b" and i: "i < length ids"
  shows "node_type (gb_graph b) (ids ! i) =
    Some (if i = 0 then NodeTypeSource else if Suc i = length ids then NodeTypeSink else NodeTypeOperator)"
proof -
  let ?g = "gb_graph b"
  have "Validate (bo_validate1 ord) (bo_validate2 ord) (bo_validate3 ord) ?g = None" using built Build_iff by blast
  then have v: "\<not> violation ?g e" for e
    using Validate_exact [of ?g] ok by (simp add: builder_ok_def orders_ok_def)
  have ids: "distinct ids" "set ids = {n. node_type ?g n \<noteq> None}" "g_edges ?g = links ids" using lin by (simp_all add: linear_def)
  have "Domain (edge_rel ?g) = e_FromNode ` set (g_edges ?g)" "Range (edge_rel ?g) = e_ToNode ` set (g_edges ?g)"
    by (force simp: edge_rel_def)+
  then have "Domain (edge_rel ?g) = set (butlast ids)" "Range (edge_rel ?g) = set (tl ids)"
    by (simp_all add: ids(3) links_ends flip: set_map)
  then have dom: "ids ! i \<in> Domain (edge_rel ?g) \<longleftrightarrow> Suc i \<noteq> length ids" and rng: "ids ! i \<in> Range (edge_rel ?g) \<longleftrightarrow> i \<noteq> 0"
    using nth_mem_ends [OF ids(1) i] by simp_all
  have "node_type ?g (ids ! i) \<noteq> None" using ids(2) i nth_mem by blast
  then consider "node_type ?g (ids ! i) = Some NodeTypeSource" | "node_type ?g (ids ! i) = Some NodeTypeOperator"
    | "node_type ?g (ids ! i) = Some NodeTypeSink" using all_types by blast
  then show ?thesis
  proof cases
    case 1
    with v [of "SourceHasIncoming (ids ! i)"] rng show ?thesis by (simp add: violation_def)
  next
    case 2
    with v [of "OperatorNoIncoming (ids ! i)"] v [of "OperatorNoOutgoing (ids ! i)"] dom rng show ?thesis
      by (simp add: violation_def)
  next
    case 3
    with v [of "SinkHasOutgoing (ids ! i)"] v [of "DanglingNode (ids ! i)"] dom rng show ?thesis
      using lin by (cases "i = 0") (auto simp: violation_def linear_def)
  qed
qed


text \<open>The runtime of the \<open>i\<close>-th node of a linear graph.\<close>

definition chain_runtime :: "('s, 'u) GraphBuilder \<Rightarrow> string list \<Rightarrow> nat \<Rightarrow> ('s, 'u) NodeRuntime \<Rightarrow> bool" where
  "chain_runtime b ids i r \<longleftrightarrow>
     nr_inputs r = (if i = 0 then [] else [i - 1]) \<and> nr_outputs r = (if Suc i < length ids then [i] else []) \<and>
     nr_activeInputs r = 1 \<and> idle_single r \<and>
     (if i = 0 then (\<exists>n. nr_node r = SrcNode n) \<and> nr_tickInterval r = 0
      else \<exists>x op s. nr_node r = OpNode x \<and> built_node b (ids ! i) = NewOperatorNode (ids ! i) op s \<and>
             on_operator x = op \<and> on_state x = s \<and> (on_timerMgr x \<longleftrightarrow> op_HandleTimer op \<noteq> None) \<and>
             on_outputs x = nr_outputs r \<and> (op_HandleTick op = None \<longrightarrow> nr_tickInterval r = 0))"

lemma wire_operator_frame:
  "on_operator (wire_operator wi n h op) = on_operator op" "on_state (wire_operator wi n h op) = on_state op"
  "on_timerMgr (wire_operator wi n h op) = on_timerMgr op"
  by (auto simp: wire_operator_def OperatorNode_SetOutputs_def OperatorNode_SetPortOutputs_def OperatorNode_SetOnError_def
      Let_def split: option.splits)

lemma single_aligner:
  assumes "length (nr_inputs (NewNodeRuntime cfg)) \<le> 1"
  shows "idle_single (NewNodeRuntime cfg)" "nr_activeInputs (NewNodeRuntime cfg) = 1"
  using assms by (auto simp: idle_single_def NewNodeRuntime_def NewBarrierAligner_def Let_def le_Suc_eq)

lemma linear_runtimes:
  fixes b :: "('s, 'u) GraphBuilder"
  assumes ok: "builder_ok b" "orders_ok ord b" and built: "Build ord b = Inr p" and lin: "linear ids b"
  shows "length (p_runtimes p) = length ids" "p_dlRuntime p = None"
    and "i < length ids \<Longrightarrow> \<exists>j < length ids. Node_ID (nr_node (p_runtimes p ! j)) = ids ! i"
    and "j < length ids \<Longrightarrow> \<exists>i < length ids. Node_ID (nr_node (p_runtimes p ! j)) = ids ! i"
    and "j < length ids \<Longrightarrow> i < length ids \<Longrightarrow> Node_ID (nr_node (p_runtimes p ! j)) = ids ! i \<Longrightarrow> chain_runtime b ids i (p_runtimes p ! j)"
proof -
  let ?id = "Node_ID \<circ> nr_node"
  note wired = build_nodes_wired [OF ok built] and nodes = orders_nodes [OF ok]
  have ids: "distinct ids" "set ids = {n. node_type (gb_graph b) n \<noteq> None}" "g_edges (gb_graph b) = links ids"
    using lin by (simp_all add: linear_def)
  have set_ids: "set (map ?id (p_runtimes p)) = set ids" and dist: "distinct (map ?id (p_runtimes p))"
    unfolding wired(1) ids(2) using nodes by (auto simp only: all_types set_append distinct_append)
  then show len: "length (p_runtimes p) = length ids" by (metis ids(1) distinct_card length_map)
  show "p_dlRuntime p = None"
    using built lin by (auto simp: linear_def Build_def Let_def split: option.splits)
  show "\<exists>j < length ids. Node_ID (nr_node (p_runtimes p ! j)) = ids ! i" if "i < length ids"
  proof -
    have "ids ! i \<in> set (map ?id (p_runtimes p))" using that set_ids by simp
    then show ?thesis by (auto simp: in_set_conv_nth len)
  qed
  show "\<exists>i < length ids. Node_ID (nr_node (p_runtimes p ! j)) = ids ! i" if "j < length ids"
  proof -
    have "?id (p_runtimes p ! j) \<in> set ids" unfolding set_ids [symmetric] using that len by auto
    then show ?thesis by (auto simp: in_set_conv_nth)
  qed
  show "chain_runtime b ids i (p_runtimes p ! j)"
    if j: "j < length ids" and i: "i < length ids" and id: "Node_ID (nr_node (p_runtimes p ! j)) = ids ! i"
  proof -
    let ?r = "p_runtimes p ! j"
    have r: "?r \<in> set (p_runtimes p)" using j len by simp
    with wired(2) have "wired (links ids) ?r" by (simp add: list_all_iff ids(3))
    then have io: "nr_inputs ?r = (if i = 0 then [] else [i - 1])" "nr_outputs ?r = (if Suc i < length ids then [i] else [])"
      "node_outputs (nr_node ?r) = nr_outputs ?r"
      by (simp_all add: wired_def id edge_ids_links [OF ids(1) i])
    note type = linear_types [OF ok built lin i]
    obtain wi :: "'u wiring" and h where rts: "p_runtimes p =
       map (\<lambda>n. source_runtime wi n h (the (map_of (gb_sources b) n))) (bo_sources ord) @
       map (\<lambda>n. operator_runtime wi n h (the (map_of (gb_operators b) n))) (bo_operators ord) @
       map (\<lambda>n. sink_runtime wi n h (the (map_of (gb_sinks b) n))) (bo_sinks ord)"
      using built by (rule Build_parts)
    have src: "typed_map NodeTypeSource (gb_graph b) fresh_source (gb_sources b)"
      and op: "typed_map NodeTypeOperator (gb_graph b) fresh_operator (gb_operators b)"
      and sink: "typed_map NodeTypeSink (gb_graph b) fresh_operator (gb_sinks b)"
      using ok(1) by (simp_all add: builder_ok_def)
    have single: "idle_single (NewNodeRuntime cfg) \<and> nr_activeInputs (NewNodeRuntime cfg) = 1" if "?r = NewNodeRuntime cfg" for cfg
      using single_aligner [of cfg] io(1) that by (simp split: if_splits)
    from r consider (source) n where "n \<in> set (bo_sources ord)" "?r = source_runtime wi n h (the (map_of (gb_sources b) n))"
      | (operator) n where "n \<in> set (bo_operators ord)" "?r = operator_runtime wi n h (the (map_of (gb_operators b) n))"
      | (sink) n where "n \<in> set (bo_sinks ord)" "?r = sink_runtime wi n h (the (map_of (gb_sinks b) n))"
      by (auto simp: rts)
    then show ?thesis
    proof cases
      case source
      then have t: "node_type (gb_graph b) n = Some NodeTypeSource" using nodes(1) by auto
      have "n = ids ! i"
        using id typed_map_fresh [OF src t] unfolding source(2) by (simp add: source_runtime_def NewNodeRuntime_def wire_source_eq Let_def)
      with t type have "i = 0" by (simp split: if_splits)
      with io single [OF source(2) [unfolded source_runtime_def]] show ?thesis
        unfolding source(2) by (simp add: chain_runtime_def source_runtime_def) (simp add: NewNodeRuntime_def Let_def)
    next
      case operator
      then have t: "node_type (gb_graph b) n = Some NodeTypeOperator" using nodes(3) by auto
      note fr = typed_map_fresh [OF op t]
      then obtain o' s where o: "the (map_of (gb_operators b) n) = NewOperatorNode n o' s" by (auto simp: fresh_operator_def)
      have n: "n = ids ! i"
        using id fr unfolding operator(2) by (simp add: operator_runtime_def NewNodeRuntime_def wire_operator_eq Let_def)
      with t type have i0: "i \<noteq> 0" by (auto split: if_splits)
      have "map_of (gb_operators b) n \<noteq> None" using op t unfolding typed_map_def by blast
      then have bn: "built_node b n = NewOperatorNode n o' s" using o by (auto simp: built_node_def)
      show ?thesis
        using io single [OF operator(2) [unfolded operator_runtime_def Let_def]] i0 bn unfolding operator(2) n o [unfolded n]
        by (simp add: chain_runtime_def operator_runtime_def Let_def)
          (auto simp: NewNodeRuntime_def wire_operator_frame NewOperatorNode_def Let_def)
    next
      case sink
      then have t: "node_type (gb_graph b) n = Some NodeTypeSink" using nodes(5) by auto
      note fr = typed_map_fresh [OF \<open>typed_map NodeTypeSink (gb_graph b) fresh_operator (gb_sinks b)\<close> t]
      then obtain o' s where o: "the (map_of (gb_sinks b) n) = NewOperatorNode n o' s" by (auto simp: fresh_operator_def)
      have n: "n = ids ! i"
        using id fr unfolding sink(2) by (simp add: sink_runtime_def NewNodeRuntime_def wire_operator_eq Let_def)
      with t type have i0: "i \<noteq> 0" "Suc i = length ids" by (auto split: if_splits)
      have "map_of (gb_operators b) n = None" using op t unfolding typed_map_def by (metis NodeType.distinct(5) option.inject)
      then have bn: "built_node b n = NewOperatorNode n o' s" using o by (simp add: built_node_def map_add_def split: option.split)
      show ?thesis
        using io single [OF sink(2) [unfolded sink_runtime_def]] i0 bn unfolding sink(2) n o [unfolded n]
        by (simp add: chain_runtime_def sink_runtime_def)
          (simp add: NewNodeRuntime_def wire_operator_frame NewOperatorNode_def Let_def)
    qed
  qed
qed


lemma linear_same:
  assumes ok: "builder_ok b" "orders_ok ord b" and built: "Build ord b = Inr p" and lin: "linear ids b"
    and "j < length ids" "j' < length ids" "Node_ID (nr_node (p_runtimes p ! j)) = Node_ID (nr_node (p_runtimes p ! j'))"
  shows "j = j'"
proof -
  have "distinct (map (Node_ID \<circ> nr_node) (p_runtimes p))"
    unfolding build_nodes_wired(1) [OF ok built] using orders_nodes [OF ok] by (auto simp only: set_append distinct_append)
  with assms(5-) linear_runtimes(1) [OF ok built lin] show ?thesis by (simp add: distinct_conv_nth) blast
qed

section \<open>What a step of the network does to one node\<close>

lemma put_into_nodes:
  assumes "put_into who x nt = Some nt'"
  shows "length (nt_nodes nt') = length (nt_nodes nt) \<and>
    (nt_nodes nt' ! j = nt_nodes nt ! j \<or> (\<exists>ev. rt_exec ev (nt_nodes nt ! j) = Some (nt_nodes nt' ! j)))"
proof -
  obtain i k st where "env_input k (snd x) (nt_nodes nt ! i) = Some st"
    "nt' = nt\<lparr>nt_nodes := (nt_nodes nt)[i := st], nt_log := nt_log nt @ [(who, x)]\<rparr>"
    using assms by (auto simp: put_into_def split: option.splits)
  moreover from this(1) have "rt_exec (EnvInput k (snd x)) (nt_nodes nt ! i) = Some st" by simp
  ultimately show ?thesis
    by (cases "i < length (nt_nodes nt)"; cases "j = i"; simp add: list_update_beyond; blast)
qed

lemma net_exec_nodes:
  assumes "net_exec ev nt = Some nt'"
  shows "length (nt_nodes nt') = length (nt_nodes nt) \<and>
    (nt_nodes nt' ! j = nt_nodes nt ! j \<or> (\<exists>ev. rt_exec ev (nt_nodes nt ! j) = Some (nt_nodes nt' ! j)))"
proof (cases ev)
  case (NodeStep i e)
  then obtain st where "i < length (nt_nodes nt)" "rt_exec e (nt_nodes nt ! i) = Some st" "nt' = nt\<lparr>nt_nodes := (nt_nodes nt)[i := st]\<rparr>"
    using assms by (auto split: if_splits)
  then show ?thesis by (cases "j = i") auto
next
  case (SourceStops i)
  then obtain st where "i < length (nt_nodes nt)" "rt_exec EnvCancel (nt_nodes nt ! i) = Some st"
    "nt' = nt\<lparr>nt_nodes := (nt_nodes nt)[i := st], nt_running := removeAll i (nt_running nt)\<rparr>"
    using assms by (auto simp del: rt_exec.simps split: if_splits)
  then show ?thesis by (cases "j = i") (auto simp del: rt_exec.simps)
next
  case (MoveSent i)
  let ?x = "w_sent (rt_w (nt_nodes nt ! i)) ! nt_moved nt i"
  obtain nt1 where "put_into (FromLoop i) ?x nt = Some nt1" "nt_nodes nt' = nt_nodes nt1"
    using assms MoveSent by (auto split: if_splits)
  with put_into_nodes [OF this(1)] show ?thesis by simp
next
  case (SourceSends i)
  then obtain x rest nt1 where "put_into (FromSource i) x nt = Some nt1" "nt_nodes nt' = nt_nodes nt1"
    using assms by (cases "nt_source nt i") auto
  with put_into_nodes [OF this(1)] show ?thesis by simp
qed

lemma net_run_node:
  assumes "net_run evs nt = Some nt'" "P (nt_nodes nt ! j)" "\<And>ev st st'. P st \<Longrightarrow> rt_exec ev st = Some st' \<Longrightarrow> P st'"
  shows "P (nt_nodes nt' ! j)"
  using assms(1,2)
proof (induction evs arbitrary: nt)
  case (Cons ev evs)
  then obtain nt1 where nt1: "net_exec ev nt = Some nt1" "net_run evs nt1 = Some nt'" by (auto split: option.splits)
  with net_exec_nodes [OF nt1(1), of j] Cons.prems(2) assms(3) have "P (nt_nodes nt1 ! j)" by auto
  with Cons.IH [OF nt1(2)] show ?case .
qed simp

lemma net_run_length: "net_run evs nt = Some nt' \<Longrightarrow> length (nt_nodes nt') = length (nt_nodes nt)"
  by (induction evs arbitrary: nt) (auto split: option.splits dest: net_exec_nodes)

text \<open>Every message that passes through a node comes from one of its inputs.\<close>

definition indices_ok :: "('s, 'u) rt_state \<Rightarrow> bool" where
  "indices_ok st \<longleftrightarrow> list_all (\<lambda>im. im_InputIndex im < length (nr_inputs (rt_nr st))) (rt_taken st @ in_channel st)"

lemma loop_move_keeps:
  "loop_move st st' \<Longrightarrow> rt_taken st' = rt_taken st \<and> in_channel st' = in_channel st \<and> nr_inputs (rt_nr st') = nr_inputs (rt_nr st)"
  by (auto simp: loop_move_def in_channel_def loop_core_def finish_def Let_def)

lemma indices_move: "loop_move st st' \<Longrightarrow> indices_ok st' = indices_ok st"
  by (simp add: indices_ok_def loop_move_keeps)

lemma indices_take: "nr_merged (rt_nr st) = Some (im # ims) \<Longrightarrow> indices_ok (take_im im ims st) = indices_ok st"
  by (auto simp: indices_ok_def take_im_def in_channel_def)

lemma indices_step:
  assumes "indices_ok st" "rt_exec ev st = Some st'"
  shows "indices_ok st'"
proof (cases "ev \<in> {LoopHead, LoopDone, LoopControl, LoopMerged, LoopTimer, LoopTick, WaitDone, WaitControl}")
  case True
  with rt_exec_loop [OF assms(2) True] assms(1) show ?thesis
    using indices_move indices_take by blast
next
  case False
  then show ?thesis
    using assms
    by (cases ev) (auto simp: indices_ok_def in_channel_def is_input_def merger_receives_def merger_puts_def merger_done_def close_merged_def
        env_input_def env_control_def SendControl_def Runtime_Stop_def Let_def
      split: if_splits recv_outcome.splits send_outcome.splits merger.splits option.splits)
qed

lemma of_input_single_input:
  assumes "indices_ok st" "length (nr_inputs (rt_nr st)) = 1"
  shows "of_input 0 (rt_taken st) = map im_Msg (rt_taken st)"
proof -
  have "filter (\<lambda>im. im_InputIndex im = 0) (rt_taken st) = rt_taken st"
    using assms by (auto simp: indices_ok_def filter_id_conv list_all_iff)
  then show ?thesis by (simp add: of_input_def)
qed


section \<open>The runtime of a source\<close>

text \<open>The main loop of a source has no inputs; it sends barriers and nothing else.\<close>

definition only_signals :: "nat list \<Rightarrow> 'u World \<Rightarrow> bool" where
  "only_signals outs w \<longleftrightarrow> (\<forall>x \<in> set (w_sent w). fst x \<in> set outs \<and> item_of (snd x) = [])"

definition source_quiet :: "nat list \<Rightarrow> ('s, 'u) rt_state \<Rightarrow> bool" where
  "source_quiet outs st \<longleftrightarrow> (\<exists>n. nr_node (rt_nr st) = SrcNode n) \<and> nr_inputs (rt_nr st) = [] \<and> nr_outputs (rt_nr st) = outs \<and>
     nr_merged (rt_nr st) = None \<and> nr_tickInterval (rt_nr st) = 0 \<and> rt_point st \<in> {AtHead, AtSelect False, Exited} \<and>
     only_signals outs (rt_w st)"

lemma only_signals_cong: "only_signals outs w \<Longrightarrow> w_sent w' = w_sent w \<Longrightarrow> only_signals outs w'"
  by (simp add: only_signals_def)

lemma only_signals_ignoring:
  assumes "only_signals outs w" "item_of m = []" "set outs' \<subseteq> set outs"
  shows "only_signals outs (send_ignoring m outs' w)"
  unfolding send_ignoring_def using assms(1,3)
proof (induction outs' arbitrary: w)
  case (Cons out outs')
  have "only_signals outs (fst (Send out m w))"
    using Cons.prems assms(2) by (auto simp: Send_def only_signals_def Let_def split: option.splits)
  with Cons.IH Cons.prems(2) show ?case by simp
qed simp

lemma source_control:
  assumes "nr_node nr = SrcNode n" "only_signals (nr_outputs nr) w" "handleControl ctrl nr w = (nr', w')"
  shows "nr_node nr' = nr_node nr \<and> nr_inputs nr' = nr_inputs nr \<and> nr_outputs nr' = nr_outputs nr \<and> nr_merged nr' = nr_merged nr \<and>
    nr_tickInterval nr' = nr_tickInterval nr \<and> only_signals (nr_outputs nr) w'"
proof (cases "cm_Type ctrl = ControlTypeCheckpointRequest \<and> cm_Checkpoint ctrl \<noteq> None")
  case False
  with assms show ?thesis by (auto simp: handleControl_def split: ControlType.splits option.splits)
next
  case True
  then obtain req where req: "cm_Type ctrl = ControlTypeCheckpointRequest" "cm_Checkpoint ctrl = Some req" by auto
  obtain now w1 where now: "Now w = (now, w1)" by fastforce
  define barrier where "barrier = NewBarrierSignal now (cr_Epoch req) (cr_MinEpoch req) (cr_ThenStop req)"
  obtain r where hc: "Node_HandleCheckpoint (the (sm_Barrier barrier)) (nr_node nr) w1 = (nr_node nr, r)"
    using assms(1) by simp
  have "only_signals (nr_outputs nr) w1"
    by (rule only_signals_cong [OF assms(2)]) (use now in \<open>auto simp: Now_def\<close>)
  then have "only_signals (nr_outputs nr) (send_ignoring (NewSignalMessage barrier) (nr_outputs nr) w1)"
    by (rule only_signals_ignoring) (simp_all add: barrier_def)
  moreover have "w' = send_ignoring (NewSignalMessage barrier) (nr_outputs nr) w1"
    "nr_node nr' = nr_node nr" "nr_inputs nr' = nr_inputs nr" "nr_outputs nr' = nr_outputs nr" "nr_merged nr' = nr_merged nr"
    "nr_tickInterval nr' = nr_tickInterval nr"
    using assms(3) hc by (auto simp: handleControl_def req now barrier_def [symmetric] report_completion_def Runtime_Stop_def Let_def)
  ultimately show ?thesis by simp
qed

lemma source_quiet_step:
  assumes "source_quiet outs st" "rt_exec ev st = Some st'"
  shows "source_quiet outs st'"
proof (cases ev)
  case LoopControl
  then obtain ctrl ctrls where st': "st' = run_control ctrl (st\<lparr>rt_nr := (rt_nr st)\<lparr>nr_controlCh := ctrls\<rparr>\<rparr>)"
    using assms(2) by (auto simp: pop_control_def split: loop_point.splits list.splits)
  obtain nr w where hc: "handleControl ctrl ((rt_nr st)\<lparr>nr_controlCh := ctrls\<rparr>) (rt_w st) = (nr, w)" by fastforce
  obtain n where n: "nr_node (rt_nr st) = SrcNode n" using assms(1) by (auto simp: source_quiet_def)
  from source_control [OF _ _ hc] assms(1) n show ?thesis
    unfolding st' by (auto simp: source_quiet_def run_control_def hc finish_def Let_def)
qed (use assms in \<open>auto simp: source_quiet_def run_head_def run_cancelled_def finish_def merger_receives_def merger_puts_def
      merger_done_def close_merged_def is_input_def env_input_def env_control_def SendControl_def Runtime_Stop_def Let_def
    split: loop_point.splits if_splits recv_outcome.splits send_outcome.splits merger.splits option.splits\<close>)


section \<open>Composition\<close>

lemma prefix_streams:
  "prefix xs ys \<Longrightarrow> prefix (stream xs) (stream ys)" "prefix as bs \<Longrightarrow> prefix (image_stream f as) (image_stream f bs)"
  "prefix as bs \<Longrightarrow> prefix (datas as) (datas bs)" "prefix l l' \<Longrightarrow> prefix (sent_to k l) (sent_to k l')"
  by (auto simp: prefix_def)

lemma image_stream_Some: "image_stream f (map Some ds) = map Some (concat (map f ds))"
  by (induction ds) (simp_all add: image_stream_def)

text \<open>A buffer that has one writer, apart from signals.\<close>

lemma stream_one_writer:
  assumes "\<And>x. x \<in> set log \<Longrightarrow> fst (snd x) = k \<Longrightarrow> item_of (snd (snd x)) \<noteq> [] \<Longrightarrow> fst x = who"
  shows "stream (put_in k log) = stream (sent_to k (put_by who log))"
  using assms
proof (induction log)
  case (Cons x log)
  obtain who' k' m where x: "x = (who', k', m)" by (cases x)
  have "stream (put_in k log) = stream (sent_to k (put_by who log))" by (rule Cons.IH) (rule Cons.prems; simp)
  moreover have "k' = k \<Longrightarrow> who' \<noteq> who \<Longrightarrow> item_of m = []" using Cons.prems [of x] x by auto
  ultimately show ?case by (auto simp: put_in_def put_by_def x)
qed simp

lemma log_origin:
  assumes "net_inv programs nt" "x \<in> set (nt_log nt)"
  shows "fst x = FromLoop j \<Longrightarrow> j < length (nt_nodes nt) \<Longrightarrow> snd x \<in> set (w_sent (rt_w (nt_nodes nt ! j)))"
    and "fst x = FromSource j \<Longrightarrow> snd x \<in> set (programs j)"
proof -
  have x: "snd x \<in> set (put_by (fst x) (nt_log nt))" using assms(2) by (auto simp: put_by_def)
  show "snd x \<in> set (w_sent (rt_w (nt_nodes nt ! j)))" if "fst x = FromLoop j" "j < length (nt_nodes nt)"
    using x that assms(1) by (auto simp: net_inv_def dest: in_set_takeD)
  show "snd x \<in> set (programs j)" if "fst x = FromSource j"
  proof -
    have "set (put_by (FromSource j) (nt_log nt)) \<subseteq> set (programs j)" using assms(1) by (metis net_inv_def set_append Un_upper1)
    with x that show ?thesis by auto
  qed
qed

definition loops_known :: "('s, 'u) net \<Rightarrow> bool" where
  "loops_known nt \<longleftrightarrow> (\<forall>x \<in> set (nt_log nt). \<forall>j. fst x = FromLoop j \<longrightarrow> j < length (nt_nodes nt))"

lemma loops_known_step: "loops_known nt \<Longrightarrow> net_exec ev nt = Some nt' \<Longrightarrow> loops_known nt'"
  by (cases ev) (auto simp: loops_known_def put_into_def split: if_splits option.splits list.splits)

lemma loops_known_run: "net_run evs nt = Some nt' \<Longrightarrow> loops_known nt \<Longrightarrow> loops_known nt'"
  by (induction evs arbitrary: nt) (auto split: option.splits dest: loops_known_step)

text \<open>A source that sends exactly some items, and what its goroutine puts into the first buffer.\<close>

definition emits_items :: "'u Source \<Rightarrow> 'u DataMessage list \<Rightarrow> bool" where
  "emits_items src items \<longleftrightarrow>
     (\<forall>c w. sends_ok w \<longrightarrow>
        (\<exists>w' r. src c w = Some (w', r) \<and>
           w_sent w' = w_sent w @ concat (map (\<lambda>d. map (\<lambda>out. (out, data_message d)) (rc_outputs c)) items)))"

definition source_output :: "nat \<Rightarrow> 'u DataMessage list \<Rightarrow> (nat \<times> 'u Message) list" where
  "source_output k items = map (\<lambda>d. (k, data_message d)) items @ [(k, NewSignalMessage NewStopSignal)]"

lemma stream_source_output:
  "stream (sent_to k (source_output k items)) = map Some items @ [None]"
  by (induction items) (simp_all add: source_output_def)

lemma source_log_items:
  assumes "sn_outputs s = [k]" "emits_items (sn_source s) items" "sends_ok w" "w_sent w = []"
  shows "source_log [k] s rt w = source_output k items"
proof -
  let ?c = "\<lparr>rc_outputs = sn_outputs s, rc_portOutputs = sn_portOutputs s, rc_timerMgr = False,
    rc_nodeID = sn_id s, rc_onError = sn_onError s\<rparr>"
  obtain w' r where "sn_source s ?c w = Some (w', r)"
    "w_sent w' = w_sent w @ concat (map (\<lambda>d. map (\<lambda>out. (out, data_message d)) (rc_outputs ?c)) items)"
    using assms(2,3) unfolding emits_items_def by blast
  then show ?thesis
    using assms(1,4)
    by (simp add: source_log_def source_goroutine_def RunSource_def source_output_def)
qed

lemma distinct_single: "distinct xs \<Longrightarrow> set xs = {x} \<Longrightarrow> xs = [x]"
  by (cases xs) (auto simp: subset_singleton_iff)

lemma Build_sources:
  fixes b :: "('s, 'u) GraphBuilder"
  defines "wi \<equiv> wire_edges (gb_bufferSizes b) (g_edges (gb_graph b)) :: 'u wiring"
  assumes "Build ord b = Inr p"
  shows "p_sourceRuntimes p = [0..<length (bo_sources ord)]"
    and "p_sourceNodes p = map (\<lambda>n. wire_source wi n
      (makeErrorHandler (build_errCfg b) (map_option (\<lambda>_. length (wi_allBuffers wi)) (build_dlSink b)))
      (the (map_of (gb_sources b) n))) (bo_sources ord)"
    and "p_sourceOutputs p = map (\<lambda>n. (n, slice_at (wi_nodeOutputs wi) n)) (bo_sources ord)"
  using assms by (auto simp: Build_def Let_def Graph_Edges_def split: option.splits)

lemma linear_sources:
  fixes b :: "('s, 'u) GraphBuilder"
  assumes ok: "builder_ok b" "orders_ok ord b" and built: "Build ord b = Inr p" and lin: "linear ids b"
  shows "bo_sources ord = [ids ! 0]"
proof -
  have len: "0 < length ids" using lin by (auto simp: linear_def)
  have "set (bo_sources ord) = {ids ! 0}"
  proof
    show "{ids ! 0} \<subseteq> set (bo_sources ord)"
      using orders_nodes(1) [OF ok] linear_types [OF ok built lin len] by simp
    show "set (bo_sources ord) \<subseteq> {ids ! 0}"
    proof
      fix n assume "n \<in> set (bo_sources ord)"
      then have n: "node_type (gb_graph b) n = Some NodeTypeSource" using orders_nodes(1) [OF ok] by simp
      then have "n \<in> set ids" using lin by (simp add: linear_def)
      then obtain i where "i < length ids" "n = ids ! i" by (auto simp: in_set_conv_nth)
      with n linear_types [OF ok built lin, of i] show "n \<in> {ids ! 0}" by (cases "i = 0") (auto split: if_splits)
    qed
  qed
  then show ?thesis
    by (rule distinct_single [OF orders_nodes(2) [OF ok]])
qed

lemma linear_source:
  fixes b :: "('s, 'u) GraphBuilder"
  assumes ok: "builder_ok b" "orders_ok ord b" and built: "Build ord b = Inr p" and lin: "linear ids b"
    and src: "emits_items (sn_source (the (map_of (gb_sources b) (ids ! 0)))) items"
    and w: "sends_ok (sw 0)" "w_sent (sw 0) = []"
  shows "source_program p sw = (\<lambda>i. if i = 0 then source_output 0 items else [])"
proof -
  let ?wi = "wire_edges (gb_bufferSizes b) (g_edges (gb_graph b)) :: 'u wiring"
  have len: "0 < length ids" "distinct ids" "2 \<le> length ids" using lin by (auto simp: linear_def)
  note one = linear_sources [OF ok built lin]
  let ?h = "makeErrorHandler (build_errCfg b) (map_option (\<lambda>_. length (wi_allBuffers ?wi)) (build_dlSink b))"
  note parts = Build_sources [OF built, unfolded one]
  have outs: "slice_at (wi_nodeOutputs ?wi) (ids ! 0) = [0]"
    using edge_ids_links(2) [OF len(2,1)] lin by (simp add: wire_edges_slices linear_def)
  let ?s = "wire_source ?wi (ids ! 0) ?h (the (map_of (gb_sources b) (ids ! 0)))"
  have t: "typed_map NodeTypeSource (gb_graph b) fresh_source (gb_sources b)" using ok(1) by (simp add: builder_ok_def)
  have fr: "fresh_source (ids ! 0) (the (map_of (gb_sources b) (ids ! 0)))"
    by (rule typed_map_fresh [OF t]) (use linear_types [OF ok built lin len(1)] in simp)
  have s: "sn_id ?s = ids ! 0" "sn_outputs ?s = [0]"
    by (rule wire_source_eq(1) [OF fr], rule trans [OF wire_source_eq(2) [OF fr] outs])
  have ss: "sn_source ?s = sn_source (the (map_of (gb_sources b) (ids ! 0)))"
    by (auto simp: wire_source_def SourceNode_SetOutputs_def SourceNode_SetPortOutputs_def SourceNode_SetOnError_def Let_def
        split: option.splits)
  show ?thesis
  proof
    fix i
    have "source_log [0] ?s (all_runtimes p ! 0) (sw 0) = source_output 0 items"
      by (rule source_log_items [OF s(2) _ w]) (simp only: ss src)
    then show "source_program p sw i = (if i = 0 then source_output 0 items else [])"
      using outs by (simp add: source_program_def parts s slice_at_def)
  qed
qed


lemma chain_start:
  assumes r: "chain_runtime b ids i r" and w: "sends_ok w" "w_sent w = []"
  shows "i = 0 \<Longrightarrow> 2 \<le> length ids \<Longrightarrow> source_quiet [0] (start_state pc r w bufs)"
    and "i \<noteq> 0 \<Longrightarrow> stream_operator (on_operator (built_node b (ids ! i))) f upd \<Longrightarrow>
      stream_operator.node_flow (on_operator (built_node b (ids ! i))) f upd (on_state (built_node b (ids ! i)))
        (if Suc i < length ids then [i] else []) (start_state pc r w bufs)"
    and "nr_merged r = Some [] \<Longrightarrow> indices_ok (start_state pc r w bufs)"
proof -
  show "source_quiet [0] (start_state pc r w bufs)" if "i = 0" "2 \<le> length ids"
    using r w that by (auto simp: source_quiet_def chain_runtime_def start_state_def Runtime_Start_def only_signals_def Let_def)
  show "stream_operator.node_flow (on_operator (built_node b (ids ! i))) f upd (on_state (built_node b (ids ! i)))
        (if Suc i < length ids then [i] else []) (start_state pc r w bufs)"
    if i: "i \<noteq> 0" and so: "stream_operator (on_operator (built_node b (ids ! i))) f upd"
  proof -
    let ?bn = "built_node b (ids ! i)" and ?outs = "if Suc i < length ids then [i] else []"
    obtain x op s where x: "nr_node r = OpNode x" "?bn = NewOperatorNode (ids ! i) op s" "on_operator x = op" "on_state x = s"
      "on_timerMgr x \<longleftrightarrow> op_HandleTimer op \<noteq> None" "on_outputs x = nr_outputs r" "op_HandleTick op = None \<longrightarrow> nr_tickInterval r = 0"
      using r i by (auto simp: chain_runtime_def)
    have bn: "on_operator ?bn = op" "on_state ?bn = s" by (simp_all add: x(2) NewOperatorNode_def)
    have "op_HandleTimer op = None" "op_HandleTick op = None"
      using stream_operator.no_timers [OF so] stream_operator.no_tick [OF so] by (simp_all add: bn)
    then have "flows op f upd s ?outs [] (Runtime_Start pc r) w"
      using r i w x by (auto simp: flows_def chain_runtime_def idle_single_def Runtime_Start_def image_sent_def Let_def)
    then show ?thesis
      unfolding bn stream_operator.node_flow_def [OF so [unfolded bn]] by (auto simp: start_state_def taken_stream_def)
  qed
  show "indices_ok (start_state pc r w bufs)" if "nr_merged r = Some []"
    using that by (simp add: indices_ok_def start_state_def in_channel_def Runtime_Start_def Let_def)
qed


text \<open>A linear pipeline of stream operators: node \<open>i\<close> answers a message by \<open>f i\<close> and updates its state by \<open>upd i\<close>.\<close>

definition stream_pipeline ::
  "string list \<Rightarrow> ('s, 'u) GraphBuilder \<Rightarrow> (nat \<Rightarrow> 'u DataMessage \<Rightarrow> 'u DataMessage list) \<Rightarrow> (nat \<Rightarrow> 'u DataMessage \<Rightarrow> 's \<Rightarrow> 's) \<Rightarrow>
     'u DataMessage list \<Rightarrow> bool" where
  "stream_pipeline ids b f upd items \<longleftrightarrow> linear ids b \<and>
     (\<forall>i. 0 < i \<and> i < length ids \<longrightarrow>
        stream_operator (on_operator (built_node b (ids ! i))) (f i) (upd i) \<and> data_emitter (on_operator (built_node b (ids ! i)))) \<and>
     emits_items (sn_source (the (map_of (gb_sources b) (ids ! 0)))) items"

text \<open>What node \<open>n\<close> sends: the items of the source, mapped by the operators up to \<open>n\<close>.\<close>

primrec chain_items :: "(nat \<Rightarrow> 'u DataMessage \<Rightarrow> 'u DataMessage list) \<Rightarrow> 'u DataMessage list \<Rightarrow> nat \<Rightarrow> 'u DataMessage list" where
  "chain_items f items 0 = items"
| "chain_items f items (Suc n) = concat (map (f (Suc n)) (chain_items f items n))"

definition clean_world :: "'u World \<Rightarrow> bool" where
  "clean_world w \<longleftrightarrow> sends_ok w \<and> w_sent w = []"

lemma stream_emitters:
  fixes b :: "('s, 'u) GraphBuilder"
  assumes ok: "builder_ok b" "orders_ok ord b" and built: "Build ord b = Inr p" and sp: "stream_pipeline ids b f upd items"
    and r: "r \<in> set (all_runtimes p)" "nr_node r = OpNode n"
  shows "data_emitter (on_operator n)"
proof -
  have lin: "linear ids b" using sp by (simp add: stream_pipeline_def)
  note rts = linear_runtimes [OF ok built lin]
  obtain j where j: "j < length ids" "r = p_runtimes p ! j" using r(1) by (auto simp: all_runtimes_def rts(1,2) in_set_conv_nth)
  with rts(4) obtain i where i: "i < length ids" "Node_ID (nr_node r) = ids ! i" by blast
  have c: "chain_runtime b ids i r" using rts(5) [OF j(1) i(1)] i(2) j(2) by simp
  then have "i \<noteq> 0" using r(2) by (cases "i = 0") (auto simp: chain_runtime_def)
  with c r(2) have "on_operator n = on_operator (built_node b (ids ! i))" by (auto simp: chain_runtime_def NewOperatorNode_def)
  with \<open>i \<noteq> 0\<close> i(1) sp show ?thesis by (simp add: stream_pipeline_def)
qed

lemma stream_net_inv:
  fixes b :: "('s, 'u) GraphBuilder"
  assumes ok: "builder_ok b" "orders_ok ord b" and built: "Build ord b = Inr p" and sp: "stream_pipeline ids b f upd items"
    and w: "\<forall>i. clean_world (ws i)" "clean_world (sw 0)" and run: "net_run evs (net_start pc p ws sw) = Some nt"
  shows "net_inv (\<lambda>i. if i = 0 then source_output 0 items else []) nt" and "loops_known nt"
    and "all_runtimes p = p_runtimes p" and "length (nt_nodes nt) = length ids"
proof -
  have lin: "linear ids b" using sp by (simp add: stream_pipeline_def)
  note rts = linear_runtimes [OF ok built lin]
  show all: "all_runtimes p = p_runtimes p" by (simp add: all_runtimes_def rts(2))
  have "net_inv (source_program p sw) (net_start pc p ws sw)"
    using w stream_emitters [OF ok built sp] by (intro net_start_inv [OF ok built]) (auto simp: clean_world_def)
  moreover have "source_program p sw = (\<lambda>i. if i = 0 then source_output 0 items else [])"
    using w(2) sp by (intro linear_source [OF ok built lin]) (auto simp: stream_pipeline_def clean_world_def)
  ultimately show "net_inv (\<lambda>i. if i = 0 then source_output 0 items else []) nt"
    using net_run_inv [OF _ run] by simp
  show "loops_known nt" by (rule loops_known_run [OF run]) (simp add: loops_known_def)
  show "length (nt_nodes nt) = length ids" using net_run_length [OF run] by (simp add: all rts(1))
qed

lemma stream_nodes:
  fixes b :: "('s, 'u) GraphBuilder"
  assumes ok: "builder_ok b" "orders_ok ord b" and built: "Build ord b = Inr p" and sp: "stream_pipeline ids b f upd items"
    and w: "\<forall>i. clean_world (ws i)" "clean_world (sw 0)" and run: "net_run evs (net_start pc p ws sw) = Some nt"
    and i: "i < length ids" and j: "j < length ids" and id: "Node_ID (nr_node (p_runtimes p ! j)) = ids ! i"
  shows "i = 0 \<Longrightarrow> source_quiet [0] (nt_nodes nt ! j)"
    and "i \<noteq> 0 \<Longrightarrow> stream_operator.node_flow (on_operator (built_node b (ids ! i))) (f i) (upd i) (on_state (built_node b (ids ! i)))
      (if Suc i < length ids then [i] else []) (nt_nodes nt ! j)"
    and "indices_ok (nt_nodes nt ! j)"
    and "nr_inputs (rt_nr (nt_nodes nt ! j)) = (if i = 0 then [] else [i - 1])"
proof -
  have lin: "linear ids b" using sp by (simp add: stream_pipeline_def)
  note rts = linear_runtimes [OF ok built lin]
  have all: "all_runtimes p = p_runtimes p" by (rule stream_net_inv(3) [OF ok built sp w run])
  let ?r = "p_runtimes p ! j" and ?st0 = "nt_nodes (net_start pc p ws sw) ! j"
  have cr: "chain_runtime b ids i ?r" by (rule rts(5) [OF j i id])
  have cw: "sends_ok (ws j)" "w_sent (ws j) = []" using w(1) by (simp_all add: clean_world_def)
  have st0: "?st0 = start_state pc ?r (ws j) (\<lambda>k. p_buffers p ! (nr_inputs ?r ! k))"
    using net_start_node [of j p pc ws sw] j rts(1) by (simp add: all)
  show "source_quiet [0] (nt_nodes nt ! j)" if "i = 0"
  proof (rule net_run_node [OF run, where P = "source_quiet [0]"])
    show "source_quiet [0] ?st0"
      unfolding st0 by (rule chain_start(1) [OF cr cw that]) (use lin in \<open>simp add: linear_def\<close>)
  qed (rule source_quiet_step)
  show "stream_operator.node_flow (on_operator (built_node b (ids ! i))) (f i) (upd i) (on_state (built_node b (ids ! i)))
      (if Suc i < length ids then [i] else []) (nt_nodes nt ! j)" if i0: "i \<noteq> 0"
  proof -
    have so: "stream_operator (on_operator (built_node b (ids ! i))) (f i) (upd i)" using sp i i0 by (simp add: stream_pipeline_def)
    show ?thesis
    proof (rule net_run_node [OF run, where P = "stream_operator.node_flow (on_operator (built_node b (ids ! i))) (f i) (upd i)
          (on_state (built_node b (ids ! i))) (if Suc i < length ids then [i] else [])"])
      show "stream_operator.node_flow (on_operator (built_node b (ids ! i))) (f i) (upd i) (on_state (built_node b (ids ! i)))
          (if Suc i < length ids then [i] else []) ?st0"
        unfolding st0 by (rule chain_start(2) [OF cr cw i0 so])
    qed (rule stream_operator.node_flow_step [OF so])
  qed
  have "?r \<in> set (all_runtimes p)" using j rts(1) by (simp add: all)
  note merged = all_runtimes_built(2) [OF ok built this]
  show "indices_ok (nt_nodes nt ! j)"
  proof (rule net_run_node [OF run, where P = indices_ok])
    show "indices_ok ?st0" unfolding st0 by (rule chain_start(3) [OF cr cw merged])
  qed (rule indices_step)
  show "nr_inputs (rt_nr (nt_nodes nt ! j)) = (if i = 0 then [] else [i - 1])"
  proof (rule net_run_node [OF run, where P = "\<lambda>st. nr_inputs (rt_nr st) = (if i = 0 then [] else [i - 1])"])
    show "nr_inputs (rt_nr ?st0) = (if i = 0 then [] else [i - 1])" using cr by (simp add: st0 start_state_def chain_runtime_def)
  qed (simp add: rt_exec_frame(1))
qed


text \<open>What reaches buffer \<open>k\<close>, which has one writer: the source for \<open>k = 0\<close>, node \<open>k\<close> otherwise.\<close>

lemma stream_writer:
  fixes b :: "('s, 'u) GraphBuilder"
  assumes ok: "builder_ok b" "orders_ok ord b" and built: "Build ord b = Inr p" and sp: "stream_pipeline ids b f upd items"
    and w: "\<forall>i. clean_world (ws i)" "clean_world (sw 0)" and run: "net_run evs (net_start pc p ws sw) = Some nt"
    and k: "k < length ids" and j: "j < length ids" and id: "Node_ID (nr_node (p_runtimes p ! j)) = ids ! k"
  shows "stream (put_in k (nt_log nt)) = stream (sent_to k (put_by (if k = 0 then FromSource 0 else FromLoop j) (nt_log nt)))"
    and "k = 0 \<Longrightarrow> prefix (stream (put_in k (nt_log nt))) (map Some items @ [None])"
    and "k \<noteq> 0 \<Longrightarrow> prefix (stream (put_in k (nt_log nt))) (image_stream (f k) (taken_stream (nt_nodes nt ! j)))"
proof -
  have lin: "linear ids b" using sp by (simp add: stream_pipeline_def)
  have ids: "distinct ids" using lin by (simp add: linear_def)
  note rts = linear_runtimes [OF ok built lin] and nodes = stream_nodes [OF ok built sp w run]
  note inv = stream_net_inv(1) [OF ok built sp w run] and known = stream_net_inv(2) [OF ok built sp w run]
  have len: "length (nt_nodes nt) = length ids" by (rule stream_net_inv(4) [OF ok built sp w run])
  define who where "who = (if k = 0 then FromSource 0 else FromLoop j)"
  have out: "fst y = k' \<and> item_of (snd y) \<noteq> [] \<Longrightarrow> i = k'"
    if y: "y \<in> set (w_sent (rt_w (nt_nodes nt ! j')))" and j': "j' < length ids" and i: "i < length ids"
      and id': "Node_ID (nr_node (p_runtimes p ! j')) = ids ! i" for y j' i k'
  proof (cases "i = 0")
    case True
    with nodes(1) [OF i j' id'] y show "fst y = k' \<and> item_of (snd y) \<noteq> [] \<Longrightarrow> i = k'"
      by (auto simp: source_quiet_def only_signals_def)
  next
    case False
    have so: "stream_operator (on_operator (built_node b (ids ! i))) (f i) (upd i)" using sp i False by (simp add: stream_pipeline_def)
    have "fst y \<in> set (if Suc i < length ids then [i] else [])"
      using nodes(2) [OF i j' id' False] y unfolding stream_operator.node_flow_def [OF so] flows_def image_sent_def by blast
    then show "fst y = k' \<and> item_of (snd y) \<noteq> [] \<Longrightarrow> i = k'" by (auto split: if_splits)
  qed
  have one: "fst x = who" if x: "x \<in> set (nt_log nt)" "fst (snd x) = k" "item_of (snd (snd x)) \<noteq> []" for x
  proof (cases "fst x")
    case (FromSource i)
    with log_origin(2) [OF inv x(1) FromSource] x(2) have "i = 0 \<and> k = 0"
      by (auto simp: source_output_def split: if_splits)
    with FromSource show ?thesis by (simp add: who_def)
  next
    case (FromLoop j')
    then have j': "j' < length ids" using known x(1) by (auto simp: loops_known_def len)
    then have y: "snd x \<in> set (w_sent (rt_w (nt_nodes nt ! j')))" using log_origin(1) [OF inv x(1) FromLoop] len by simp
    obtain i where i: "i < length ids" "Node_ID (nr_node (p_runtimes p ! j')) = ids ! i" using rts(4) [OF j'] by blast
    have "i = k" using out [OF y j' i] x(2,3) by blast
    have "k \<noteq> 0"
    proof
      assume "k = 0"
      with nodes(1) [OF i(1) j' i(2)] y x(3) \<open>i = k\<close> show False by (auto simp: source_quiet_def only_signals_def)
    qed
    moreover have "j' = j"
      by (rule linear_same [OF ok built lin j' j]) (simp add: i(2) id \<open>i = k\<close>)
    ultimately show ?thesis using FromLoop by (simp add: who_def)
  qed
  have eq: "stream (put_in k (nt_log nt)) = stream (sent_to k (put_by who (nt_log nt)))" by (rule stream_one_writer) (rule one)
  then show "stream (put_in k (nt_log nt)) = stream (sent_to k (put_by (if k = 0 then FromSource 0 else FromLoop j) (nt_log nt)))"
    by (simp only: who_def)
  show "prefix (stream (put_in k (nt_log nt))) (map Some items @ [None])" if "k = 0"
  proof -
    have "put_by (FromSource 0) (nt_log nt) @ nt_source nt 0 = source_output 0 items" using inv unfolding net_inv_def by metis
    then have "prefix (put_by who (nt_log nt)) (source_output 0 items)" using that by (simp add: who_def) (metis prefixI)
    then show ?thesis unfolding eq stream_source_output [of k items, symmetric] using that by (intro prefix_streams) simp
  qed
  show "prefix (stream (put_in k (nt_log nt))) (image_stream (f k) (taken_stream (nt_nodes nt ! j)))" if k0: "k \<noteq> 0"
  proof -
    let ?w = "rt_w (nt_nodes nt ! j)"
    have so: "stream_operator (on_operator (built_node b (ids ! k))) (f k) (upd k)" using sp k k0 by (simp add: stream_pipeline_def)
    obtain dn where dn: "image_sent (f k) (if Suc k < length ids then [k] else []) dn ?w" "prefix dn (taken_stream (nt_nodes nt ! j))"
      using nodes(2) [OF k j id k0] unfolding stream_operator.node_flow_def [OF so] flows_def by (blast dest: loop_handled_prefix)
    have "put_by who (nt_log nt) = take (nt_moved nt j) (w_sent ?w)" using inv j len k0 by (simp add: net_inv_def who_def)
    then have "prefix (put_by who (nt_log nt)) (w_sent ?w)" by (simp add: take_is_prefix)
    then have "prefix (stream (put_in k (nt_log nt))) (stream (sent_to k (w_sent ?w)))" unfolding eq by (intro prefix_streams)
    moreover have "prefix (stream (sent_to k (w_sent ?w))) (image_stream (f k) dn)" using dn(1) by (simp add: image_sent_def)
    ultimately show ?thesis using prefix_streams(2) [OF dn(2)] by (metis prefix_order.trans)
  qed
qed

text \<open>Node \<open>Suc i\<close> reads buffer \<open>i\<close>: it takes in what is put there, in order.\<close>

lemma stream_consumer:
  fixes b :: "('s, 'u) GraphBuilder"
  assumes ok: "builder_ok b" "orders_ok ord b" and built: "Build ord b = Inr p" and sp: "stream_pipeline ids b f upd items"
    and w: "\<forall>i. clean_world (ws i)" "clean_world (sw 0)" and run: "net_run evs (net_start pc p ws sw) = Some nt"
    and i: "Suc i < length ids" and j: "j < length ids" and id: "Node_ID (nr_node (p_runtimes p ! j)) = ids ! Suc i"
  shows "nt_consumer nt i = Some (j, 0)" and "rt_sentTo (nt_nodes nt ! j) 0 = put_in i (nt_log nt)"
    and "of_input 0 (rt_taken (nt_nodes nt ! j)) = map im_Msg (rt_taken (nt_nodes nt ! j))" and "fifo 0 (nt_nodes nt ! j)"
proof -
  have lin: "linear ids b" using sp by (simp add: stream_pipeline_def)
  note rts = linear_runtimes [OF ok built lin] and nodes = stream_nodes [OF ok built sp w run]
  note inv = stream_net_inv(1) [OF ok built sp w run]
  have es: "g_edges (gb_graph b) = links ids" "i < length (links ids)" using lin i by (simp_all add: linear_def)
  obtain j' k where c: "find_consumer (map nr_inputs (all_runtimes p)) i = Some (j', k)" and j': "j' < length (p_runtimes p)"
    "Node_ID (nr_node (p_runtimes p ! j')) = e_ToNode (links ids ! i)"
    using built_consumer [OF ok built, of i] es by auto
  have "j' = j" by (rule linear_same [OF ok built lin]) (use j j' id i rts(1) in \<open>simp_all add: links_nth NewEdge_def\<close>)
  with c net_run_consumer [OF run] have nc: "nt_consumer nt i = Some (j, k)" by simp
  note inputs = nodes(4) [OF i j id]
  have "k < length (nr_inputs (rt_nr (nt_nodes nt ! j)))" using inv nc by (simp add: net_inv_def consumers_ok_def)
  then have k: "k = 0" by (simp add: inputs)
  with nc show "nt_consumer nt i = Some (j, 0)" by simp
  show "rt_sentTo (nt_nodes nt ! j) 0 = put_in i (nt_log nt)" "fifo 0 (nt_nodes nt ! j)"
    using inv nc k j inputs stream_net_inv(4) [OF ok built sp w run] by (simp_all add: net_inv_def)
  show "of_input 0 (rt_taken (nt_nodes nt ! j)) = map im_Msg (rt_taken (nt_nodes nt ! j))"
    by (rule of_input_single_input [OF nodes(3) [OF i j id]]) (simp add: inputs)
qed

lemma stream_reader:
  fixes b :: "('s, 'u) GraphBuilder"
  assumes ok: "builder_ok b" "orders_ok ord b" and built: "Build ord b = Inr p" and sp: "stream_pipeline ids b f upd items"
    and w: "\<forall>i. clean_world (ws i)" "clean_world (sw 0)" and run: "net_run evs (net_start pc p ws sw) = Some nt"
    and i: "Suc i < length ids" and j: "j < length ids" and id: "Node_ID (nr_node (p_runtimes p ! j)) = ids ! Suc i"
  shows "prefix (taken_stream (nt_nodes nt ! j)) (stream (put_in i (nt_log nt)))"
proof -
  note c = stream_consumer [OF ok built sp w run i j id]
  have "prefix (of_input 0 (rt_taken (nt_nodes nt ! j))) (put_in i (nt_log nt))"
    using c(4) by (auto simp: fifo_def c(2) dest: append_prefixD)
  then show ?thesis by (simp add: taken_stream_def prefix_streams c(3))
qed

text \<open>What node \<open>Suc i\<close> has taken is a prefix of what the nodes before it make of the items.\<close>

lemma stream_taken:
  fixes b :: "('s, 'u) GraphBuilder"
  assumes ok: "builder_ok b" "orders_ok ord b" and built: "Build ord b = Inr p" and sp: "stream_pipeline ids b f upd items"
    and w: "\<forall>i. clean_world (ws i)" "clean_world (sw 0)" and run: "net_run evs (net_start pc p ws sw) = Some nt"
  shows "Suc i < length ids \<Longrightarrow> j < length ids \<Longrightarrow> Node_ID (nr_node (p_runtimes p ! j)) = ids ! Suc i \<Longrightarrow>
    prefix (taken_stream (nt_nodes nt ! j)) (map Some (chain_items f items i) @ [None])"
proof (induction i arbitrary: j)
  case (0 j)
  have lin: "linear ids b" using sp by (simp add: stream_pipeline_def)
  obtain j0 where j0: "j0 < length ids" "Node_ID (nr_node (p_runtimes p ! j0)) = ids ! 0"
    using linear_runtimes(3) [OF ok built lin, of 0] 0(1) by (metis length_0_conv less_zeroE neq0_conv)
  have "prefix (stream (put_in 0 (nt_log nt))) (map Some items @ [None])"
    by (rule stream_writer(2) [OF ok built sp w run _ j0]) (use 0 in auto)
  then show ?case unfolding chain_items.simps by (rule prefix_order.trans [OF stream_reader [OF ok built sp w run 0]])
next
  case (Suc i j)
  have lin: "linear ids b" using sp by (simp add: stream_pipeline_def)
  have i: "Suc i < length ids" using Suc.prems(1) by simp
  then obtain j' where j': "j' < length ids" "Node_ID (nr_node (p_runtimes p ! j')) = ids ! Suc i"
    using linear_runtimes(3) [OF ok built lin, of "Suc i"] by auto
  have "prefix (stream (put_in (Suc i) (nt_log nt))) (image_stream (f (Suc i)) (taken_stream (nt_nodes nt ! j')))"
    by (rule stream_writer(3) [OF ok built sp w run i j']) simp
  moreover have "prefix (image_stream (f (Suc i)) (taken_stream (nt_nodes nt ! j'))) (map Some (chain_items f items (Suc i)) @ [None])"
    using prefix_streams(2) [OF Suc.IH [OF i j'], of "f (Suc i)"] by (simp add: image_stream_Some)
  ultimately show ?case using stream_reader [OF ok built sp w run Suc.prems] by (metis prefix_order.trans)
qed


lemma datas_prefix:
  assumes "prefix dn (map Some ds @ [None])"
  shows "prefix (datas dn) ds" and "count_list dn None \<noteq> 0 \<Longrightarrow> datas dn = ds"
proof -
  have none: "count_list (map Some xs) None = 0" for xs :: "'a DataMessage list"
    by (induction xs) simp_all
  consider "dn = map Some ds @ [None]" | xs where "dn = map Some xs" "prefix xs ds"
    using assms by (auto simp: prefix_snoc dest: prefix_map_rightE)
  then show "prefix (datas dn) ds" "count_list dn None \<noteq> 0 \<Longrightarrow> datas dn = ds"
    by (cases; simp add: none)+
qed

lemma stream_delivers:
  fixes b :: "('s, 'u) GraphBuilder"
  assumes ok: "builder_ok b" "orders_ok ord b" and built: "Build ord b = Inr p" and sp: "stream_pipeline ids b f upd items"
    and w: "\<forall>i. clean_world (ws i)" "clean_world (sw 0)" and run: "net_run evs (net_start pc p ws sw) = Some nt"
    and i: "Suc i < length ids"
  shows "\<exists>j x got. j < length (nt_nodes nt) \<and> Node_ID (nr_node (p_runtimes p ! j)) = ids ! Suc i \<and>
    nr_node (rt_nr (nt_nodes nt ! j)) = OpNode x \<and> prefix got (chain_items f items i) \<and>
    on_state x = fold (upd (Suc i)) got (on_state (built_node b (ids ! Suc i))) \<and>
    (nr_activeInputs (rt_nr (nt_nodes nt ! j)) = 0 \<longrightarrow> got = chain_items f items i)"
proof -
  have lin: "linear ids b" using sp by (simp add: stream_pipeline_def)
  let ?bn = "built_node b (ids ! Suc i)"
  have so: "stream_operator (on_operator ?bn) (f (Suc i)) (upd (Suc i))" using sp i by (simp add: stream_pipeline_def)
  obtain j where j: "j < length ids" "Node_ID (nr_node (p_runtimes p ! j)) = ids ! Suc i"
    using linear_runtimes(3) [OF ok built lin i] by blast
  obtain dn where fl: "flows (on_operator ?bn) (f (Suc i)) (upd (Suc i)) (on_state ?bn) (if Suc (Suc i) < length ids then [Suc i] else []) dn
      (rt_nr (nt_nodes nt ! j)) (rt_w (nt_nodes nt ! j))" and "prefix dn (taken_stream (nt_nodes nt ! j))"
    using stream_nodes(2) [OF ok built sp w run i j] unfolding stream_operator.node_flow_def [OF so]
    by (blast dest: loop_handled_prefix)
  then have dn: "prefix dn (map Some (chain_items f items i) @ [None])"
    using stream_taken [OF ok built sp w run i j] by (blast intro: prefix_order.trans)
  obtain x where x: "nr_node (rt_nr (nt_nodes nt ! j)) = OpNode x" "on_state x = fold (upd (Suc i)) (datas dn) (on_state ?bn)"
    "nr_activeInputs (rt_nr (nt_nodes nt ! j)) = 1 - int (count_list dn None)"
    using fl unfolding flows_def by blast
  have "nr_activeInputs (rt_nr (nt_nodes nt ! j)) = 0 \<longrightarrow> datas dn = chain_items f items i"
    using datas_prefix(2) [OF dn] x(3) by auto
  moreover have "j < length (nt_nodes nt)" using j(1) stream_net_inv(4) [OF ok built sp w run] by simp
  ultimately show ?thesis using j(2) x(1,2) datas_prefix(1) [OF dn] by blast
qed

end
