(* ===== verification/Delivery.thy ===== *)
theory Delivery
  imports Linear
begin

text \<open>
  What running pipelines deliver: order and completeness of what passes through the buffers of any
  pipeline, the function that a linear pipeline computes, and as an instance the linear chain of
  \<open>internal/engine/test_harness.go\<close>, run to its end on an example.
\<close>

section \<open>The linear chain of the harness\<close>

interpretation passthrough_stream: stream_operator passthroughOp "\<lambda>d. [d]" "\<lambda>d s. s"
  unfolding passthroughOp_def
  by (rule stream_operator_base) (use Emit_sends in \<open>fastforce simp: returning_def passthrough_ProcessMessage_def\<close>)

interpretation passthrough_emits: data_emitter passthroughOp
  unfolding passthroughOp_def by (rule data_emitter_base) (auto simp: passthrough_ProcessMessage_def intro: emitting)

interpretation collect_stream: stream_operator collectSinkHarness "\<lambda>d. []" "\<lambda>d s. s @ [dm_Value d]"
  unfolding collectSinkHarness_def by (rule stream_operator_base) (simp add: collectSink_ProcessMessage_def)

interpretation collect_emits: data_emitter collectSinkHarness
  unfolding collectSinkHarness_def by (rule data_emitter_base) (auto simp: collectSink_ProcessMessage_def sent_data_same [OF refl])

definition harness_items :: "'u any list \<Rightarrow> 'u DataMessage list" where
  "harness_items = map (\<lambda>v. DataMessage [] v zero_time)"

lemma sliceSource_emits: "emits_items (sliceSource_Run vs) (harness_items vs)"
  unfolding emits_items_def harness_items_def
proof (intro allI impI)
  fix c and w :: "'a World"
  assume "sends_ok w"
  then show "\<exists>w' r. sliceSource_Run vs c w = Some (w', r) \<and>
      w_sent w' = w_sent w @ concat (map (\<lambda>d. map (\<lambda>out. (out, data_message d)) (rc_outputs c)) (map (\<lambda>v. DataMessage [] v zero_time) vs))"
  proof (induction vs arbitrary: w)
    case (Cons v vs)
    obtain w1 where w1: "Emit c (DataMessage [] v zero_time) w = (w1, None)" "sends_ok w1"
      "w_sent w1 = w_sent w @ map (\<lambda>out. (out, data_message (DataMessage [] v zero_time))) (rc_outputs c)"
      using Emit_sends [OF Cons.prems] by blast
    from Cons.IH [OF w1(2)] w1 show ?case by auto
  qed simp
qed


text \<open>The nodes of the chain's builder.\<close>

definition chain_parts :: "nat \<Rightarrow> nat \<Rightarrow> harness_builder \<Rightarrow> bool" where
  "chain_parts m n b \<longleftrightarrow>
     map_of (gb_sources b) ''source'' = Some (NewSourceNode ''source'' (sliceSource_Run (makeItems m))) \<and>
     map_of (gb_sinks b) ''sink'' = Some (NewOperatorNode ''sink'' collectSinkHarness []) \<and>
     (\<forall>i. map_of (gb_operators b) (op_id i) = (if i < n then Some (NewOperatorNode (op_id i) passthroughOp []) else None)) \<and>
     map_of (gb_operators b) ''sink'' = None \<and> gb_errorConfig b = None"

lemma chain_parts_connect: "chain_parts m n b \<Longrightarrow> chain_parts m n (Connect f t b)"
  by (simp add: chain_parts_def Connect_def split: sum.split)

lemma chain_parts_operator:
  assumes "chain_parts m n b" "shape b types es" "types (op_id n) = None"
  shows "chain_parts m (Suc n) (AddOperator (op_id n) passthroughOp [] b)"
proof -
  obtain g where "AddNode (op_id n) (op_id n) NodeTypeOperator (gb_graph b) = Inr g"
    using AddNode_fresh [of "gb_graph b" "op_id n" "op_id n" NodeTypeOperator] assms(2,3) by (auto simp: shape_def)
  with assms(1,2) show ?thesis
    by (simp add: chain_parts_def AddOperator_def shape_def go_maps less_Suc_eq Let_def)
qed


lemma chain_fold_parts:
  assumes "shape b (chain_types 0) []" "chain_parts m 0 b"
  shows "chain_parts m n (fst (fold chain_link [0..<n] (b, ''source'')))"
proof (induction n)
  case (Suc n)
  obtain b' prev where f: "fold chain_link [0..<n] (b, ''source'') = (b', prev)" by fastforce
  with chain_fold [OF assms(1), of n] have "shape b' (chain_types n) (links (''source'' # map op_id [0..<n]))" by simp
  moreover have "chain_types n (op_id n) = None" by (auto simp: chain_types_def)
  ultimately have "chain_parts m (Suc n) (AddOperator (op_id n) passthroughOp [] b')"
    using chain_parts_operator Suc.IH f by auto
  moreover have "fold chain_link [0..<Suc n] (b, ''source'') =
      (Connect prev (op_id n) (AddOperator (op_id n) passthroughOp [] b'), op_id n)"
    by (simp add: f) (simp add: chain_link_def Let_def)
  ultimately show ?case using chain_parts_connect by simp
qed (use assms(2) in simp)

lemma LinearChain_parts: "chain_parts m (nat k) (LinearChain_builder m k)"
proof -
  let ?b = "AddSink ''sink'' collectSinkHarness [] (AddSource ''source'' (sliceSource_Run (makeItems m)) (NewGraphBuilder ''linear-chain'')) :: harness_builder"
  have "chain_types 0 = (Map.empty (''source'' \<mapsto> NodeTypeSource))(''sink'' \<mapsto> NodeTypeSink)"
    by (auto simp: chain_types_def fun_eq_iff)
  then have "shape ?b (chain_types 0) []" by (simp only:) (intro shapes; simp)
  moreover have "chain_parts m 0 ?b"
    by (simp add: chain_parts_def AddSink_def AddSource_def NewGraphBuilder_def AddNode_def NewGraph_def Let_def)
  ultimately have "chain_parts m (nat k) (fst (fold chain_link [0..<nat k] (?b, ''source'')))" by (rule chain_fold_parts)
  then show ?thesis
    using chain_parts_connect by (simp add: LinearChain_builder_def Let_def split_def)
qed

text \<open>Which operator is node \<open>i\<close> of the chain: the last one collects, the others pass on.\<close>

definition chain_f :: "nat \<Rightarrow> nat \<Rightarrow> 'u DataMessage \<Rightarrow> 'u DataMessage list" where
  "chain_f n i d = (if i = Suc n then [] else [d])"

definition chain_upd :: "nat \<Rightarrow> nat \<Rightarrow> 'u DataMessage \<Rightarrow> 'u collected \<Rightarrow> 'u collected" where
  "chain_upd n i d s = (if i = Suc n then s @ [dm_Value d] else s)"

lemma chain_items_chain:
  fixes items :: "'u DataMessage list"
  shows "i \<le> n \<Longrightarrow> chain_items (chain_f n) items i = items"
proof (induction i)
  case (Suc i)
  then have "chain_f n (Suc i) = (\<lambda>d :: 'u DataMessage. [d])" by (simp add: chain_f_def fun_eq_iff)
  with Suc show ?case by simp
qed simp

lemma chain_ids_nth:
  "length (chain_ids n) = Suc (Suc n)" "chain_ids n ! 0 = ''source''" "i < n \<Longrightarrow> chain_ids n ! Suc i = op_id i" "chain_ids n ! Suc n = ''sink''"
  by (simp_all add: chain_ids_def nth_append)

lemma LinearChain_stream:
  "stream_pipeline (chain_ids (nat k)) (LinearChain_builder m k) (chain_f (nat k)) (chain_upd (nat k)) (harness_items (makeItems m))"
proof -
  let ?n = "nat k" and ?b = "LinearChain_builder m k"
  note sh = LinearChain_shape [of m k] and parts = LinearChain_parts [of m k, unfolded chain_parts_def]
  have "set (chain_ids ?n) = {x. chain_types ?n x \<noteq> None}"
    by (auto simp: chain_ids_def chain_types_def)
  then have "linear (chain_ids ?n) ?b"
    using sh parts by (simp add: linear_def shape_def chain_ids_distinct chain_ids_nth build_dlSink_def build_errCfg_def)
  moreover have "stream_operator (on_operator (built_node ?b (chain_ids ?n ! i))) (chain_f ?n i) (chain_upd ?n i) \<and>
      data_emitter (on_operator (built_node ?b (chain_ids ?n ! i)))" if "0 < i" "i < length (chain_ids ?n)" for i
  proof (cases "i = Suc ?n")
    case True
    then have "built_node ?b (chain_ids ?n ! i) = NewOperatorNode ''sink'' collectSinkHarness []"
      using parts by (simp add: built_node_def chain_ids_nth map_add_def)
    moreover have "chain_f ?n i = (\<lambda>d :: int DataMessage. [])" "chain_upd ?n i = (\<lambda>(d :: int DataMessage) s. s @ [dm_Value d])"
      by (simp_all add: True chain_f_def chain_upd_def fun_eq_iff)
    ultimately show ?thesis
      using collect_stream.stream_operator_axioms collect_emits.data_emitter_axioms by (simp add: NewOperatorNode_def)
  next
    case False
    with that obtain i' where i': "i = Suc i'" "i' < ?n" by (cases i) (auto simp: chain_ids_nth)
    then have "built_node ?b (chain_ids ?n ! i) = NewOperatorNode (op_id i') passthroughOp []"
      using parts by (simp add: built_node_def chain_ids_nth map_add_def)
    moreover have "chain_f ?n i = (\<lambda>d :: int DataMessage. [d])" "chain_upd ?n i = (\<lambda>(d :: int DataMessage) s. s)"
      using False by (simp_all add: chain_f_def chain_upd_def fun_eq_iff)
    ultimately show ?thesis
      using passthrough_stream.stream_operator_axioms passthrough_emits.data_emitter_axioms by (simp add: NewOperatorNode_def)
  qed
  moreover have "emits_items (sn_source (the (map_of (gb_sources ?b) (chain_ids ?n ! 0)))) (harness_items (makeItems m))"
    using parts sliceSource_emits by (simp add: chain_ids_nth NewSourceNode_def)
  ultimately show ?thesis by (simp add: stream_pipeline_def)
qed

section \<open>A run\<close>

text \<open>
  The chain with one operator and two messages, run to its end: each message in turn goes from the source
  through the operator to the sink.
\<close>

definition sample_calls :: "(int collected, int) build_call list" where
  "sample_calls = [CallAddSource ''source'' (sliceSource_Run (makeItems 2)), CallAddSink ''sink'' collectSinkHarness [],
     CallAddOperator (op_id 0) passthroughOp [], CallConnect ''source'' (op_id 0), CallConnect (op_id 0) ''sink'']"

definition sample_order :: build_order where
  "sample_order = insertion_order (LinearChain_builder 2 1)"

definition pass_through :: "nat \<Rightarrow> int net_event list" where
  "pass_through i = [NodeStep i (MergerReceives 0 True), NodeStep i (MergerPuts 0), NodeStep i LoopHead, NodeStep i LoopMerged]"

definition sample_net_events :: "int net_event list" where
  "sample_net_events = concat (replicate 3 ([SourceSends 0] @ pass_through 1 @ [MoveSent 1] @ pass_through 2))"

definition sample_net :: "(int collected, int) Pipeline \<Rightarrow> (int collected, int) net option" where
  "sample_net p = net_run sample_net_events (net_start False p (\<lambda>_. quiet_world) (\<lambda>_. quiet_world))"

lemma sample_calls_chain: "fold build_step sample_calls (NewGraphBuilder ''linear-chain'') = LinearChain_builder 2 1"
  by (simp add: sample_calls_def LinearChain_builder_def chain_link_def Let_def)

lemma sample_order_ok: "orders_ok sample_order (LinearChain_builder 2 1)"
  unfolding sample_order_def by (rule insertion_order_ok) (rule harness_builders_ok)

lemma sample_evaluates:
  "(case BuildLinearChain sample_order 2 1 of
      Inl _ \<Rightarrow> None
    | Inr p \<Rightarrow> (case sample_net p of
          None \<Rightarrow> None
        | Some nt \<Rightarrow> Some (map (\<lambda>r. Node_ID (nr_node r)) (p_runtimes p), map (\<lambda>st. nr_activeInputs (rt_nr st)) (nt_nodes nt),
                          length (put_in 1 (nt_log nt))))) =
     Some ([''source'', ''op0'', ''sink''], [1, 0, 0], 3)"
  by code_simp

lemma sample_runs:
  obtains p nt where "BuildLinearChain sample_order 2 1 = Inr p" "sample_net p = Some nt" "length (nt_nodes nt) = 3"
    "\<forall>j < 3. Node_ID (nr_node (p_runtimes p ! j)) = ''sink'' \<longrightarrow> nr_activeInputs (rt_nr (nt_nodes nt ! j)) = 0"
    "length (put_in 1 (nt_log nt)) = 3"
proof -
  obtain p nt where p: "BuildLinearChain sample_order 2 1 = Inr p" "sample_net p = Some nt" "length (put_in 1 (nt_log nt)) = 3"
    and ids: "map (\<lambda>r. Node_ID (nr_node r)) (p_runtimes p) = [''source'', ''op0'', ''sink'']"
    and act: "map (\<lambda>st. nr_activeInputs (rt_nr st)) (nt_nodes nt) = [1, 0, 0]"
    using sample_evaluates by (auto split: sum.splits option.splits)
  have len: "length (nt_nodes nt) = 3" "length (p_runtimes p) = 3" using arg_cong [OF act, of length] arg_cong [OF ids, of length] by simp_all
  have "nr_activeInputs (rt_nr (nt_nodes nt ! j)) = 0" if "j < 3" "Node_ID (nr_node (p_runtimes p ! j)) = ''sink''" for j
    using that len arg_cong [OF ids, of "\<lambda>xs. xs ! j"] arg_cong [OF act, of "\<lambda>xs. xs ! j"] by (auto simp: less_Suc_eq numeral_3_eq_3)
  with p len(1) show ?thesis using that by blast
qed

lemma quiet_clean: "clean_world quiet_world"
  by (simp add: clean_world_def quiet_world_def sends_ok_def)

section \<open>Properties\<close>

text \<open>
  C4. The buffers of a running pipeline are ordered channels without loss. In every interleaving of
  all goroutines of a built pipeline whose operators keep the contract \<open>data_emitter\<close>: the buffer of
  each edge is read by the node the edge leads to; what that node's main loop has taken from it is a
  prefix of what was put in, and while the node's merger runs the rest is in the merged channel, with
  the merger and in the buffer; and each node and each source puts its messages into the buffers in
  the order in which it sent them, without skipping one.
\<close>

theorem network_fifo:
  assumes "b = fold build_step calls (NewGraphBuilder name)" "orders_ok ord b" "Build ord b = Inr p"
    and "\<forall>r \<in> set (all_runtimes p). \<forall>n. nr_node r = OpNode n \<longrightarrow> data_emitter (on_operator n)"
    and "\<forall>i. w_sent (ws i) = []" and "net_run evs (net_start pc p ws sw) = Some nt"
  shows "(\<forall>k < length (g_edges (gb_graph b)). \<exists>i j.
      nt_consumer nt k = Some (i, j) \<and> Node_ID (nr_node (p_runtimes p ! i)) = e_ToNode (g_edges (gb_graph b) ! k) \<and>
      prefix (of_input j (rt_taken (nt_nodes nt ! i))) (put_in k (nt_log nt)) \<and>
      (rt_mergers (nt_nodes nt ! i) j \<noteq> MergerExited \<longrightarrow>
         put_in k (nt_log nt) = of_input j (rt_taken (nt_nodes nt ! i)) @ of_input j (in_channel (nt_nodes nt ! i)) @
           held (rt_mergers (nt_nodes nt ! i) j) @ b_ch (rt_bufs (nt_nodes nt ! i) j))) \<and>
    (\<forall>i < length (nt_nodes nt). prefix (put_by (FromLoop i) (nt_log nt)) (w_sent (rt_w (nt_nodes nt ! i)))) \<and>
    (\<forall>i. prefix (put_by (FromSource i) (nt_log nt)) (source_program p sw i))"
proof -
  have ok: "builder_ok b" unfolding assms(1) by (rule build_calls_ok [OF builder_ok_new])
  have inv: "net_inv (source_program p sw) nt"
    by (rule net_run_inv [OF net_start_inv [OF ok assms(2,3,5,4)] assms(6)])
  have "\<exists>i j. nt_consumer nt k = Some (i, j) \<and> Node_ID (nr_node (p_runtimes p ! i)) = e_ToNode (g_edges (gb_graph b) ! k) \<and>
      prefix (of_input j (rt_taken (nt_nodes nt ! i))) (put_in k (nt_log nt)) \<and>
      (rt_mergers (nt_nodes nt ! i) j \<noteq> MergerExited \<longrightarrow>
         put_in k (nt_log nt) = of_input j (rt_taken (nt_nodes nt ! i)) @ of_input j (in_channel (nt_nodes nt ! i)) @
           held (rt_mergers (nt_nodes nt ! i) j) @ b_ch (rt_bufs (nt_nodes nt ! i) j))"
    if k: "k < length (g_edges (gb_graph b))" for k
  proof -
    obtain i j where ij: "find_consumer (map nr_inputs (all_runtimes p)) k = Some (i, j)"
      "Node_ID (nr_node (p_runtimes p ! i)) = e_ToNode (g_edges (gb_graph b) ! k)"
      using built_consumer [OF ok assms(2,3) k] by blast
    then have c: "nt_consumer nt k = Some (i, j)" using net_run_consumer [OF assms(6)] by simp
    then have "i < length (nt_nodes nt)" "j < length (nr_inputs (rt_nr (nt_nodes nt ! i)))"
      using inv by (auto simp: net_inv_def consumers_ok_def)
    then have f: "fifo j (nt_nodes nt ! i)" "rt_sentTo (nt_nodes nt ! i) j = put_in k (nt_log nt)"
      using inv c by (simp_all add: net_inv_def)
    show ?thesis
      by (rule exI [of _ i], rule exI [of _ j]) (use c ij(2) f in \<open>auto simp: fifo_def dest: append_prefixD\<close>)
  qed
  moreover have "prefix (put_by (FromLoop i) (nt_log nt)) (w_sent (rt_w (nt_nodes nt ! i)))" if "i < length (nt_nodes nt)" for i
    using inv that by (simp add: net_inv_def take_is_prefix)
  moreover have "prefix (put_by (FromSource i) (nt_log nt)) (source_program p sw i)" for i
    using inv by (metis net_inv_def prefixI)
  ultimately show ?thesis by blast
qed

theorem network_fifo_witness:
  "\<exists>p nt. Build sample_order (fold build_step sample_calls (NewGraphBuilder ''linear-chain'')) = Inr p \<and> sample_net p = Some nt \<and>
     length (put_in 1 (nt_log nt)) = 3 \<and> prefix (put_by (FromLoop 1) (nt_log nt)) (w_sent (rt_w (nt_nodes nt ! 1)))"
proof -
  obtain p nt where p: "BuildLinearChain sample_order 2 1 = Inr p" "sample_net p = Some nt"
    "length (nt_nodes nt) = 3" "length (put_in 1 (nt_log nt)) = 3"
    by (rule sample_runs)
  let ?b = "fold build_step sample_calls (NewGraphBuilder ''linear-chain'')"
  have built: "Build sample_order ?b = Inr p" using p(1) by (simp add: sample_calls_chain BuildLinearChain_def)
  have ok: "orders_ok sample_order ?b" by (simp add: sample_calls_chain sample_order_ok)
  have emits: "\<forall>r \<in> set (all_runtimes p). \<forall>n. nr_node r = OpNode n \<longrightarrow> data_emitter (on_operator n)"
    using stream_emitters [OF harness_builders_ok(1) sample_order_ok p(1) [unfolded BuildLinearChain_def] LinearChain_stream] by blast
  show ?thesis
    using network_fifo [OF refl ok built emits _ p(2) [unfolded sample_net_def]] built p(2-4)
    by (intro exI [of _ p] exI [of _ nt]) (simp add: quiet_world_def)
qed



text \<open>
  The linear chain of the test harness delivers. For any number of messages and operators, in every
  interleaving of all goroutines in which no send is cut off by a context, with pauses, checkpoints and
  cancellations at any point, the sink of the chain has collected the first items in order, and all
  of them once it has handled the stop signal.
\<close>

theorem linear_chain_collects:
  assumes "orders_ok ord (LinearChain_builder m k)" "BuildLinearChain ord m k = Inr p"
    and "\<forall>i. clean_world (ws i)" "clean_world (sw 0)" and "net_run evs (net_start pc p ws sw) = Some nt"
  shows "\<exists>j x. j < length (nt_nodes nt) \<and> nr_node (rt_nr (nt_nodes nt ! j)) = OpNode x \<and>
    Node_ID (nr_node (p_runtimes p ! j)) = ''sink'' \<and> prefix (collectSink_Values (on_state x)) (makeItems m) \<and>
    (nr_activeInputs (rt_nr (nt_nodes nt ! j)) = 0 \<longrightarrow> collectSink_Values (on_state x) = makeItems m)"
proof -
  let ?n = "nat k" and ?b = "LinearChain_builder m k" and ?items = "harness_items (makeItems m)"
  note parts = LinearChain_parts [of m k, unfolded chain_parts_def]
  have fold: "fold (chain_upd ?n (Suc ?n)) ds s = s @ map dm_Value ds" for ds :: "int DataMessage list" and s
    by (induction ds arbitrary: s) (simp_all add: chain_upd_def)
  have sink: "built_node ?b (chain_ids ?n ! Suc ?n) = NewOperatorNode ''sink'' collectSinkHarness []"
    using parts by (simp add: built_node_def chain_ids_nth map_add_def)
  have vals: "map dm_Value ?items = makeItems m" by (simp add: harness_items_def comp_def)
  obtain j x got where jx: "j < length (nt_nodes nt)" "Node_ID (nr_node (p_runtimes p ! j)) = chain_ids ?n ! Suc ?n"
    "nr_node (rt_nr (nt_nodes nt ! j)) = OpNode x" "prefix got (chain_items (chain_f ?n) ?items ?n)"
    "on_state x = fold (chain_upd ?n (Suc ?n)) got (on_state (built_node ?b (chain_ids ?n ! Suc ?n)))"
    "nr_activeInputs (rt_nr (nt_nodes nt ! j)) = 0 \<longrightarrow> got = chain_items (chain_f ?n) ?items ?n"
    using stream_delivers [OF harness_builders_ok(1) assms(1) assms(2) [unfolded BuildLinearChain_def] LinearChain_stream assms(3-5), of ?n]
    by (auto simp: chain_ids_nth)
  then have "collectSink_Values (on_state x) = map dm_Value got" "prefix got ?items"
    "nr_activeInputs (rt_nr (nt_nodes nt ! j)) = 0 \<longrightarrow> got = ?items"
    by (simp_all add: fold sink NewOperatorNode_def collectSink_Values_def chain_items_chain)
  with jx(1-3) vals map_mono_prefix [of got ?items dm_Value] show ?thesis by (auto simp: chain_ids_nth)
qed

theorem linear_chain_collects_witness:
  "\<exists>p nt j x. BuildLinearChain sample_order 2 1 = Inr p \<and> sample_net p = Some nt \<and>
     nr_node (rt_nr (nt_nodes nt ! j)) = OpNode x \<and> collectSink_Values (on_state x) = makeItems 2"
proof -
  obtain p nt where p: "BuildLinearChain sample_order 2 1 = Inr p" "sample_net p = Some nt"
    "length (nt_nodes nt) = 3"
    "\<forall>j < 3. Node_ID (nr_node (p_runtimes p ! j)) = ''sink'' \<longrightarrow> nr_activeInputs (rt_nr (nt_nodes nt ! j)) = 0"
    by (rule sample_runs)
  obtain j x where jx: "j < length (nt_nodes nt)" "Node_ID (nr_node (p_runtimes p ! j)) = ''sink''"
    "nr_node (rt_nr (nt_nodes nt ! j)) = OpNode x"
    "nr_activeInputs (rt_nr (nt_nodes nt ! j)) = 0 \<longrightarrow> collectSink_Values (on_state x) = makeItems 2"
    using linear_chain_collects [OF sample_order_ok p(1) _ _ p(2) [unfolded sample_net_def]] by (auto simp: quiet_clean)
  have "nr_activeInputs (rt_nr (nt_nodes nt ! j)) = 0" using p(3,4) jx(1,2) by simp
  with p(1,2) jx(3,4) show ?thesis by blast
qed

end
