(* ===== verification/Plain_Runs.thy ===== *)
theory Plain_Runs
  imports Linear
begin

text \<open>
  Runs of a linear pipeline that nobody interferes with: no control messages, no cancellation from
  outside, sends that succeed. Every node then handles each message at once when it takes it, its
  goroutines end only after its stop signal, and all messages are data or stop signals
  (\<open>plain_node\<close>, \<open>plain_net_run\<close>).
\<close>

section \<open>Handling in a plain run\<close>

text \<open>The messages of a run without control messages: data and stop signals.\<close>

definition solid :: "'u Message \<Rightarrow> bool" where
  "solid m \<longleftrightarrow> item_of m \<noteq> []"

lemma solid_cases:
  assumes "solid m"
  obtains d where "IsData m" "m_Data m = Some d" "item_of m = [Some d]"
  | sig where "\<not> IsData m" "IsSignal m" "m_Signal m = Some sig" "sm_SignalType sig = SignalTypeStop" "item_of m = [None]"
  using assms unfolding solid_def item_of_def is_stop_def
  by (cases "IsData m"; cases "m_Data m"; cases "m_Signal m") (auto split: if_splits)

definition solid_sent :: "'u World \<Rightarrow> bool" where
  "solid_sent w \<longleftrightarrow> list_all (\<lambda>x. solid (snd x)) (w_sent w)"


context stream_operator
begin

lemma solid_handled:
  assumes fl: "flows op f upd s0 outs dn nr w" and sent: "solid_sent w" and m: "solid (im_Msg im)" and c: "nr_cancel nr \<noteq> None"
  obtains nr' w' x where "item_of (im_Msg im) = [x]" "handleIndexedMessage im nr w = Some (nr', w', None)"
    "flows op f upd s0 outs (dn @ [x]) nr' w'" "rt_frame nr' = rt_frame nr" "nr_err nr' = nr_err nr"
    "nr_cancel nr' \<noteq> None" "cancelled nr' \<longleftrightarrow> cancelled nr \<or> x = None" "solid_sent w'"
proof -
  let ?m = "im_Msg im"
  have "idle_single nr" using fl by (simp add: flows_def)
  moreover have no: "watermark_of ?m = None" "barrier_of ?m = None"
    using m item_of_watermark [of ?m] item_of_barrier [of ?m]
    by (cases "watermark_of ?m"; cases "barrier_of ?m"; auto simp: solid_def)+
  ultimately have eq: "handleIndexedMessage im nr w = handleMessage ?m nr w" using handle_single [of nr im w] by simp
  have fl': "flows op f upd s0 outs (dn @ item_of ?m) nr' w'" if "handleMessage ?m nr w = Some (nr', w', None)" for nr' w'
    using flow_indexed [OF fl, of im] that by (simp add: handled_def eq)
  show ?thesis
    using m
  proof (cases rule: solid_cases)
    case (1 d)
    obtain x where x: "nr_node nr = OpNode x" using fl by (auto simp: flows_def)
    obtain w' where h: "handleMessage ?m nr w = Some (nr\<lparr>nr_node := OpNode (x\<lparr>on_state := upd d (on_state x)\<rparr>)\<rparr>, w', None)"
      "w_sent w' = w_sent w @ concat (map (\<lambda>d'. map (\<lambda>out. (out, data_message d')) outs) (f d))"
      by (rule data_result [OF fl 1(1,2) x])
    have "solid_sent w'" using sent h(2) by (auto simp: solid_sent_def list_all_iff solid_def)
    then show ?thesis
      by (intro that [OF 1(3) h(1) [folded eq]]) (use fl' [OF h(1)] 1(3) c in \<open>simp_all add: rt_frame_def cancelled_def\<close>)
  next
    case (2 sig)
    obtain w' where h: "handleSignal ?m sig nr w = (Runtime_Stop (nr\<lparr>nr_activeInputs := nr_activeInputs nr - 1\<rparr>), w', None)"
      "w_sent w' = w_sent w @ map (\<lambda>out. (out, ?m)) outs"
      by (rule stop_result [OF fl 2(4)])
    have hm: "handleMessage ?m nr w = Some (Runtime_Stop (nr\<lparr>nr_activeInputs := nr_activeInputs nr - 1\<rparr>), w', None)"
      using 2 h(1) by (simp add: handleMessage_def)
    have "solid_sent w'" using sent h(2) m by (auto simp: solid_sent_def list_all_iff)
    then show ?thesis
      by (intro that [OF 2(5) hm [folded eq]]) (use fl' [OF hm] 2(5) c in \<open>auto simp: rt_frame_def cancelled_def Runtime_Stop_def\<close>)
  qed
qed


text \<open>
  A node of a plain run: it has handled all that it has taken, it is cancelled exactly by its stop
  signal, and its goroutines end only then.
\<close>

definition plain_core :: "'s \<Rightarrow> nat list \<Rightarrow> ('s, 'u) rt_state \<Rightarrow> bool" where
  "plain_core s0 outs st \<longleftrightarrow>
     flows op f upd s0 outs (taken_stream st) (rt_nr st) (rt_w st) \<and> solid_sent (rt_w st) \<and>
     length (nr_inputs (rt_nr st)) = 1 \<and> nr_controlCh (rt_nr st) = [] \<and> \<not> nr_paused (rt_nr st) \<and> nr_cancel (rt_nr st) \<noteq> None \<and>
     nr_merged (rt_nr st) \<noteq> None \<and> (cancelled (rt_nr st) \<longleftrightarrow> None \<in> set (taken_stream st)) \<and>
     rt_point st \<in> {AtHead, AtSelect False, Exited} \<and> (rt_point st = Exited \<longrightarrow> cancelled (rt_nr st)) \<and>
     nr_err (rt_nr st) \<in> {None, Some Canceled} \<and>
     (rt_mergers st 0 = MergerExited \<longrightarrow> cancelled (rt_nr st)) \<and> (rt_mergedClosed st \<longrightarrow> rt_mergers st 0 = MergerExited) \<and>
     \<not> b_closed (rt_bufs st 0) \<and> 0 < b_capacity (rt_bufs st 0)"

definition plain_node :: "'s \<Rightarrow> nat list \<Rightarrow> ('s, 'u) rt_state \<Rightarrow> bool" where
  "plain_node s0 outs st \<longleftrightarrow> plain_core s0 outs st \<and> indices_ok st \<and> fifo 0 st \<and> list_all solid (rt_sentTo st 0)"

lemma flows_merged [simp]: "flows op f upd s0 outs dn (nr\<lparr>nr_merged := x\<rparr>) w = flows op f upd s0 outs dn nr w"
  by (simp add: flows_def idle_single_def)

lemma flows_finish [simp]:
  "flows op f upd s0 outs dn (nr\<lparr>nr_stoppedCh := y, nr_done := z\<rparr>) w = flows op f upd s0 outs dn nr w"
  "flows op f upd s0 outs dn (nr\<lparr>nr_err := e\<rparr>) w = flows op f upd s0 outs dn nr w"
  by (simp_all add: flows_def idle_single_def)

lemma plain_head:
  assumes "plain_core s0 outs st" "rt_point st = AtHead"
  shows "plain_core s0 outs (run_head st)"
proof -
  have "getTimerManager (nr_node (rt_nr st)) (rt_w st) = None"
    using assms(1) by (auto simp: plain_core_def flows_def)
  then have "run_head st = st\<lparr>rt_point := AtSelect False\<rparr>" by (simp add: run_head_def)
  with assms(1) show ?thesis by (auto simp: plain_core_def taken_stream_def)
qed

lemma plain_finish:
  assumes "plain_core s0 outs st" "cancelled (rt_nr st)"
  shows "plain_core s0 outs (finish st)" "plain_core s0 outs (run_cancelled st)"
  using assms by (simp_all add: run_cancelled_def finish_def plain_core_def taken_stream_def cancelled_def ctx_Err_def Let_def)

lemma plain_process:
  assumes core: "plain_core s0 outs st" and m: "solid (im_Msg im)" and merged: "nr_merged (rt_nr st) = Some (im # ims)"
  shows "plain_core s0 outs (run_merged im (take_im im ims st))"
proof -
  let ?nr = "(rt_nr st)\<lparr>nr_merged := Some ims\<rparr>"
  have fl: "flows op f upd s0 outs (taken_stream st) ?nr (rt_w st)" "solid_sent (rt_w st)" "nr_cancel ?nr \<noteq> None"
    using core by (simp_all add: plain_core_def)
  obtain nr' w' x where h: "item_of (im_Msg im) = [x]" "handleIndexedMessage im ?nr (rt_w st) = Some (nr', w', None)"
    "flows op f upd s0 outs (taken_stream st @ [x]) nr' w'" "rt_frame nr' = rt_frame ?nr" "nr_err nr' = nr_err ?nr"
    "nr_cancel nr' \<noteq> None" "cancelled nr' \<longleftrightarrow> cancelled ?nr \<or> x = None" "solid_sent w'"
    by (rule solid_handled [OF fl(1,2) m fl(3)])
  have "run_merged im (take_im im ims st) = (take_im im ims st)\<lparr>rt_nr := nr', rt_w := w', rt_point := AtHead\<rparr>"
    using core h(2) by (simp add: run_merged_def run_process_def take_im_def isPaused_def loop_after_def plain_core_def)
  moreover have "taken_stream (take_im im ims st) = taken_stream st @ [x]" by (simp add: take_im_def taken_stream_def h(1))
  ultimately show ?thesis
    using core h by (auto simp: plain_core_def take_im_def taken_stream_def rt_frame_def cancelled_def)
qed


lemma plain_solid:
  assumes "plain_node s0 outs st" "nr_merged (rt_nr st) = Some ims" "im \<in> set ims"
  shows "solid (im_Msg im)"
proof -
  have "prefix (of_input 0 (rt_taken st @ in_channel st)) (rt_sentTo st 0)" using assms(1) by (simp add: plain_node_def fifo_def)
  moreover have "im_InputIndex im = 0"
    using assms by (auto simp: plain_node_def plain_core_def indices_ok_def in_channel_def list_all_iff)
  then have "im_Msg im \<in> set (of_input 0 (rt_taken st @ in_channel st))"
    using assms(2,3) by (auto simp: of_input_def in_channel_def)
  ultimately have "im_Msg im \<in> set (rt_sentTo st 0)" using set_mono_prefix by blast
  with assms(1) show ?thesis by (auto simp: plain_node_def list_all_iff)
qed

lemma plain_loop:
  assumes node: "plain_node s0 outs st" and ex: "rt_exec ev st = Some st'" and ev: "loop_event ev"
  shows "plain_core s0 outs st'"
proof -
  have core: "plain_core s0 outs st" using node by (simp add: plain_node_def)
  then have pt: "rt_point st = AtHead \<or> rt_point st = AtSelect False \<or> rt_point st = Exited" "nr_controlCh (rt_nr st) = []"
    "nr_tickInterval (rt_nr st) = 0" "rt_mergedClosed st \<longrightarrow> cancelled (rt_nr st)"
    by (auto simp: plain_core_def flows_def)
  consider "ev = LoopHead" "rt_point st = AtHead" "st' = run_head st"
    | "ev = LoopDone" "cancelled (rt_nr st)" "st' = run_cancelled st"
    | "cancelled (rt_nr st)" "st' = finish st"
    | im ims where "nr_merged (rt_nr st) = Some (im # ims)" "st' = run_merged im (take_im im ims st)"
    using ev ex pt by (auto simp: loop_event_def pop_control_def take_im_def split: if_splits option.splits list.splits)
  then show ?thesis
  proof cases
    case 1
    with plain_head [OF core] show ?thesis by simp
  next
    case 2
    with plain_finish(2) [OF core] show ?thesis by simp
  next
    case 3
    with plain_finish(1) [OF core] show ?thesis by simp
  next
    case 4
    with plain_process [OF core _ 4(1)] plain_solid [OF node 4(1)] show ?thesis by simp
  qed
qed

lemma plain_merger:
  assumes core: "plain_core s0 outs st" and ex: "rt_exec ev st = Some st'"
    and ev: "\<not> loop_event ev" "ev \<noteq> EnvCancel" "\<forall>c. ev \<noteq> EnvControl c"
  shows "plain_core s0 outs st'"
proof -
  have one: "is_input i st \<longleftrightarrow> i = 0" for i using core by (auto simp: plain_core_def is_input_def)
  have same: "flows op f upd s0 outs (taken_stream st) (rt_nr st) (rt_w st)" using core by (simp add: plain_core_def)
  show ?thesis
  proof (cases ev)
    case (MergerReceives i pick)
    with ex one have i: "i = 0" "rt_mergers st 0 = MergerRecv" by (auto simp: merger_receives_def split: if_splits)
    consider m b where "Buffer_Recv pick (ctx_Err (rt_nr st)) (rt_bufs st 0) = RecvOk m b"
        "st' = st\<lparr>rt_bufs := (rt_bufs st)(0 := b), rt_mergers := (rt_mergers st)(0 := MergerHolds m)\<rparr>"
      | e where "Buffer_Recv pick (ctx_Err (rt_nr st)) (rt_bufs st 0) = RecvErr e"
        "st' = st\<lparr>rt_mergers := (rt_mergers st)(0 := MergerExited)\<rparr>"
      using MergerReceives ex i by (auto simp: merger_receives_def split: if_splits recv_outcome.splits)
    then show ?thesis
    proof cases
      case 1
      note rb = conjunct2 [OF Buffer_Recv_Ok [OF 1(1)]]
      have "b_closed b = b_closed (rt_bufs st 0)" "b_capacity b = b_capacity (rt_bufs st 0)"
        using arg_cong [OF rb, of b_closed] arg_cong [OF rb, of b_capacity] by simp_all
      with core i(2) show ?thesis unfolding 1(2) by (auto simp: plain_core_def taken_stream_def)
    next
      case 2
      have "cancelled (rt_nr st)"
        using 2(1) core by (auto simp: Buffer_Recv_def ctx_Err_def plain_core_def Let_def split: list.splits if_splits)
      with core show ?thesis unfolding 2(2) by (auto simp: plain_core_def taken_stream_def)
    qed
  next
    case (MergerPuts i)
    then obtain m ims where "i = 0" "nr_merged (rt_nr st) = Some ims"
      "st' = st\<lparr>rt_nr := (rt_nr st)\<lparr>nr_merged := Some (ims @ [\<lparr>im_InputIndex = i, im_Msg = m\<rparr>])\<rparr>,
              rt_mergers := (rt_mergers st)(i := MergerRecv)\<rparr>" "rt_mergers st i = MergerHolds m"
      using ex one by (auto simp: merger_puts_def split: if_splits option.splits merger.splits)
    with core show ?thesis by (auto simp: plain_core_def taken_stream_def cancelled_def)
  next
    case (MergerDone i)
    then obtain m where "i = 0" "cancelled (rt_nr st)" "st' = st\<lparr>rt_mergers := (rt_mergers st)(i := MergerExited)\<rparr>"
      using ex one by (auto simp: merger_done_def split: if_splits merger.splits)
    with core show ?thesis by (auto simp: plain_core_def taken_stream_def)
  next
    case MergedClose
    then have "st' = st\<lparr>rt_mergedClosed := True\<rparr>" "rt_mergers st 0 = MergerExited"
      using ex core by (auto simp: close_merged_def plain_core_def split: if_splits)
    with core show ?thesis by (auto simp: plain_core_def taken_stream_def)
  next
    case (EnvInput i m)
    then obtain b where b: "Buffer_Send False None m (rt_bufs st i) = SendOk b"
      "st' = st\<lparr>rt_bufs := (rt_bufs st)(i := b), rt_sentTo := (rt_sentTo st)(i := rt_sentTo st i @ [m])\<rparr>"
      using ex by (auto simp: env_input_def split: send_outcome.splits)
    note sb = conjunct1 [OF Buffer_Send_Ok [OF b(1)]]
    have "b_closed b = b_closed (rt_bufs st i)" "b_capacity b = b_capacity (rt_bufs st i)"
      using arg_cong [OF sb, of b_closed] arg_cong [OF sb, of b_capacity] by simp_all
    with core show ?thesis unfolding b(2) by (auto simp: plain_core_def taken_stream_def)
  qed (use ev in \<open>auto simp: loop_event_def\<close>)
qed

lemma plain_node_step:
  assumes node: "plain_node s0 outs st" and ex: "rt_exec ev st = Some st'"
    and ev: "ev \<noteq> EnvCancel" "\<forall>c. ev \<noteq> EnvControl c" "\<forall>k m. ev = EnvInput k m \<longrightarrow> solid m"
  shows "plain_node s0 outs st'"
proof -
  have "plain_core s0 outs st" using node by (simp add: plain_node_def)
  with plain_loop [OF node ex] plain_merger [OF _ ex _ ev(1,2)] have "plain_core s0 outs st'" by blast
  moreover have "list_all solid (rt_sentTo st' 0)"
  proof (cases "\<exists>k m. ev = EnvInput k m")
    case True
    with ev(3) ex node env_input_effect(1) show ?thesis by (fastforce simp: plain_node_def)
  next
    case False
    with rt_exec_frame(2) [OF ex] node show ?thesis by (simp add: plain_node_def)
  qed
  ultimately show ?thesis
    using node indices_step [OF _ ex] fifo_step [OF _ ex] by (simp add: plain_node_def)
qed

end


section \<open>Plain runs of a network\<close>

text \<open>A run without control messages and without cancellations, except for the end of the sources.\<close>

primrec plain_event :: "'u net_event \<Rightarrow> bool" where
  "plain_event (NodeStep i ev) = (case ev of EnvCancel \<Rightarrow> False | EnvControl _ \<Rightarrow> False | EnvInput _ _ \<Rightarrow> False | _ \<Rightarrow> True)"
| "plain_event (MoveSent i) = True"
| "plain_event (SourceSends i) = True"
| "plain_event (SourceStops i) = True"

definition plain_source :: "bool \<Rightarrow> ('s, 'u) rt_state \<Rightarrow> bool" where
  "plain_source stopped st \<longleftrightarrow> (\<exists>n. nr_node (rt_nr st) = SrcNode n) \<and> nr_inputs (rt_nr st) = [] \<and> nr_merged (rt_nr st) = None \<and>
     nr_tickInterval (rt_nr st) = 0 \<and> nr_controlCh (rt_nr st) = [] \<and> nr_cancel (rt_nr st) \<noteq> None \<and>
     (cancelled (rt_nr st) \<longleftrightarrow> stopped) \<and> rt_point st \<in> {AtHead, AtSelect False, Exited} \<and>
     (rt_point st = Exited \<longrightarrow> cancelled (rt_nr st)) \<and> nr_err (rt_nr st) \<in> {None, Some Canceled} \<and> w_sent (rt_w st) = []"

lemma plain_source_step:
  assumes src: "plain_source stopped st" and ex: "rt_exec ev st = Some st'" and ev: "\<forall>c. ev \<noteq> EnvControl c"
  shows "plain_source (stopped \<or> ev = EnvCancel) st'"
proof -
  have st: "nr_merged (rt_nr st) = None" "nr_controlCh (rt_nr st) = []" "nr_tickInterval (rt_nr st) = 0" "nr_inputs (rt_nr st) = []"
    "rt_point st = AtHead \<or> rt_point st = AtSelect False \<or> rt_point st = Exited" "nr_cancel (rt_nr st) \<noteq> None"
    using src by (auto simp: plain_source_def)
  consider "ev = LoopHead" "st' = run_head st" | "ev = LoopDone" "cancelled (rt_nr st)" "st' = run_cancelled st"
    | "ev = EnvCancel" "st' = st\<lparr>rt_nr := Runtime_Stop (rt_nr st)\<rparr>"
    | "ev \<noteq> EnvCancel" "rt_nr st' = rt_nr st" "rt_w st' = rt_w st" "rt_point st' = rt_point st"
    using ev ex st
    by (cases ev) (auto simp: pop_control_def merger_receives_def merger_puts_def merger_done_def close_merged_def is_input_def
        env_input_def split: loop_point.splits if_splits send_outcome.splits)
  then show ?thesis
  proof cases
    case 1
    then have "st' = st\<lparr>rt_point := AtSelect False\<rparr>" using src by (auto simp: run_head_def plain_source_def)
    with src 1(1) show ?thesis by (simp add: plain_source_def)
  next
    case 2
    with src show ?thesis by (simp add: run_cancelled_def finish_def plain_source_def cancelled_def ctx_Err_def Let_def)
  next
    case 3
    with src st(6) show ?thesis by (auto simp: Runtime_Stop_def plain_source_def cancelled_def)
  next
    case 4
    with src show ?thesis by (auto simp: plain_source_def)
  qed
qed

text \<open>The node with index \<open>i\<close> in the pipeline, in a plain run.\<close>

definition plain_at ::
  "('s, 'u) GraphBuilder \<Rightarrow> string list \<Rightarrow> (nat \<Rightarrow> 'u DataMessage \<Rightarrow> 'u DataMessage list) \<Rightarrow> (nat \<Rightarrow> 'u DataMessage \<Rightarrow> 's \<Rightarrow> 's) \<Rightarrow>
     nat \<Rightarrow> ('s, 'u) rt_state \<Rightarrow> bool" where
  "plain_at b ids f upd i st \<longleftrightarrow>
     stream_operator.plain_node (on_operator (built_node b (ids ! i))) (f i) (upd i) (on_state (built_node b (ids ! i)))
       (if Suc i < length ids then [i] else []) st"

definition plain_net ::
  "('s, 'u) GraphBuilder \<Rightarrow> string list \<Rightarrow> ('s, 'u) Pipeline \<Rightarrow> (nat \<Rightarrow> 'u DataMessage \<Rightarrow> 'u DataMessage list) \<Rightarrow>
     (nat \<Rightarrow> 'u DataMessage \<Rightarrow> 's \<Rightarrow> 's) \<Rightarrow> ('s, 'u) net \<Rightarrow> bool" where
  "plain_net b ids p f upd nt \<longleftrightarrow> set (nt_running nt) \<subseteq> {0} \<and> plain_source (0 \<notin> set (nt_running nt)) (nt_nodes nt ! 0) \<and>
     (\<forall>i j. 0 < i \<and> i < length ids \<and> j < length ids \<and> Node_ID (nr_node (p_runtimes p ! j)) = ids ! i \<longrightarrow>
        plain_at b ids f upd i (nt_nodes nt ! j))"

lemma plain_at_step:
  assumes "stream_pipeline ids b f upd items" "0 < i" "i < length ids" "plain_at b ids f upd i st" "rt_exec ev st = Some st'"
    and "ev \<noteq> EnvCancel" "\<forall>c. ev \<noteq> EnvControl c" "\<forall>k m. ev = EnvInput k m \<longrightarrow> solid m"
  shows "plain_at b ids f upd i st'"
proof -
  have so: "stream_operator (on_operator (built_node b (ids ! i))) (f i) (upd i)" using assms(1-3) by (simp add: stream_pipeline_def)
  show ?thesis
    unfolding plain_at_def by (rule stream_operator.plain_node_step [OF so assms(4) [unfolded plain_at_def] assms(5-8)])
qed

lemma plain_at_sent:
  assumes "stream_pipeline ids b f upd items" "0 < i" "i < length ids" "plain_at b ids f upd i st"
  shows "list_all (\<lambda>x. solid (snd x)) (w_sent (rt_w st))"
proof -
  have so: "stream_operator (on_operator (built_node b (ids ! i))) (f i) (upd i)" using assms(1-3) by (simp add: stream_pipeline_def)
  show ?thesis
    using assms(4) unfolding plain_at_def stream_operator.plain_node_def [OF so] stream_operator.plain_core_def [OF so] solid_sent_def by blast
qed

lemma source_output_solid: "x \<in> set (source_output k items) \<Longrightarrow> solid (snd x)"
  by (auto simp: source_output_def solid_def)

lemma linear_source_index:
  fixes b :: "('s, 'u) GraphBuilder"
  assumes ok: "builder_ok b" "orders_ok ord b" and built: "Build ord b = Inr p" and lin: "linear ids b"
  shows "p_sourceRuntimes p = [0]" "Node_ID (nr_node (p_runtimes p ! 0)) = ids ! 0"
proof -
  note one = linear_sources [OF ok built lin]
  have "p_runtimes p \<noteq> []" using linear_runtimes(1) [OF ok built lin] lin by (auto simp: linear_def)
  then show "Node_ID (nr_node (p_runtimes p ! 0)) = ids ! 0"
    using build_nodes_wired(1) [OF ok built] one by (cases "p_runtimes p") simp_all
  show "p_sourceRuntimes p = [0]" using Build_sources(1) [OF built] one by simp
qed


lemma plain_event_rt:
  "plain_event (NodeStep i ev) \<longleftrightarrow> ev \<noteq> EnvCancel \<and> (\<forall>c. ev \<noteq> EnvControl c) \<and> \<not> env_put ev"
  by (cases ev) (simp_all add: env_put_def)

text \<open>An event of one node keeps the plain network if the node stays plain.\<close>

lemma plain_net_update:
  assumes "plain_net b ids p f upd nt" "k < length (nt_nodes nt)" "nt_running nt' = nt_running nt" "nt_nodes nt' = (nt_nodes nt)[k := st]"
    and "k = 0 \<Longrightarrow> plain_source (0 \<notin> set (nt_running nt)) st"
    and "\<And>i. 0 < i \<Longrightarrow> i < length ids \<Longrightarrow> Node_ID (nr_node (p_runtimes p ! k)) = ids ! i \<Longrightarrow> plain_at b ids f upd i st"
  shows "plain_net b ids p f upd nt'"
  using assms by (auto simp: plain_net_def nth_list_update)

lemma plain_net_put:
  assumes sp: "stream_pipeline ids b f upd items" and pl: "plain_net b ids p f upd nt" and inv: "net_inv programs nt"
    and put: "put_into who x nt = Some nt'" and x: "solid (snd x)" and len: "length (nt_nodes nt) = length ids"
  shows "plain_net b ids p f upd nt'"
proof -
  obtain j k st where c: "nt_consumer nt (fst x) = Some (j, k)" and st: "rt_exec (EnvInput k (snd x)) (nt_nodes nt ! j) = Some st"
    and nt': "nt' = nt\<lparr>nt_nodes := (nt_nodes nt)[j := st], nt_log := nt_log nt @ [(who, x)]\<rparr>"
    using put by (auto simp: put_into_def split: option.splits)
  have j: "j < length (nt_nodes nt)" using inv c by (simp add: net_inv_def consumers_ok_def)
  show ?thesis
  proof (rule plain_net_update [OF pl j])
    show "nt_running nt' = nt_running nt" "nt_nodes nt' = (nt_nodes nt)[j := st]" by (simp_all add: nt')
    show "plain_source (0 \<notin> set (nt_running nt)) st" if "j = 0"
      using plain_source_step [OF _ st] pl that by (auto simp: plain_net_def)
    show "plain_at b ids f upd i st" if "0 < i" "i < length ids" "Node_ID (nr_node (p_runtimes p ! j)) = ids ! i" for i
      by (rule plain_at_step [OF sp that(1,2) _ st]) (use pl that j len x in \<open>auto simp: plain_net_def\<close>)
  qed
qed

lemma plain_net_step:
  fixes b :: "('s, 'u) GraphBuilder"
  assumes ok: "builder_ok b" "orders_ok ord b" and built: "Build ord b = Inr p" and sp: "stream_pipeline ids b f upd items"
    and inv: "net_inv (\<lambda>i. if i = 0 then source_output 0 items else []) nt" and len: "length (nt_nodes nt) = length ids"
    and pl: "plain_net b ids p f upd nt" and ev: "plain_event ev" and ex: "net_exec ev nt = Some nt'"
  shows "plain_net b ids p f upd nt'"
proof -
  have lin: "linear ids b" using sp by (simp add: stream_pipeline_def)
  note rts = linear_runtimes [OF ok built lin]
  show ?thesis
  proof (cases ev)
    case (NodeStep i e)
    then obtain st where i: "i < length (nt_nodes nt)" and e: "rt_exec e (nt_nodes nt ! i) = Some st" "\<not> env_put e"
      and nt': "nt' = nt\<lparr>nt_nodes := (nt_nodes nt)[i := st]\<rparr>" and pe: "e \<noteq> EnvCancel" "\<forall>c. e \<noteq> EnvControl c"
      using ex ev by (auto simp: plain_event_rt simp del: plain_event.simps(1) split: if_splits)
    show ?thesis
    proof (rule plain_net_update [OF pl i])
      show "nt_running nt' = nt_running nt" "nt_nodes nt' = (nt_nodes nt)[i := st]" by (simp_all add: nt')
      show "plain_source (0 \<notin> set (nt_running nt)) st" if "i = 0"
        using plain_source_step [OF _ e(1) pe(2)] pl that pe(1) by (auto simp: plain_net_def)
      show "plain_at b ids f upd k st" if "0 < k" "k < length ids" "Node_ID (nr_node (p_runtimes p ! i)) = ids ! k" for k
        by (rule plain_at_step [OF sp that(1,2) _ e(1) pe]) (use pl that i len e(2) in \<open>auto simp: plain_net_def env_put_iff\<close>)
    qed
  next
    case (MoveSent j)
    let ?x = "w_sent (rt_w (nt_nodes nt ! j)) ! nt_moved nt j"
    obtain nt1 where j: "j < length (nt_nodes nt)" "nt_moved nt j < length (w_sent (rt_w (nt_nodes nt ! j)))"
      and put: "put_into (FromLoop j) ?x nt = Some nt1" and nt': "nt' = nt1\<lparr>nt_moved := (nt_moved nt1)(j := nt_moved nt1 j + 1)\<rparr>"
      using MoveSent ex by (auto split: if_splits)
    have jl: "j < length ids" using j len by simp
    then obtain i where i: "i < length ids" "Node_ID (nr_node (p_runtimes p ! j)) = ids ! i" using rts(4) by blast
    have "i \<noteq> 0"
    proof
      assume "i = 0"
      then have "j = 0" using linear_same [OF ok built lin jl, of 0] linear_source_index(2) [OF ok built lin] i(2) jl by (metis gr0I not_less0)
      with pl j(2) show False by (simp add: plain_net_def plain_source_def)
    qed
    then have "plain_at b ids f upd i (nt_nodes nt ! j)" using pl i jl by (simp add: plain_net_def)
    then have "solid (snd ?x)" using plain_at_sent [OF sp _ i(1)] \<open>i \<noteq> 0\<close> j(2) by (auto simp: list_all_length)
    from plain_net_put [OF sp pl inv put this len] show ?thesis by (simp add: nt' plain_net_def)
  next
    case (SourceSends j)
    then obtain x rest nt1 where src: "nt_source nt j = x # rest" and put: "put_into (FromSource j) x nt = Some nt1"
      and nt': "nt' = nt1\<lparr>nt_source := (nt_source nt1)(j := rest)\<rparr>"
      using ex by (auto split: list.splits)
    have "put_by (FromSource j) (nt_log nt) @ x # rest = (if j = 0 then source_output 0 items else [])"
      using inv src unfolding net_inv_def by metis
    then have "x \<in> set (source_output 0 items)" by (metis append_is_Nil_conv in_set_conv_decomp list.distinct(1))
    then have "solid (snd x)" by (rule source_output_solid)
    from plain_net_put [OF sp pl inv put this len] show ?thesis by (simp add: nt' plain_net_def)
  next
    case (SourceStops j)
    then obtain st where j: "j < length (nt_nodes nt)" "j \<in> set (nt_running nt)" and st: "rt_exec EnvCancel (nt_nodes nt ! j) = Some st"
      and nt': "nt' = nt\<lparr>nt_nodes := (nt_nodes nt)[j := st], nt_running := removeAll j (nt_running nt)\<rparr>"
      using ex by (auto simp del: rt_exec.simps split: if_splits)
    have j0: "j = 0" using j(2) pl by (auto simp: plain_net_def)
    have not0: "j' \<noteq> 0" if "0 < i" "i < length ids" "j' < length ids" "Node_ID (nr_node (p_runtimes p ! j')) = ids ! i" for i j'
      using linear_source_index(2) [OF ok built lin] that lin by (metis linear_def nth_eq_iff_index_eq less_trans less_numeral_extra(3))
    have "plain_source True st" using plain_source_step [OF _ st] pl j0 by (auto simp: plain_net_def)
    with pl not0 j(1) show ?thesis by (auto simp: nt' j0 plain_net_def nth_list_update)
  qed
qed


lemma new_runtimes:
  fixes b :: "('s, 'u) GraphBuilder"
  assumes built: "Build ord b = Inr p"
  shows "r \<in> set (p_runtimes p) \<Longrightarrow>
      nr_controlCh r = [] \<and> \<not> nr_paused r \<and> nr_err r = None \<and> nr_merged r = Some []"
    and "buf \<in> set (p_buffers p) \<Longrightarrow> b_ch buf = [] \<and> \<not> b_closed buf \<and> 0 < b_capacity buf"
proof -
  obtain wi :: "'u wiring" and h where wi: "wi = wire_edges (gb_bufferSizes b) (g_edges (gb_graph b))"
    and rts: "p_runtimes p =
       map (\<lambda>n. source_runtime wi n h (the (map_of (gb_sources b) n))) (bo_sources ord) @
       map (\<lambda>n. operator_runtime wi n h (the (map_of (gb_operators b) n))) (bo_operators ord) @
       map (\<lambda>n. sink_runtime wi n h (the (map_of (gb_sinks b) n))) (bo_sinks ord)"
    and bufs: "p_buffers p = wi_allBuffers wi @ (if build_dlSink b = None then [] else [NewBuffer DefaultBufferCapacity])"
    using built by (rule Build_parts)
  show "nr_controlCh r = [] \<and> \<not> nr_paused r \<and> nr_err r = None \<and> nr_merged r = Some []" if "r \<in> set (p_runtimes p)"
    using that by (auto simp: rts source_runtime_def operator_runtime_def sink_runtime_def NewNodeRuntime_def Let_def)
  show "b_ch buf = [] \<and> \<not> b_closed buf \<and> 0 < b_capacity buf" if "buf \<in> set (p_buffers p)"
    using that by (auto simp: bufs wi wire_edges_buffers NewBuffer_def DefaultBufferCapacity_def Let_def split: if_splits)
qed

lemma plain_net_start:
  fixes b :: "('s, 'u) GraphBuilder"
  assumes ok: "builder_ok b" "orders_ok ord b" and built: "Build ord b = Inr p" and sp: "stream_pipeline ids b f upd items"
    and w: "\<forall>i. clean_world (ws i)"
  shows "plain_net b ids p f upd (net_start False p ws sw)"
proof -
  have lin: "linear ids b" using sp by (simp add: stream_pipeline_def)
  note rts = linear_runtimes [OF ok built lin]
  have all: "all_runtimes p = p_runtimes p" by (simp add: all_runtimes_def rts(2))
  let ?nt = "net_start False p ws sw"
  have st: "nt_nodes ?nt ! j = start_state False (p_runtimes p ! j) (ws j) (\<lambda>k. p_buffers p ! (nr_inputs (p_runtimes p ! j) ! k))"
    if "j < length ids" for j
    using net_start_node [of j p False ws sw] that rts(1) by (simp add: all)
  have len: "0 < length ids" "2 \<le> length ids" using lin by (auto simp: linear_def)
  have new: "nr_controlCh r = [] \<and> \<not> nr_paused r \<and> nr_err r = None \<and> nr_merged r = Some []" if "j < length ids" "r = p_runtimes p ! j" for j r
    using new_runtimes(1) [OF built, of r] that rts(1) by simp
  have cw: "sends_ok (ws j)" "w_sent (ws j) = []" for j using w by (simp_all add: clean_world_def)
  have "plain_source False (nt_nodes ?nt ! 0)"
  proof -
    have "chain_runtime b ids 0 (p_runtimes p ! 0)"
      by (rule rts(5) [OF len(1) len(1)]) (rule linear_source_index(2) [OF ok built lin])
    with new [OF len(1) refl] cw show ?thesis
      unfolding st [OF len(1)]
      by (auto simp: plain_source_def start_state_def chain_runtime_def Runtime_Start_def cancelled_def Let_def)
  qed
  moreover have "plain_at b ids f upd i (nt_nodes ?nt ! j)"
    if i: "0 < i" "i < length ids" and j: "j < length ids" and id: "Node_ID (nr_node (p_runtimes p ! j)) = ids ! i" for i j
  proof -
    let ?r = "p_runtimes p ! j" and ?bufs = "\<lambda>k. p_buffers p ! (nr_inputs (p_runtimes p ! j) ! k)"
    have cr: "chain_runtime b ids i ?r" by (rule rts(5) [OF j i(2) id])
    have so: "stream_operator (on_operator (built_node b (ids ! i))) (f i) (upd i)" using sp i by (simp add: stream_pipeline_def)
    have inputs: "nr_inputs ?r = [i - 1]" using cr i(1) by (simp add: chain_runtime_def)
    have "i - 1 < length (p_buffers p)"
      using all_runtimes_built(1) [OF ok built, of ?r] j rts(1) by (simp add: all inputs)
    then have buf: "b_ch (?bufs 0) = []" "\<not> b_closed (?bufs 0)" "0 < b_capacity (?bufs 0)"
      using new_runtimes(2) [OF built] by (simp_all add: inputs)
    have nf: "stream_operator.node_flow (on_operator (built_node b (ids ! i))) (f i) (upd i) (on_state (built_node b (ids ! i)))
        (if Suc i < length ids then [i] else []) (start_state False ?r (ws j) ?bufs)"
      by (rule chain_start(2) [OF cr cw _ so]) (use i in simp)
    have "flows (on_operator (built_node b (ids ! i))) (f i) (upd i) (on_state (built_node b (ids ! i)))
        (if Suc i < length ids then [i] else []) [] (Runtime_Start False ?r) (ws j)"
      using nf unfolding stream_operator.node_flow_def [OF so] by (simp add: start_state_def taken_stream_def)
    with new [OF j refl] inputs buf cw show ?thesis
      unfolding st [OF j] plain_at_def stream_operator.plain_node_def [OF so] stream_operator.plain_core_def [OF so]
      by (simp add: start_state_def taken_stream_def solid_sent_def indices_ok_def fifo_def in_channel_def held_def of_input_def)
        (auto simp: Runtime_Start_def cancelled_def Let_def)
  qed
  ultimately show ?thesis by (simp add: plain_net_def linear_source_index(1) [OF ok built lin])
qed

lemma net_run_append: "net_run (evs @ evs') nt = (case net_run evs nt of None \<Rightarrow> None | Some nt \<Rightarrow> net_run evs' nt)"
  by (induction evs arbitrary: nt) (simp_all split: option.split)

lemma plain_net_run:
  fixes b :: "('s, 'u) GraphBuilder"
  assumes ok: "builder_ok b" "orders_ok ord b" and built: "Build ord b = Inr p" and sp: "stream_pipeline ids b f upd items"
    and w: "\<forall>i. clean_world (ws i)" "clean_world (sw 0)"
  shows "net_run evs (net_start False p ws sw) = Some nt \<Longrightarrow> list_all plain_event evs \<Longrightarrow> plain_net b ids p f upd nt"
proof (induction evs arbitrary: nt rule: rev_induct)
  case Nil
  then have "nt = net_start False p ws sw" by simp
  then show ?case using plain_net_start [OF ok built sp w(1), of sw] by simp
next
  case (snoc ev evs)
  then obtain nt1 where nt1: "net_run evs (net_start False p ws sw) = Some nt1" "net_exec ev nt1 = Some nt"
    by (auto simp: net_run_append split: option.splits)
  with snoc have "plain_net b ids p f upd nt1" "plain_event ev" by simp_all
  with stream_net_inv(1,4) [OF ok built sp w nt1(1)] show ?case
    by (intro plain_net_step [OF ok built sp _ _ _ _ nt1(2)])
qed

end
