(* ===== verification/Progress.thy ===== *)
theory Progress
  imports Delivery Plain_Runs
begin

text \<open>
  Linear pipelines make progress. In a plain run (\<open>Plain_Runs\<close>) every step decreases the work that is
  left (\<open>plain_step_work\<close>), so runs end; and a network in which no goroutine can go on has finished:
  a sender with something to send waits for room in a buffer, so its reader is not waiting for input,
  hence it has ended, hence it has taken its whole stream and there is nothing left to send
  (\<open>stuck_moved\<close>, \<open>stuck_complete\<close>).
\<close>

section \<open>A node that cannot go on\<close>

definition plain_rt :: "'u rt_event \<Rightarrow> bool" where
  "plain_rt ev \<longleftrightarrow> plain_event (NodeStep 0 ev)"

context stream_operator
begin

lemma stuck_node:
  assumes node: "plain_node s0 outs st" and stuck: "\<And>ev. plain_rt ev \<Longrightarrow> rt_exec ev st = None"
  shows "rt_point st \<noteq> AtHead" and "cancelled (rt_nr st) \<Longrightarrow> rt_point st = Exited"
    and "\<not> cancelled (rt_nr st) \<Longrightarrow> b_ch (rt_bufs st 0) = [] \<and> rt_sentTo st 0 = of_input 0 (rt_taken st)"
proof -
  have core: "plain_core s0 outs st" and ff: "fifo 0 st" using node by (simp_all add: plain_node_def)
  then have pt: "rt_point st \<in> {AtHead, AtSelect False, Exited}" "rt_point st = Exited \<longrightarrow> cancelled (rt_nr st)"
    "length (nr_inputs (rt_nr st)) = 1" "rt_mergers st 0 = MergerExited \<longrightarrow> cancelled (rt_nr st)"
    by (auto simp: plain_core_def)
  obtain ims where ims: "nr_merged (rt_nr st) = Some ims" using core by (auto simp: plain_core_def)
  have none: "rt_exec LoopHead st = None" "rt_exec LoopDone st = None" "rt_exec LoopMerged st = None"
    "rt_exec (MergerReceives 0 True) st = None" "rt_exec (MergerPuts 0) st = None"
    by (rule stuck; simp add: plain_rt_def)+
  show head: "rt_point st \<noteq> AtHead" using none(1) by auto
  show "rt_point st = Exited" if "cancelled (rt_nr st)"
    using none(2) that head pt(1) by auto
  show "b_ch (rt_bufs st 0) = [] \<and> rt_sentTo st 0 = of_input 0 (rt_taken st)" if run: "\<not> cancelled (rt_nr st)"
  proof -
    have "rt_point st = AtSelect False" using run head pt by auto
    with none(3) ims have ims0: "ims = []" by (cases ims) auto
    have recv: "rt_mergers st 0 = MergerRecv"
      using none(5) pt(3,4) run ims ims0
      by (cases "rt_mergers st 0") (auto simp: merger_puts_def is_input_def DefaultBufferCapacity_def)
    have "b_ch (rt_bufs st 0) = []"
      using none(4) pt(3) recv run
      by (auto simp: merger_receives_def is_input_def Buffer_Recv_def ctx_Err_def Let_def split: list.splits if_splits)
    with ff recv ims ims0 show ?thesis by (simp add: fifo_def in_channel_def held_def)
  qed
qed

text \<open>What a plain node has sent, as a stream: one element per message.\<close>

lemma plain_sent:
  assumes "plain_node s0 [k] st"
  shows "map fst (w_sent (rt_w st)) = replicate (length (w_sent (rt_w st))) k"
    and "m \<le> length (w_sent (rt_w st)) \<Longrightarrow> length (stream (sent_to k (take m (w_sent (rt_w st))))) = m"
    and "stream (sent_to k (w_sent (rt_w st))) = image_stream f (taken_stream st)"
proof -
  have fl: "flows op f upd s0 [k] (taken_stream st) (rt_nr st) (rt_w st)" and so: "solid_sent (rt_w st)"
    using assms by (simp_all add: plain_node_def plain_core_def)
  have all: "\<forall>x \<in> set (w_sent (rt_w st)). fst x = k" using fl by (auto simp: flows_def image_sent_def)
  then show "map fst (w_sent (rt_w st)) = replicate (length (w_sent (rt_w st))) k" by (simp add: map_replicate_const cong: map_cong)
  show "stream (sent_to k (w_sent (rt_w st))) = image_stream f (taken_stream st)"
    using fl by (simp add: flows_def image_sent_def)
  have one: "length (item_of m) = 1" if "solid m" for m :: "'b Message"
    using that by (cases rule: solid_cases) simp_all
  have "length (stream (sent_to k xs)) = length xs"
    if "\<forall>x \<in> set xs. fst x = k" "list_all (\<lambda>x. solid (snd x)) xs" for xs :: "(nat \<times> 'b Message) list"
    using that by (induction xs) (auto simp: sent_to_def one)
  note count = this [of "take m (w_sent (rt_w st))"]
  show "length (stream (sent_to k (take m (w_sent (rt_w st))))) = m" if "m \<le> length (w_sent (rt_w st))"
    using count all so that by (auto simp: solid_sent_def list_all_iff dest: in_set_takeD)
qed

lemma plain_silent:
  assumes "plain_node s0 [] st"
  shows "w_sent (rt_w st) = []"
  using assms by (auto simp: plain_node_def plain_core_def flows_def image_sent_def)

end


section \<open>A network that cannot go on\<close>

definition stuck :: "('s, 'u) net \<Rightarrow> bool" where
  "stuck nt \<longleftrightarrow> (\<forall>ev. plain_event ev \<longrightarrow> net_exec ev nt = None)"

lemma stuck_net:
  assumes "stuck nt"
  shows "i < length (nt_nodes nt) \<Longrightarrow> nt_moved nt i < length (w_sent (rt_w (nt_nodes nt ! i))) \<Longrightarrow>
      put_into (FromLoop i) (w_sent (rt_w (nt_nodes nt ! i)) ! nt_moved nt i) nt = None"
    and "nt_source nt i = x # rest \<Longrightarrow> put_into (FromSource i) x nt = None"
    and "i < length (nt_nodes nt) \<Longrightarrow> nt_source nt i = [] \<Longrightarrow> i \<notin> set (nt_running nt)"
proof -
  have "net_exec (MoveSent i) nt = None" "net_exec (SourceSends i) nt = None" "net_exec (SourceStops i) nt = None"
    using assms unfolding stuck_def by (metis plain_event.simps(2-4))+
  then show "i < length (nt_nodes nt) \<Longrightarrow> nt_moved nt i < length (w_sent (rt_w (nt_nodes nt ! i))) \<Longrightarrow>
      put_into (FromLoop i) (w_sent (rt_w (nt_nodes nt ! i)) ! nt_moved nt i) nt = None"
    "nt_source nt i = x # rest \<Longrightarrow> put_into (FromSource i) x nt = None"
    "i < length (nt_nodes nt) \<Longrightarrow> nt_source nt i = [] \<Longrightarrow> i \<notin> set (nt_running nt)"
    by (auto split: if_splits)
qed

lemma stuck_rt:
  assumes "stuck nt" "j < length (nt_nodes nt)" "nt_moved nt j = length (w_sent (rt_w (nt_nodes nt ! j)))" "plain_rt ev"
  shows "rt_exec ev (nt_nodes nt ! j) = None"
proof -
  have "plain_event (NodeStep j ev)" using assms(4) by (simp add: plain_rt_def)
  then have "net_exec (NodeStep j ev) nt = None" using assms(1) by (simp add: stuck_def del: plain_event.simps net_exec.simps)
  moreover have "\<not> env_put ev" using assms(4) by (simp add: plain_rt_def plain_event_rt del: plain_event.simps)
  ultimately show ?thesis using assms(2,3) by (simp split: if_splits)
qed

lemma prefix_full: "prefix xs (map Some ys @ [None]) \<Longrightarrow> None \<in> set xs \<Longrightarrow> xs = map Some ys @ [None]"
  by (auto simp: prefix_snoc dest!: set_mono_prefix)

text \<open>A node that has moved all it has sent and is stuck: it has got the whole stream, or there is room in its buffer.\<close>

lemma stuck_reader:
  fixes b :: "('s, 'u) GraphBuilder"
  assumes ok: "builder_ok b" "orders_ok ord b" and built: "Build ord b = Inr p" and sp: "stream_pipeline ids b f upd items"
    and w: "\<forall>i. clean_world (ws i)" "clean_world (sw 0)" and run: "net_run evs (net_start False p ws sw) = Some nt"
    and plain: "list_all plain_event evs" and st: "stuck nt"
    and i: "Suc i < length ids" and j: "j < length ids" and id: "Node_ID (nr_node (p_runtimes p ! j)) = ids ! Suc i"
    and moved: "nt_moved nt j = length (w_sent (rt_w (nt_nodes nt ! j)))"
  shows "cancelled (rt_nr (nt_nodes nt ! j)) \<Longrightarrow>
      rt_point (nt_nodes nt ! j) = Exited \<and> taken_stream (nt_nodes nt ! j) = map Some (chain_items f items i) @ [None]"
    and "\<not> cancelled (rt_nr (nt_nodes nt ! j)) \<Longrightarrow>
      taken_stream (nt_nodes nt ! j) = stream (put_in i (nt_log nt)) \<and> None \<notin> set (taken_stream (nt_nodes nt ! j)) \<and>
      (fst x = i \<longrightarrow> put_into who x nt \<noteq> None)"
proof -
  let ?st = "nt_nodes nt ! j" and ?op = "on_operator (built_node b (ids ! Suc i))"
  have so: "stream_operator ?op (f (Suc i)) (upd (Suc i))" using sp i by (simp add: stream_pipeline_def)
  have len: "length (nt_nodes nt) = length ids" by (rule stream_net_inv(4) [OF ok built sp w run])
  have node: "stream_operator.plain_node ?op (f (Suc i)) (upd (Suc i)) (on_state (built_node b (ids ! Suc i)))
      (if Suc (Suc i) < length ids then [Suc i] else []) ?st"
    using plain_net_run [OF ok built sp w run plain] i j id by (simp add: plain_net_def plain_at_def)
  have rt: "rt_exec ev ?st = None" if "plain_rt ev" for ev by (rule stuck_rt [OF st _ moved that]) (simp add: len j)
  have core: "cancelled (rt_nr ?st) \<longleftrightarrow> None \<in> set (taken_stream ?st)" "\<not> b_closed (rt_bufs ?st 0)" "0 < b_capacity (rt_bufs ?st 0)"
    using node unfolding stream_operator.plain_node_def [OF so] stream_operator.plain_core_def [OF so] by blast+
  note c = stream_consumer [OF ok built sp w run i j id]
  show "rt_point ?st = Exited \<and> taken_stream ?st = map Some (chain_items f items i) @ [None]" if "cancelled (rt_nr ?st)"
    using stream_operator.stuck_node(2) [OF so node rt that] prefix_full [OF stream_taken [OF ok built sp w run i j id]] core(1) that
    by blast
  show "taken_stream ?st = stream (put_in i (nt_log nt)) \<and> None \<notin> set (taken_stream ?st) \<and> (fst x = i \<longrightarrow> put_into who x nt \<noteq> None)"
    if run: "\<not> cancelled (rt_nr ?st)"
  proof -
    have e: "b_ch (rt_bufs ?st 0) = []" "rt_sentTo ?st 0 = of_input 0 (rt_taken ?st)"
      using stream_operator.stuck_node(3) [OF so node rt run] by blast+
    have "taken_stream ?st = stream (put_in i (nt_log nt))" using e(2) c(2,3) by (simp add: taken_stream_def)
    moreover have "put_into who x nt \<noteq> None" if "fst x = i"
      using that c(1) e(1) core(2,3) by (simp add: put_into_def env_input_def Buffer_Send_def Let_def)
    ultimately show ?thesis using core(1) run by simp
  qed
qed


lemma stream_image:
  fixes b :: "('s, 'u) GraphBuilder"
  assumes ok: "builder_ok b" "orders_ok ord b" and built: "Build ord b = Inr p" and sp: "stream_pipeline ids b f upd items"
    and w: "\<forall>i. clean_world (ws i)" "clean_world (sw 0)" and run: "net_run evs (net_start pc p ws sw) = Some nt"
    and i: "0 < i" "i < length ids" and j: "j < length ids" and id: "Node_ID (nr_node (p_runtimes p ! j)) = ids ! i"
  shows "prefix (image_stream (f i) (taken_stream (nt_nodes nt ! j))) (map Some (chain_items f items i) @ [None])"
proof -
  obtain i' where i': "i = Suc i'" using i(1) by (cases i) auto
  show ?thesis
    using prefix_streams(2) [OF stream_taken [OF ok built sp w run _ j id [unfolded i']], of "f i"] i(2)
    by (simp add: i' image_stream_Some)
qed

lemma stuck_moved:
  fixes b :: "('s, 'u) GraphBuilder"
  assumes ok: "builder_ok b" "orders_ok ord b" and built: "Build ord b = Inr p" and sp: "stream_pipeline ids b f upd items"
    and w: "\<forall>i. clean_world (ws i)" "clean_world (sw 0)" and run: "net_run evs (net_start False p ws sw) = Some nt"
    and plain: "list_all plain_event evs" and st: "stuck nt"
  shows "1 \<le> i \<Longrightarrow> i \<le> length ids - 1 \<Longrightarrow>
      \<forall>j < length ids. Node_ID (nr_node (p_runtimes p ! j)) = ids ! i \<longrightarrow> nt_moved nt j = length (w_sent (rt_w (nt_nodes nt ! j)))"
    and "nt_source nt 0 = []"
proof -
  have lin: "linear ids b" using sp by (simp add: stream_pipeline_def)
  then have two: "2 \<le> length ids" by (simp add: linear_def)
  note rts = linear_runtimes [OF ok built lin] and inv = stream_net_inv(1) [OF ok built sp w run]
  have len: "length (nt_nodes nt) = length ids" by (rule stream_net_inv(4) [OF ok built sp w run])
  have pl: "plain_net b ids p f upd nt" by (rule plain_net_run [OF ok built sp w run plain])
  have le: "nt_moved nt j \<le> length (w_sent (rt_w (nt_nodes nt ! j)))"
    "put_by (FromLoop j) (nt_log nt) = take (nt_moved nt j) (w_sent (rt_w (nt_nodes nt ! j)))" if "j < length ids" for j
    using inv that len by (simp_all add: net_inv_def)
  let ?P = "\<lambda>i. \<forall>j < length ids. Node_ID (nr_node (p_runtimes p ! j)) = ids ! i \<longrightarrow>
      nt_moved nt j = length (w_sent (rt_w (nt_nodes nt ! j)))"
  have base: "?P (length ids - 1)"
  proof (intro allI impI)
    fix j assume j: "j < length ids" "Node_ID (nr_node (p_runtimes p ! j)) = ids ! (length ids - 1)"
    let ?op = "on_operator (built_node b (ids ! (length ids - 1)))"
    have last: "(if Suc (length ids - 1) < length ids then [length ids - 1] else []) = []" using two by simp
    have so: "stream_operator ?op (f (length ids - 1)) (upd (length ids - 1))" using sp two by (simp add: stream_pipeline_def)
    have "plain_at b ids f upd (length ids - 1) (nt_nodes nt ! j)" using pl j two by (simp add: plain_net_def)
    then have "w_sent (rt_w (nt_nodes nt ! j)) = []"
      unfolding plain_at_def last by (rule stream_operator.plain_silent [OF so])
    with le(1) [OF j(1)] show "nt_moved nt j = length (w_sent (rt_w (nt_nodes nt ! j)))" by simp
  qed
  have step: "?P i" if i: "1 \<le> i" "i < length ids - 1" and IH: "?P (Suc i)" for i
  proof (intro allI impI)
    fix j assume j: "j < length ids" "Node_ID (nr_node (p_runtimes p ! j)) = ids ! i"
    have si: "Suc i < length ids" using i by simp
    obtain j' where j': "j' < length ids" "Node_ID (nr_node (p_runtimes p ! j')) = ids ! Suc i"
      using rts(3) [OF si] by blast
    note rd = stuck_reader [OF ok built sp w run plain st si j' IH [rule_format, OF j']]
    let ?w = "w_sent (rt_w (nt_nodes nt ! j))"
    have so: "stream_operator (on_operator (built_node b (ids ! i))) (f i) (upd i)" using sp i by (simp add: stream_pipeline_def)
    have "plain_at b ids f upd i (nt_nodes nt ! j)" using pl i j by (simp add: plain_net_def)
    then have node: "stream_operator.plain_node (on_operator (built_node b (ids ! i))) (f i) (upd i) (on_state (built_node b (ids ! i))) [i] (nt_nodes nt ! j)"
      using si by (simp only: plain_at_def if_True)
    note sent = stream_operator.plain_sent [OF so node]
    show "nt_moved nt j = length ?w"
    proof (rule ccontr)
      assume "nt_moved nt j \<noteq> length ?w"
      with le(1) [OF j(1)] have lt: "nt_moved nt j < length ?w" by simp
      then have to: "fst (?w ! nt_moved nt j) = i"
        using arg_cong [OF sent(1), of "\<lambda>xs. xs ! nt_moved nt j"] by simp
      have "put_into (FromLoop j) (?w ! nt_moved nt j) nt = None" using stuck_net(1) [OF st _ lt] j(1) len by simp
      then have c: "cancelled (rt_nr (nt_nodes nt ! j'))" using rd(2) to by blast
      then have "prefix (map Some (chain_items f items i) @ [None]) (stream (put_in i (nt_log nt)))"
        using rd(1) Linear.stream_reader [OF ok built sp w run si j'] by simp
      then have "length (chain_items f items i) + 1 \<le> length (stream (put_in i (nt_log nt)))" by (auto dest: prefix_length_le)
      also have "stream (put_in i (nt_log nt)) = stream (sent_to i (take (nt_moved nt j) ?w))"
        using stream_writer(1) [OF ok built sp w run _ j] i le(2) [OF j(1)] by simp
      also have "length \<dots> = nt_moved nt j" using sent(2) lt by simp
      also have "\<dots> < length (stream (sent_to i ?w))" using lt sent(2) [of "length ?w"] by simp
      also have "\<dots> \<le> length (chain_items f items i) + 1"
        using prefix_length_le [OF stream_image [OF ok built sp w run _ _ j]] i by (simp add: sent(3))
      finally show False by simp
    qed
  qed
  show P: "?P i" if "1 \<le> i" "i \<le> length ids - 1" for i
    using that(2,1) base
  proof (induction i rule: inc_induct)
    case (step i)
    with \<open>\<And>i. 1 \<le> i \<Longrightarrow> i < length ids - 1 \<Longrightarrow> ?P (Suc i) \<Longrightarrow> ?P i\<close> show ?case by simp
  qed
  show "nt_source nt 0 = []"
  proof (rule ccontr)
    assume ne: "nt_source nt 0 \<noteq> []"
    then obtain x rest where x: "nt_source nt 0 = x # rest" by (cases "nt_source nt 0") auto
    have prog: "put_by (FromSource 0) (nt_log nt) @ nt_source nt 0 = source_output 0 items" using inv unfolding net_inv_def by metis
    then have "x \<in> set (source_output 0 items)" by (metis x in_set_conv_decomp)
    then have "fst x = 0" by (auto simp: source_output_def)
    have one: "Suc 0 < length ids" using two by simp
    obtain j' where j': "j' < length ids" "Node_ID (nr_node (p_runtimes p ! j')) = ids ! Suc 0" using rts(3) [OF one] by blast
    have "nt_moved nt j' = length (w_sent (rt_w (nt_nodes nt ! j')))" using P [of 1] j' two by simp
    note rd = stuck_reader [OF ok built sp w run plain st one j' this]
    have "put_into (FromSource 0) x nt = None" by (rule stuck_net(2) [OF st x])
    then have "cancelled (rt_nr (nt_nodes nt ! j'))" using rd(2) \<open>fst x = 0\<close> by blast
    then have "prefix (map Some items @ [None]) (stream (put_in 0 (nt_log nt)))"
      using rd(1) Linear.stream_reader [OF ok built sp w run one j'] by simp
    moreover have zero: "0 < length ids" using two by linarith
    obtain j0 where j0: "j0 < length ids" "Node_ID (nr_node (p_runtimes p ! j0)) = ids ! 0" using rts(3) [OF zero] by blast
    have "stream (put_in 0 (nt_log nt)) = stream (sent_to 0 (put_by (FromSource 0) (nt_log nt)))"
      using stream_writer(1) [OF ok built sp w run zero j0] by simp
    moreover have "map Some items @ [None] = stream (sent_to 0 (put_by (FromSource 0) (nt_log nt))) @ stream (sent_to 0 (nt_source nt 0))"
      using arg_cong [OF prog, of "\<lambda>l. stream (sent_to 0 l)"] stream_source_output [of 0 items] by simp
    ultimately have "stream (sent_to 0 (nt_source nt 0)) = []" by (metis append_Nil2 prefix_def same_append_eq append.assoc append_is_Nil_conv)
    moreover have "solid (snd x)" using source_output_solid \<open>x \<in> set (source_output 0 items)\<close> by blast
    ultimately show False using \<open>fst x = 0\<close> by (cases x) (simp add: x solid_def)
  qed
qed


text \<open>A plain run that cannot go on is complete: every node has handled the whole stream and has ended.\<close>

lemma stuck_complete:
  fixes b :: "('s, 'u) GraphBuilder"
  assumes ok: "builder_ok b" "orders_ok ord b" and built: "Build ord b = Inr p" and sp: "stream_pipeline ids b f upd items"
    and w: "\<forall>i. clean_world (ws i)" "clean_world (sw 0)" and run: "net_run evs (net_start False p ws sw) = Some nt"
    and plain: "list_all plain_event evs" and st: "stuck nt"
  shows "Suc i < length ids \<Longrightarrow> j < length ids \<Longrightarrow> Node_ID (nr_node (p_runtimes p ! j)) = ids ! Suc i \<Longrightarrow>
      rt_point (nt_nodes nt ! j) = Exited \<and> taken_stream (nt_nodes nt ! j) = map Some (chain_items f items i) @ [None]"
proof -
  have lin: "linear ids b" using sp by (simp add: stream_pipeline_def)
  then have two: "2 \<le> length ids" by (simp add: linear_def)
  note rts = linear_runtimes [OF ok built lin] and inv = stream_net_inv(1) [OF ok built sp w run]
  note moved = stuck_moved(1) [OF ok built sp w run plain st]
  have len: "length (nt_nodes nt) = length ids" by (rule stream_net_inv(4) [OF ok built sp w run])
  have pl: "plain_net b ids p f upd nt" by (rule plain_net_run [OF ok built sp w run plain])
  have goal: "rt_point (nt_nodes nt ! j) = Exited \<and> taken_stream (nt_nodes nt ! j) = map Some (chain_items f items i) @ [None]"
    if i: "Suc i < length ids" and j: "j < length ids" and id: "Node_ID (nr_node (p_runtimes p ! j)) = ids ! Suc i"
      and full: "stream (put_in i (nt_log nt)) = map Some (chain_items f items i) @ [None]" for i j
  proof -
    have mv: "nt_moved nt j = length (w_sent (rt_w (nt_nodes nt ! j)))" using moved [of "Suc i"] i j id by simp
    note rd = stuck_reader [OF ok built sp w run plain st i j id mv]
    show ?thesis
    proof (cases "cancelled (rt_nr (nt_nodes nt ! j))")
      case True
      then show ?thesis by (rule rd(1))
    next
      case False
      with rd(2) have "taken_stream (nt_nodes nt ! j) = stream (put_in i (nt_log nt))" "None \<notin> set (taken_stream (nt_nodes nt ! j))"
        by blast+
      with full show ?thesis by simp
    qed
  qed
  show "Suc i < length ids \<Longrightarrow> j < length ids \<Longrightarrow> Node_ID (nr_node (p_runtimes p ! j)) = ids ! Suc i \<Longrightarrow>
      rt_point (nt_nodes nt ! j) = Exited \<and> taken_stream (nt_nodes nt ! j) = map Some (chain_items f items i) @ [None]"
  proof (induction i arbitrary: j)
    case (0 j)
    have zero: "0 < length ids" using two by linarith
    obtain j0 where j0: "j0 < length ids" "Node_ID (nr_node (p_runtimes p ! j0)) = ids ! 0" using rts(3) [OF zero] by blast
    have "put_by (FromSource 0) (nt_log nt) @ nt_source nt 0 = source_output 0 items" using inv unfolding net_inv_def by metis
    then have "put_by (FromSource 0) (nt_log nt) = source_output 0 items" by (simp add: stuck_moved(2) [OF ok built sp w run plain st])
    then have "stream (put_in 0 (nt_log nt)) = map Some (chain_items f items 0) @ [None]"
      using stream_writer(1) [OF ok built sp w run zero j0] by (simp add: stream_source_output)
    with goal 0 show ?case by simp
  next
    case (Suc i j)
    have i: "Suc i < length ids" using Suc.prems(1) by simp
    obtain j' where j': "j' < length ids" "Node_ID (nr_node (p_runtimes p ! j')) = ids ! Suc i" using rts(3) [OF i] by blast
    have so: "stream_operator (on_operator (built_node b (ids ! Suc i))) (f (Suc i)) (upd (Suc i))" using sp i by (simp add: stream_pipeline_def)
    have "plain_at b ids f upd (Suc i) (nt_nodes nt ! j')" using pl i j' by (simp add: plain_net_def)
    then have "stream_operator.plain_node (on_operator (built_node b (ids ! Suc i))) (f (Suc i)) (upd (Suc i))
        (on_state (built_node b (ids ! Suc i))) [Suc i] (nt_nodes nt ! j')"
      using Suc.prems(1) by (simp only: plain_at_def if_True)
    then have "stream (sent_to (Suc i) (w_sent (rt_w (nt_nodes nt ! j')))) = image_stream (f (Suc i)) (taken_stream (nt_nodes nt ! j'))"
      by (rule stream_operator.plain_sent(3) [OF so])
    also have "\<dots> = map Some (chain_items f items (Suc i)) @ [None]"
      using Suc.IH [OF i j'] by (simp add: image_stream_Some)
    finally have sent: "stream (sent_to (Suc i) (w_sent (rt_w (nt_nodes nt ! j')))) = map Some (chain_items f items (Suc i)) @ [None]" .
    have "nt_moved nt j' = length (w_sent (rt_w (nt_nodes nt ! j')))" using moved [of "Suc i"] i j' by simp
    then have "put_by (FromLoop j') (nt_log nt) = w_sent (rt_w (nt_nodes nt ! j'))" using inv j'(1) len by (simp add: net_inv_def)
    then have "stream (put_in (Suc i) (nt_log nt)) = map Some (chain_items f items (Suc i)) @ [None]"
      using stream_writer(1) [OF ok built sp w run i j'] sent by simp
    with goal Suc.prems show ?case by simp
  qed
qed


section \<open>Every plain run ends\<close>

text \<open>The work left: every step moves a message one stage on, moves a loop on, or ends a goroutine.\<close>

primrec point_work :: "'u loop_point \<Rightarrow> nat" where
  "point_work AtHead = 2"
| "point_work (AtSelect _) = 1"
| "point_work (Waiting _) = 0"
| "point_work Exited = 0"
| "point_work Panicked = 0"

definition node_work :: "('s, 'u) rt_state \<Rightarrow> nat" where
  "node_work st =
     (if nr_inputs (rt_nr st) = [] then 0 else 4 * length (b_ch (rt_bufs st 0))) + 3 * length (held (rt_mergers st 0)) + 2 * length (in_channel st) + point_work (rt_point st) +
     (if rt_mergers st 0 = MergerExited then 0 else 1) + (if rt_mergedClosed st then 0 else 1)"

definition net_work :: "nat \<Rightarrow> ('s, 'u) net \<Rightarrow> nat" where
  "net_work M nt =
     5 * length (nt_source nt 0) + length (nt_running nt) + sum_list (map node_work (nt_nodes nt)) +
     (\<Sum>j<length (nt_nodes nt). 5 * (M - nt_moved nt j))"

lemma loop_move_work:
  assumes "loop_move st st'"
  shows "node_work st' + point_work (rt_point st) = node_work st + point_work (rt_point st')"
proof -
  have "rt_bufs st' = rt_bufs st" "rt_mergers st' = rt_mergers st" "rt_mergedClosed st' = rt_mergedClosed st"
    using assms by (auto simp: loop_move_def finish_def Let_def)
  with loop_move_keeps [OF assms] show ?thesis by (simp add: node_work_def)
qed

lemma point_work_le: "point_work pt \<le> 2"
  by (cases pt) simp_all

lemma merger_work:
  assumes ex: "rt_exec ev st = Some st'" and one: "\<And>i. is_input i st \<Longrightarrow> i = 0" and ev: "\<not> loop_event ev" "plain_rt ev"
  shows "node_work st' < node_work st"
proof (cases ev)
  case (MergerReceives i pick)
  with ex one have i: "i = 0" "rt_mergers st 0 = MergerRecv" by (auto simp: merger_receives_def split: if_splits)
  consider m b where "Buffer_Recv pick (ctx_Err (rt_nr st)) (rt_bufs st 0) = RecvOk m b"
      "st' = st\<lparr>rt_bufs := (rt_bufs st)(0 := b), rt_mergers := (rt_mergers st)(0 := MergerHolds m)\<rparr>"
    | "st' = st\<lparr>rt_mergers := (rt_mergers st)(0 := MergerExited)\<rparr>"
    using MergerReceives ex i by (auto simp: merger_receives_def split: if_splits recv_outcome.splits)
  then show ?thesis
  proof cases
    case 1
    have "b_ch (rt_bufs st 0) = m # b_ch b" by (rule conjunct1 [OF Buffer_Recv_Ok [OF 1(1)]])
    moreover have "nr_inputs (rt_nr st) \<noteq> []" using MergerReceives ex by (auto simp: merger_receives_def is_input_def split: if_splits)
    ultimately show ?thesis using 1(2) i(2) by (simp add: node_work_def held_def in_channel_def)
  next
    case 2
    with i(2) show ?thesis by (simp add: node_work_def held_def in_channel_def)
  qed
next
  case (MergerPuts i)
  then obtain m ims where "is_input i st" "nr_merged (rt_nr st) = Some ims"
    "st' = st\<lparr>rt_nr := (rt_nr st)\<lparr>nr_merged := Some (ims @ [\<lparr>im_InputIndex = i, im_Msg = m\<rparr>])\<rparr>,
            rt_mergers := (rt_mergers st)(i := MergerRecv)\<rparr>" "rt_mergers st i = MergerHolds m"
    using ex by (auto simp: merger_puts_def split: if_splits option.splits merger.splits)
  moreover from this one have "i = 0" by simp
  ultimately show ?thesis by (simp add: node_work_def held_def in_channel_def)
next
  case (MergerDone i)
  then obtain m where "is_input i st" "st' = st\<lparr>rt_mergers := (rt_mergers st)(i := MergerExited)\<rparr>" "rt_mergers st i = MergerHolds m"
    using ex by (auto simp: merger_done_def split: if_splits merger.splits)
  moreover from this one have "i = 0" by simp
  ultimately show ?thesis by (simp add: node_work_def held_def in_channel_def)
next
  case MergedClose
  then have "st' = st\<lparr>rt_mergedClosed := True\<rparr>" "\<not> rt_mergedClosed st"
    using ex by (auto simp: close_merged_def split: if_splits)
  then show ?thesis by (simp add: node_work_def in_channel_def)
qed (use ev in \<open>simp_all add: loop_event_def plain_rt_def\<close>)

lemma loop_work:
  assumes ex: "rt_exec ev st = Some st'" and ev: "loop_event ev"
    and st: "rt_point st = AtHead \<or> rt_point st = AtSelect False \<or> rt_point st = Exited" "nr_controlCh (rt_nr st) = []"
      "nr_tickInterval (rt_nr st) = 0" "getTimerManager (nr_node (rt_nr st)) (rt_w st) = None"
  shows "node_work st' < node_work st"
proof -
  consider "rt_point st = AtHead" "st' = st\<lparr>rt_point := AtSelect False\<rparr>"
    | "rt_point st = AtSelect False" "st' = run_cancelled st \<or> st' = finish st"
    | im ims where "rt_point st = AtSelect False" "nr_merged (rt_nr st) = Some (im # ims)" "st' = run_merged im (take_im im ims st)"
    using ev ex st
    by (auto simp: loop_event_def pop_control_def take_im_def run_head_def split: if_splits option.splits list.splits)
  then show ?thesis
  proof cases
    case 1
    then show ?thesis by (simp add: node_work_def in_channel_def)
  next
    case 2
    then show ?thesis by (auto simp: node_work_def in_channel_def run_cancelled_def finish_def Let_def)
  next
    case 3
    have "node_work (take_im im ims st) + 2 = node_work st" using 3(2) by (simp add: node_work_def take_im_def in_channel_def)
    moreover have "loop_move (take_im im ims st) st'"
      unfolding 3(3) by (rule run_merged_move)
    then have "node_work st' + 1 = node_work (take_im im ims st) + point_work (rt_point st')"
      using loop_move_work 3(1) by (fastforce simp: take_im_def)
    ultimately show ?thesis using point_work_le [of "rt_point st'"] by linarith
  qed
qed


text \<open>The step of a node that works for itself decreases its work; the source has no mergers.\<close>

context stream_operator
begin

lemma plain_node_work:
  assumes node: "plain_node s0 outs st" and ex: "rt_exec ev st = Some st'" and ev: "plain_rt ev"
  shows "node_work st' < node_work st"
proof -
  have core: "plain_core s0 outs st" using node by (simp add: plain_node_def)
  then have one: "\<And>i. is_input i st \<Longrightarrow> i = 0" by (auto simp: plain_core_def is_input_def)
  have "getTimerManager (nr_node (rt_nr st)) (rt_w st) = None" using core by (auto simp: plain_core_def flows_def)
  moreover have "rt_point st = AtHead \<or> rt_point st = AtSelect False \<or> rt_point st = Exited" "nr_controlCh (rt_nr st) = []"
    "nr_tickInterval (rt_nr st) = 0"
    using core by (auto simp: plain_core_def flows_def)
  ultimately show ?thesis using loop_work [OF ex] merger_work [OF ex one _ ev] by blast
qed

end

lemma plain_source_work:
  assumes src: "plain_source stopped st" and ex: "rt_exec ev st = Some st'" and ev: "plain_rt ev"
  shows "node_work st' < node_work st"
proof -
  have "\<And>i. \<not> is_input i st" using src by (auto simp: plain_source_def is_input_def)
  moreover have "getTimerManager (nr_node (rt_nr st)) (rt_w st) = None" using src by (auto simp: plain_source_def)
  moreover have "rt_point st = AtHead \<or> rt_point st = AtSelect False \<or> rt_point st = Exited" "nr_controlCh (rt_nr st) = []"
    "nr_tickInterval (rt_nr st) = 0"
    using src by (auto simp: plain_source_def)
  ultimately show ?thesis using loop_work [OF ex] merger_work [OF ex _ _ ev] by blast
qed

lemma stuck_source:
  assumes src: "plain_source True st" and none: "\<And>ev. plain_rt ev \<Longrightarrow> rt_exec ev st = None"
  shows "rt_point st = Exited"
proof -
  have "rt_exec LoopHead st = None" "rt_exec LoopDone st = None" by (rule none; simp add: plain_rt_def)+
  with src show ?thesis by (auto simp: plain_source_def)
qed

text \<open>Putting a message into a buffer costs four steps of its reader.\<close>

lemma put_work:
  assumes put: "put_into who x nt = Some nt'" and cons: "consumers_ok nt"
    and one: "\<And>j. j < length (nt_nodes nt) \<Longrightarrow> length (nr_inputs (rt_nr (nt_nodes nt ! j))) \<le> 1"
  shows "sum_list (map node_work (nt_nodes nt')) = sum_list (map node_work (nt_nodes nt)) + 4"
    and "length (nt_nodes nt') = length (nt_nodes nt)" "nt_moved nt' = nt_moved nt" "nt_source nt' = nt_source nt" "nt_running nt' = nt_running nt"
proof -
  obtain j k st where c: "nt_consumer nt (fst x) = Some (j, k)" and st: "env_input k (snd x) (nt_nodes nt ! j) = Some st"
    and nt': "nt' = nt\<lparr>nt_nodes := (nt_nodes nt)[j := st], nt_log := nt_log nt @ [(who, x)]\<rparr>"
    using put by (auto simp: put_into_def split: option.splits)
  have j: "j < length (nt_nodes nt)" "k < length (nr_inputs (rt_nr (nt_nodes nt ! j)))" using cons c by (auto simp: consumers_ok_def)
  with one [OF j(1)] have k: "k = 0" by linarith
  obtain buf where b: "Buffer_Send False None (snd x) (rt_bufs (nt_nodes nt ! j) 0) = SendOk buf"
    and s: "st = (nt_nodes nt ! j)\<lparr>rt_bufs := (rt_bufs (nt_nodes nt ! j))(0 := buf),
        rt_sentTo := (rt_sentTo (nt_nodes nt ! j))(0 := rt_sentTo (nt_nodes nt ! j) 0 @ [snd x])\<rparr>"
    using st k by (auto simp: env_input_def split: send_outcome.splits)
  have "b_ch buf = b_ch (rt_bufs (nt_nodes nt ! j) 0) @ [snd x]"
    using arg_cong [OF conjunct1 [OF Buffer_Send_Ok [OF b]], of b_ch] by simp
  moreover have "nr_inputs (rt_nr (nt_nodes nt ! j)) \<noteq> []" using j(2) by auto
  ultimately have "node_work st = node_work (nt_nodes nt ! j) + 4"
    unfolding s by (simp add: node_work_def in_channel_def)
  with sum_list_update_plus [OF j(1), of node_work st]
  show "sum_list (map node_work (nt_nodes nt')) = sum_list (map node_work (nt_nodes nt)) + 4"
    by (simp add: nt')
  show "length (nt_nodes nt') = length (nt_nodes nt)" "nt_moved nt' = nt_moved nt" "nt_source nt' = nt_source nt" "nt_running nt' = nt_running nt"
    by (simp_all add: nt')
qed


text \<open>A bound on what every node sends, and the work of a pipeline that starts.\<close>

definition sends_bound :: "string list \<Rightarrow> (nat \<Rightarrow> 'u DataMessage \<Rightarrow> 'u DataMessage list) \<Rightarrow> 'u DataMessage list \<Rightarrow> nat" where
  "sends_bound ids f items = (\<Sum>i<length ids. length (chain_items f items i) + 1)"

definition steps_bound :: "string list \<Rightarrow> (nat \<Rightarrow> 'u DataMessage \<Rightarrow> 'u DataMessage list) \<Rightarrow> 'u DataMessage list \<Rightarrow> nat" where
  "steps_bound ids f items = 5 * (length items + 1) + 1 + length ids * (4 + 5 * sends_bound ids f items)"

lemma sends_bound_ge: "i < length ids \<Longrightarrow> length (chain_items f items i) + 1 \<le> sends_bound ids f items"
  unfolding sends_bound_def by (rule member_le_sum [where f = "\<lambda>i. length (chain_items f items i) + 1"]) simp_all

lemma plain_sends_few:
  fixes b :: "('s, 'u) GraphBuilder"
  assumes ok: "builder_ok b" "orders_ok ord b" and built: "Build ord b = Inr p" and sp: "stream_pipeline ids b f upd items"
    and w: "\<forall>i. clean_world (ws i)" "clean_world (sw 0)" and run: "net_run evs (net_start False p ws sw) = Some nt"
    and plain: "list_all plain_event evs" and j: "j < length ids"
  shows "length (w_sent (rt_w (nt_nodes nt ! j))) \<le> sends_bound ids f items"
proof -
  have lin: "linear ids b" using sp by (simp add: stream_pipeline_def)
  have pl: "plain_net b ids p f upd nt" by (rule plain_net_run [OF ok built sp w run plain])
  obtain i where i: "i < length ids" "Node_ID (nr_node (p_runtimes p ! j)) = ids ! i"
    using linear_runtimes(4) [OF ok built lin j] by blast
  show ?thesis
  proof (cases "i = 0")
    case True
    have "0 < length ids" using j by linarith
    then have "j = 0" using linear_same [OF ok built lin j] linear_source_index(2) [OF ok built lin] i(2) True by metis
    with pl show ?thesis by (simp add: plain_net_def plain_source_def)
  next
    case False
    have so: "stream_operator (on_operator (built_node b (ids ! i))) (f i) (upd i)" using sp i False by (simp add: stream_pipeline_def)
    have at: "plain_at b ids f upd i (nt_nodes nt ! j)" using pl i j False by (simp add: plain_net_def)
    show ?thesis
    proof (cases "Suc i < length ids")
      case True
      then have node: "stream_operator.plain_node (on_operator (built_node b (ids ! i))) (f i) (upd i) (on_state (built_node b (ids ! i))) [i] (nt_nodes nt ! j)"
        using at by (simp only: plain_at_def if_True)
      note sent = stream_operator.plain_sent [OF so node]
      have "length (w_sent (rt_w (nt_nodes nt ! j))) = length (image_stream (f i) (taken_stream (nt_nodes nt ! j)))"
        using sent(2) [of "length (w_sent (rt_w (nt_nodes nt ! j)))"] by (simp add: sent(3))
      also have "\<dots> \<le> length (chain_items f items i) + 1"
        using prefix_length_le [OF stream_image [OF ok built sp w run _ i(1) j i(2)]] False by simp
      finally show ?thesis using sends_bound_ge [OF i(1), of f items] by linarith
    next
      case False
      then have "(if Suc i < length ids then [i] else []) = []" by simp
      then have "stream_operator.plain_node (on_operator (built_node b (ids ! i))) (f i) (upd i) (on_state (built_node b (ids ! i))) [] (nt_nodes nt ! j)"
        using at by (simp only: plain_at_def)
      then show ?thesis by (simp add: stream_operator.plain_silent [OF so])
    qed
  qed
qed

text \<open>Every step of a plain run decreases the work.\<close>

lemma plain_step_work:
  fixes b :: "('s, 'u) GraphBuilder"
  assumes ok: "builder_ok b" "orders_ok ord b" and built: "Build ord b = Inr p" and sp: "stream_pipeline ids b f upd items"
    and w: "\<forall>i. clean_world (ws i)" "clean_world (sw 0)" and run: "net_run evs (net_start False p ws sw) = Some nt"
    and plain: "list_all plain_event evs" and ev: "plain_event ev" and ex: "net_exec ev nt = Some nt'"
  shows "net_work (sends_bound ids f items) nt' < net_work (sends_bound ids f items) nt"
proof -
  let ?M = "sends_bound ids f items"
  have lin: "linear ids b" using sp by (simp add: stream_pipeline_def)
  note rts = linear_runtimes [OF ok built lin] and inv = stream_net_inv(1) [OF ok built sp w run]
  have len: "length (nt_nodes nt) = length ids" by (rule stream_net_inv(4) [OF ok built sp w run])
  have pl: "plain_net b ids p f upd nt" by (rule plain_net_run [OF ok built sp w run plain])
  have cons: "consumers_ok nt" using inv by (simp add: net_inv_def)
  have one: "length (nr_inputs (rt_nr (nt_nodes nt ! j))) \<le> 1" if j: "j < length (nt_nodes nt)" for j
  proof -
    obtain i where i: "i < length ids" "Node_ID (nr_node (p_runtimes p ! j)) = ids ! i" using rts(4) j len by auto
    show ?thesis using stream_nodes(4) [OF ok built sp w run i(1) _ i(2)] j len by simp
  qed
  have step: "node_work st < node_work (nt_nodes nt ! j)"
    if j: "j < length ids" and e: "rt_exec e (nt_nodes nt ! j) = Some st" "plain_rt e" for j e st
  proof -
    obtain i where i: "i < length ids" "Node_ID (nr_node (p_runtimes p ! j)) = ids ! i" using rts(4) j by blast
    show ?thesis
    proof (cases "i = 0")
      case True
      then have "j = 0" using linear_same [OF ok built lin j] linear_source_index(2) [OF ok built lin] i by metis
      with pl show ?thesis by (intro plain_source_work [of "0 \<notin> set (nt_running nt)", OF _ e]) (simp add: plain_net_def)
    next
      case False
      have so: "stream_operator (on_operator (built_node b (ids ! i))) (f i) (upd i)" using sp i False by (simp add: stream_pipeline_def)
      have "plain_at b ids f upd i (nt_nodes nt ! j)" using pl i j False by (simp add: plain_net_def)
      from stream_operator.plain_node_work [OF so this [unfolded plain_at_def] e] show ?thesis .
    qed
  qed
  show ?thesis
  proof (cases ev)
    case (NodeStep j e)
    then obtain st where j: "j < length ids" and e: "rt_exec e (nt_nodes nt ! j) = Some st"
      and nt': "nt' = nt\<lparr>nt_nodes := (nt_nodes nt)[j := st]\<rparr>"
      using ex len by (auto split: if_splits)
    have "plain_rt e" using ev NodeStep by (simp add: plain_rt_def)
    with step [OF j e] sum_list_update_plus [of j "nt_nodes nt" node_work st] j len show ?thesis by (simp add: net_work_def nt')
  next
    case (MoveSent j)
    then obtain nt1 where j: "j < length ids" "nt_moved nt j < length (w_sent (rt_w (nt_nodes nt ! j)))"
      and put: "put_into (FromLoop j) (w_sent (rt_w (nt_nodes nt ! j)) ! nt_moved nt j) nt = Some nt1"
      and nt': "nt' = nt1\<lparr>nt_moved := (nt_moved nt1)(j := nt_moved nt1 j + 1)\<rparr>"
      using ex len by (auto split: if_splits)
    note pw = put_work [OF put cons one]
    have "nt_moved nt j < ?M" using j(2) plain_sends_few [OF ok built sp w run plain j(1)] by simp
    then have "(\<Sum>k<length ids. 5 * (?M - nt_moved nt k)) = (\<Sum>k<length ids. 5 * (?M - nt_moved nt' k)) + 5"
      using j(1) by (subst (1 2) sum.remove [of _ j]) (simp_all add: nt' pw(3))
    with pw len show ?thesis by (simp add: net_work_def nt')
  next
    case (SourceSends j)
    then obtain x rest nt1 where src: "nt_source nt j = x # rest" and put: "put_into (FromSource j) x nt = Some nt1"
      and nt': "nt' = nt1\<lparr>nt_source := (nt_source nt1)(j := rest)\<rparr>"
      using ex by (auto split: list.splits)
    have "put_by (FromSource j) (nt_log nt) @ x # rest = (if j = 0 then source_output 0 items else [])"
      using inv src unfolding net_inv_def by metis
    then have "j = 0" by (cases "j = 0") simp_all
    with src show ?thesis using put_work [OF put cons one] by (simp add: net_work_def nt')
  next
    case (SourceStops j)
    then obtain st where j: "j < length ids" "j \<in> set (nt_running nt)" and st: "rt_exec EnvCancel (nt_nodes nt ! j) = Some st"
      and nt': "nt' = nt\<lparr>nt_nodes := (nt_nodes nt)[j := st], nt_running := removeAll j (nt_running nt)\<rparr>"
      using ex len by (auto simp del: rt_exec.simps split: if_splits)
    have "node_work st = node_work (nt_nodes nt ! j)" using st by (auto simp: node_work_def in_channel_def Runtime_Stop_def)
    moreover have "length (removeAll j (nt_running nt)) < length (nt_running nt)" by (rule length_removeAll_less [OF j(2)])
    ultimately show ?thesis using sum_list_update_plus [of j "nt_nodes nt" node_work st] j len by (simp add: net_work_def nt')
  qed
qed

lemma plain_start_work:
  fixes b :: "('s, 'u) GraphBuilder"
  assumes ok: "builder_ok b" "orders_ok ord b" and built: "Build ord b = Inr p" and sp: "stream_pipeline ids b f upd items"
    and w: "\<forall>i. clean_world (ws i)" "clean_world (sw 0)"
  shows "net_work (sends_bound ids f items) (net_start False p ws sw) = steps_bound ids f items"
proof -
  have lin: "linear ids b" using sp by (simp add: stream_pipeline_def)
  note rts = linear_runtimes [OF ok built lin]
  let ?nt = "net_start False p ws sw"
  have run: "net_run [] ?nt = Some ?nt" by simp
  have len: "length (nt_nodes ?nt) = length ids" by (rule stream_net_inv(4) [OF ok built sp w run])
  have all: "all_runtimes p = p_runtimes p" by (rule stream_net_inv(3) [OF ok built sp w run])
  have "node_work (nt_nodes ?nt ! j) = 4" if j: "j < length ids" for j
  proof -
    let ?r = "p_runtimes p ! j"
    have r: "?r \<in> set (p_runtimes p)" using j rts(1) by simp
    have "b_ch (p_buffers p ! (nr_inputs ?r ! 0)) = []" if "nr_inputs ?r \<noteq> []"
    proof -
      have "nr_inputs ?r ! 0 < length (p_buffers p)" using all_runtimes_built(1) [OF ok built, of ?r] r that by (simp add: all)
      then show ?thesis using new_runtimes(2) [OF built] by simp
    qed
    then show ?thesis
      using new_runtimes(1) [OF built r] net_start_node [of j p False ws sw] j rts(1)
      by (auto simp: all node_work_def start_state_def held_def in_channel_def Runtime_Start_def Let_def)
  qed
  then have "map node_work (nt_nodes ?nt) = replicate (length ids) 4" using len by (auto simp: list_eq_iff_nth_eq)
  moreover have "put_by (FromSource 0) (nt_log ?nt) @ nt_source ?nt 0 = source_output 0 items"
    using stream_net_inv(1) [OF ok built sp w run] unfolding net_inv_def by metis
  then have "length (nt_source ?nt 0) = length items + 1" by (simp add: net_start_def source_output_def Let_def)
  moreover have "nt_running ?nt = [0]" "nt_moved ?nt = (\<lambda>_. 0)"
    by (simp_all add: net_start_def linear_source_index(1) [OF ok built lin] Let_def)
  ultimately show ?thesis by (simp add: net_work_def steps_bound_def len [simplified] len sum_list_replicate algebra_simps)
qed


lemma net_run_snoc: "net_run evs nt = Some nt1 \<Longrightarrow> net_exec ev nt1 = Some nt2 \<Longrightarrow> net_run (evs @ [ev]) nt = Some nt2"
  by (simp add: net_run_append)

lemma plain_run_work:
  fixes b :: "('s, 'u) GraphBuilder"
  assumes ok: "builder_ok b" "orders_ok ord b" and built: "Build ord b = Inr p" and sp: "stream_pipeline ids b f upd items"
    and w: "\<forall>i. clean_world (ws i)" "clean_world (sw 0)"
  shows "net_run evs (net_start False p ws sw) = Some nt \<Longrightarrow> list_all plain_event evs \<Longrightarrow>
    length evs + net_work (sends_bound ids f items) nt \<le> steps_bound ids f items"
proof (induction evs arbitrary: nt rule: rev_induct)
  case Nil
  then have "nt = net_start False p ws sw" by simp
  then show ?case using plain_start_work [where ws = ws and sw = sw, OF ok built sp w] by simp
next
  case (snoc ev evs)
  then obtain nt1 where nt1: "net_run evs (net_start False p ws sw) = Some nt1" "net_exec ev nt1 = Some nt"
    by (auto simp: net_run_append split: option.splits)
  have "list_all plain_event evs" "plain_event ev" using snoc.prems(2) by simp_all
  from snoc.IH [OF nt1(1) this(1)] plain_step_work [OF ok built sp w nt1(1) this nt1(2)] show ?case by simp
qed

text \<open>A plain run goes on until it is stuck.\<close>

lemma plain_run_ends:
  fixes b :: "('s, 'u) GraphBuilder"
  assumes ok: "builder_ok b" "orders_ok ord b" and built: "Build ord b = Inr p" and sp: "stream_pipeline ids b f upd items"
    and w: "\<forall>i. clean_world (ws i)" "clean_world (sw 0)"
  shows "net_run evs (net_start False p ws sw) = Some nt \<Longrightarrow> list_all plain_event evs \<Longrightarrow>
    \<exists>more nt'. list_all plain_event more \<and> net_run more nt = Some nt' \<and> stuck nt'"
proof (induction "net_work (sends_bound ids f items) nt" arbitrary: evs nt rule: less_induct)
  case less
  show ?case
  proof (cases "stuck nt")
    case True
    then show ?thesis by (intro exI [of _ "[]"]) simp
  next
    case False
    then obtain ev nt1 where ev: "plain_event ev" "net_exec ev nt = Some nt1" unfolding stuck_def by fastforce
    have run: "net_run (evs @ [ev]) (net_start False p ws sw) = Some nt1" by (rule net_run_snoc [OF less.prems(1) ev(2)])
    obtain more nt' where "list_all plain_event more" "net_run more nt1 = Some nt'" "stuck nt'"
      using less.hyps [OF plain_step_work [OF ok built sp w less.prems ev] run] less.prems(2) ev(1) by auto
    with ev show ?thesis by (intro exI [of _ "ev # more"]) (simp del: net_exec.simps)
  qed
qed

text \<open>The monitor of the pipeline, once all nodes have ended without a serious error.\<close>

lemma monitor_completes:
  assumes "\<forall>e \<in> set errs. e \<in> {None, Some Canceled}" "p_state p = PipelineInitializing"
  shows "p_state (monitor_finish (fold monitor_error errs (Pipeline_Start False p))) = PipelineStopped"
    and "Pipeline_Wait (monitor_finish (fold monitor_error errs (Pipeline_Start False p))) = Returns None"
proof -
  have "fold monitor_error errs q = q" for q :: "('a, 'b) Pipeline"
    using assms(1) by (induction errs) (auto simp: monitor_error_def)
  moreover have "p_state (Pipeline_Start False p) = PipelineRunning" using assms(2) by (simp add: Start_state)
  ultimately show "p_state (monitor_finish (fold monitor_error errs (Pipeline_Start False p))) = PipelineStopped"
    "Pipeline_Wait (monitor_finish (fold monitor_error errs (Pipeline_Start False p))) = Returns None"
    by (simp_all add: monitor_finish_def Pipeline_State_def storeState_def Pipeline_Wait_def)
qed

lemma Build_state: "Build ord b = Inr p \<Longrightarrow> p_state p = PipelineInitializing"
  by (auto simp: Build_def Let_def split: option.splits if_splits)

lemma stuck_nodes:
  fixes b :: "('s, 'u) GraphBuilder"
  assumes ok: "builder_ok b" "orders_ok ord b" and built: "Build ord b = Inr p" and sp: "stream_pipeline ids b f upd items"
    and w: "\<forall>i. clean_world (ws i)" "clean_world (sw 0)" and run: "net_run evs (net_start False p ws sw) = Some nt"
    and plain: "list_all plain_event evs" and st: "stuck nt" and i: "i < length ids"
    and j: "j < length ids" "Node_ID (nr_node (p_runtimes p ! j)) = ids ! i"
  shows "rt_point (nt_nodes nt ! j) = Exited \<and> nr_err (rt_nr (nt_nodes nt ! j)) \<in> {None, Some Canceled} \<and>
    (\<forall>k. i = Suc k \<longrightarrow> (\<exists>x. nr_node (rt_nr (nt_nodes nt ! j)) = OpNode x \<and>
       on_state x = fold (upd i) (chain_items f items k) (on_state (built_node b (ids ! i)))))"
proof (cases i)
  case 0
  have lin: "linear ids b" using sp by (simp add: stream_pipeline_def)
  have pl: "plain_net b ids p f upd nt" by (rule plain_net_run [OF ok built sp w run plain])
  have len: "length (nt_nodes nt) = length ids" by (rule stream_net_inv(4) [OF ok built sp w run])
  have j0: "j = 0" using linear_same [OF ok built lin j(1)] linear_source_index(2) [OF ok built lin] j(2) 0 i by metis
  have "0 \<notin> set (nt_running nt)"
    using stuck_net(3) [OF st, of 0] stuck_moved(2) [OF ok built sp w run plain st] i len by (metis less_nat_zero_code neq0_conv)
  then have src: "plain_source True (nt_nodes nt ! 0)" using pl by (simp add: plain_net_def)
  have "nt_moved nt 0 = length (w_sent (rt_w (nt_nodes nt ! 0)))"
    using stream_net_inv(1) [OF ok built sp w run] src j(1) j0 len by (auto simp: net_inv_def plain_source_def)
  then have "rt_point (nt_nodes nt ! 0) = Exited"
    by (intro stuck_source [OF src] stuck_rt [OF st]) (use j(1) j0 len in simp_all)
  with src j0 0 show ?thesis by (simp add: plain_source_def)
next
  case (Suc k)
  let ?st = "nt_nodes nt ! j"
  have so: "stream_operator (on_operator (built_node b (ids ! i))) (f i) (upd i)" using sp i Suc by (simp add: stream_pipeline_def)
  have "plain_at b ids f upd i ?st"
    using plain_net_run [OF ok built sp w run plain] i j Suc by (simp add: plain_net_def)
  then have fl: "flows (on_operator (built_node b (ids ! i))) (f i) (upd i) (on_state (built_node b (ids ! i)))
      (if Suc i < length ids then [i] else []) (taken_stream ?st) (rt_nr ?st) (rt_w ?st)"
    "nr_err (rt_nr ?st) \<in> {None, Some Canceled}"
    unfolding plain_at_def stream_operator.plain_node_def [OF so] stream_operator.plain_core_def [OF so] by blast+
  have full: "rt_point ?st = Exited" "taken_stream ?st = map Some (chain_items f items k) @ [None]"
    using stuck_complete [OF ok built sp w run plain st _ j(1)] i j(2) Suc by auto
  have "count_list (taken_stream ?st) None \<noteq> 0" by (simp add: full(2))
  then have "datas (taken_stream ?st) = chain_items f items k" by (intro datas_prefix(2)) (simp_all add: full(2))
  with fl full(1) Suc show ?thesis by (auto simp: flows_def)
qed

text \<open>A completed pipeline.\<close>

definition completed ::
  "string list \<Rightarrow> ('s, 'u) GraphBuilder \<Rightarrow> ('s, 'u) Pipeline \<Rightarrow> (nat \<Rightarrow> 'u DataMessage \<Rightarrow> 'u DataMessage list) \<Rightarrow>
     (nat \<Rightarrow> 'u DataMessage \<Rightarrow> 's \<Rightarrow> 's) \<Rightarrow> 'u DataMessage list \<Rightarrow> ('s, 'u) net \<Rightarrow> bool" where
  "completed ids b p f upd items nt \<longleftrightarrow>
     (\<forall>j < length (nt_nodes nt). rt_point (nt_nodes nt ! j) = Exited) \<and>
     (\<forall>k. Suc k < length ids \<longrightarrow>
        (\<exists>j x. j < length (nt_nodes nt) \<and> Node_ID (nr_node (p_runtimes p ! j)) = ids ! Suc k \<and>
           nr_node (rt_nr (nt_nodes nt ! j)) = OpNode x \<and>
           on_state x = fold (upd (Suc k)) (chain_items f items k) (on_state (built_node b (ids ! Suc k))))) \<and>
     (let q = monitor_finish (fold monitor_error (map (\<lambda>st. nr_err (rt_nr st)) (nt_nodes nt)) (Pipeline_Start False p))
      in p_state q = PipelineStopped \<and> Pipeline_Wait q = Returns None)"

lemma stuck_completed:
  fixes b :: "('s, 'u) GraphBuilder"
  assumes ok: "builder_ok b" "orders_ok ord b" and built: "Build ord b = Inr p" and sp: "stream_pipeline ids b f upd items"
    and w: "\<forall>i. clean_world (ws i)" "clean_world (sw 0)" and run: "net_run evs (net_start False p ws sw) = Some nt"
    and plain: "list_all plain_event evs" and st: "stuck nt"
  shows "completed ids b p f upd items nt"
proof -
  have lin: "linear ids b" using sp by (simp add: stream_pipeline_def)
  note rts = linear_runtimes [OF ok built lin]
  have len: "length (nt_nodes nt) = length ids" by (rule stream_net_inv(4) [OF ok built sp w run])
  note nodes = stuck_nodes [OF ok built sp w run plain st]
  have ends: "rt_point (nt_nodes nt ! j) = Exited" "nr_err (rt_nr (nt_nodes nt ! j)) \<in> {None, Some Canceled}" if j: "j < length ids" for j
  proof -
    obtain i where "i < length ids" "Node_ID (nr_node (p_runtimes p ! j)) = ids ! i" using rts(4) j by blast
    from nodes [OF this(1) j this(2)] show "rt_point (nt_nodes nt ! j) = Exited" "nr_err (rt_nr (nt_nodes nt ! j)) \<in> {None, Some Canceled}"
      by simp_all
  qed
  have "e \<in> {None, Some Canceled}" if e: "e \<in> set (map (\<lambda>st. nr_err (rt_nr st)) (nt_nodes nt))" for e
  proof -
    obtain st where "st \<in> set (nt_nodes nt)" "e = nr_err (rt_nr st)" using e by auto
    moreover from this obtain j where "j < length ids" "st = nt_nodes nt ! j" unfolding len [symmetric] by (metis in_set_conv_nth)
    ultimately show ?thesis using ends(2) by simp
  qed
  then have errs: "\<forall>e \<in> set (map (\<lambda>st. nr_err (rt_nr st)) (nt_nodes nt)). e \<in> {None, Some Canceled}" ..
  note monitor = monitor_completes [OF errs Build_state [OF built]]
  have "\<exists>j x. j < length (nt_nodes nt) \<and> Node_ID (nr_node (p_runtimes p ! j)) = ids ! Suc k \<and>
      nr_node (rt_nr (nt_nodes nt ! j)) = OpNode x \<and>
      on_state x = fold (upd (Suc k)) (chain_items f items k) (on_state (built_node b (ids ! Suc k)))" if k: "Suc k < length ids" for k
  proof -
    obtain j where j: "j < length ids" "Node_ID (nr_node (p_runtimes p ! j)) = ids ! Suc k" using rts(3) [OF k] by blast
    from nodes [OF k j] j len show ?thesis by auto
  qed
  with ends(1) len monitor show ?thesis by (simp add: completed_def Let_def)
qed

section \<open>Properties\<close>

text \<open>
  C3. A linear pipeline completes. Take a pipeline of stream operators as above and any interleaving of
  all its goroutines without control messages and cancellations from outside, in which no send is
  cut off. It has at most \<open>steps_bound\<close> steps; it can go on until no goroutine can, and so it never
  deadlocks before the end, whatever the sizes of the buffers; and when no goroutine can go on, all
  main loops have returned, each operator and the sink have handled exactly what the nodes before
  them make of the items, and the monitor sets the state \<open>PipelineStopped\<close> and lets \<open>Wait\<close> return.
\<close>

theorem linear_pipeline_completes:
  assumes "b = fold build_step calls (NewGraphBuilder name)" "orders_ok ord b" "Build ord b = Inr p"
    and "stream_pipeline ids b f upd items" and "\<forall>i. clean_world (ws i)" "clean_world (sw 0)"
    and "net_run evs (net_start False p ws sw) = Some nt" and "list_all plain_event evs"
  shows "length evs \<le> steps_bound ids f items \<and>
    (\<exists>more nt'. list_all plain_event more \<and> net_run more nt = Some nt' \<and> stuck nt') \<and>
    (stuck nt \<longrightarrow> completed ids b p f upd items nt)"
proof -
  have ok: "builder_ok b" unfolding assms(1) by (rule build_calls_ok [OF builder_ok_new])
  have "length evs \<le> steps_bound ids f items" using plain_run_work [OF ok assms(2-8)] by simp
  with plain_run_ends [OF ok assms(2-8)] stuck_completed [OF ok assms(2-8)] show ?thesis by blast
qed

theorem linear_pipeline_completes_witness:
  "\<exists>p evs nt j x. Build sample_order (fold build_step sample_calls (NewGraphBuilder ''linear-chain'')) = Inr p \<and>
     net_run evs (net_start False p (\<lambda>_. quiet_world) (\<lambda>_. quiet_world)) = Some nt \<and> stuck nt \<and> length evs \<le> 133 \<and>
     Node_ID (nr_node (p_runtimes p ! j)) = ''sink'' \<and> rt_point (nt_nodes nt ! j) = Exited \<and>
     nr_node (rt_nr (nt_nodes nt ! j)) = OpNode x \<and> on_state x = [AnyValue 0, AnyValue 1]"
proof -
  let ?b = "fold build_step sample_calls (NewGraphBuilder ''linear-chain'')" and ?items = "harness_items (makeItems 2)"
  obtain p where p: "BuildLinearChain sample_order 2 1 = Inr p" by (rule sample_runs)
  let ?start = "net_start False p (\<lambda>_. quiet_world) (\<lambda>_. quiet_world)"
  have built: "Build sample_order ?b = Inr p" using p by (simp add: sample_calls_chain BuildLinearChain_def)
  have ok: "orders_ok sample_order ?b" by (simp add: sample_calls_chain sample_order_ok)
  have sp: "stream_pipeline (chain_ids 1) ?b (chain_f 1) (chain_upd 1) ?items"
    using LinearChain_stream [of 1 2] by (simp add: sample_calls_chain)
  have w: "\<forall>i. clean_world ((\<lambda>_. quiet_world :: int World) (i :: nat))" by (simp add: quiet_clean)
  note complete = linear_pipeline_completes [OF refl ok built sp w quiet_clean]
  have "\<exists>evs nt. list_all plain_event evs \<and> net_run evs ?start = Some nt \<and> stuck nt"
    using complete [of "[]" ?start] by simp
  then obtain evs nt where evs: "list_all plain_event evs" "net_run evs ?start = Some nt" "stuck nt" by blast
  have items: "chain_items (chain_f 1) ?items k = ?items" if "k \<le> 1" for k
    using chain_items_chain that by simp
  have ids: "length (chain_ids 1) = 3" "chain_ids 1 ! Suc 1 = ''sink''" by (simp_all add: chain_ids_def)
  have sink_sends: "chain_items (chain_f 1) ?items 2 = []" by (simp add: numeral_2_eq_2 chain_f_def)
  have two: "length ?items = 2" by (simp add: harness_items_def makeItems_def)
  have "{..<3 :: nat} = {0, 1, 2}" by auto
  then have "sends_bound (chain_ids 1) (chain_f 1) ?items = 7"
    by (simp only: sends_bound_def ids(1)) (simp add: items [simplified] sink_sends [simplified] two del: chain_items.simps)
  then have "steps_bound (chain_ids 1) (chain_f 1) ?items = 133"
    by (simp only: steps_bound_def ids(1) two) simp
  then have few: "length evs \<le> 133" using complete [OF evs(2,1)] by linarith
  have comp: "completed (chain_ids 1) ?b p (chain_f 1) (chain_upd 1) ?items nt" using complete [OF evs(2,1)] evs(3) by blast
  have sink: "on_state (built_node ?b ''sink'') = []"
    using LinearChain_parts [of 2 1] by (simp add: sample_calls_chain chain_parts_def built_node_def map_add_def NewOperatorNode_def)
  have last: "Suc 1 < length (chain_ids 1)" by (simp only: ids(1))
  obtain j x where jx: "j < length (nt_nodes nt)" "Node_ID (nr_node (p_runtimes p ! j)) = ''sink''"
    "nr_node (rt_nr (nt_nodes nt ! j)) = OpNode x" "on_state x = fold (chain_upd 1 (Suc 1)) ?items []"
    using comp [unfolded completed_def, THEN conjunct2, THEN conjunct1, rule_format, OF last, unfolded ids(2) items [of 1, simplified] sink] items [of 1]
    by auto
  then have "rt_point (nt_nodes nt ! j) = Exited" using comp by (simp add: completed_def)
  have "on_state x = [AnyValue 0, AnyValue 1]"
    using jx(4) by (simp add: chain_upd_def harness_items_def makeItems_def upt_rec)
  with built evs(2,3) few jx(2,3) \<open>rt_point (nt_nodes nt ! j) = Exited\<close> show ?thesis by blast
qed

end
