(* ===== verification/Controller_Loop.thy ===== *)
theory Controller_Loop
  imports Controller
begin

text \<open>
  The goroutine of the controller and the channels it reads: \<open>Start\<close>, \<open>Stop\<close> and \<open>run\<close> of
  \<open>internal/engine/controller.go\<close> beside the sends of \<open>runtime.go\<close> that fill the channels. The channels
  are bounded and the nodes send to them without a context, so a node waits while its channel is full.
\<close>

section \<open>State and steps\<close>

text \<open>\<open>cl_cancelled\<close> is the context of \<open>run\<close>, \<open>cl_done\<close> the channel that \<open>run\<close> closes when it returns.\<close>

record controller_loop =
  cl_controller :: Controller
  cl_completionCh :: "NodeCompletion list"
  cl_stoppedCh :: "NodeStopped list"
  cl_cancelled :: bool
  cl_done :: bool

definition Controller_Start :: "bool \<Rightarrow> Controller \<Rightarrow> controller_loop" where
  "Controller_Start ctx_cancelled c =
     \<lparr>cl_controller = c, cl_completionCh = [], cl_stoppedCh = [], cl_cancelled = ctx_cancelled, cl_done = False\<rparr>"

text \<open>\<open>Stop\<close> cancels the context and returns when \<open>done\<close> is closed.\<close>

definition Controller_Stop :: "controller_loop \<Rightarrow> controller_loop" where
  "Controller_Stop cl = cl\<lparr>cl_cancelled := True\<rparr>"

definition Stop_returns :: "controller_loop \<Rightarrow> bool" where
  "Stop_returns cl \<longleftrightarrow> cl_done cl"

text \<open>The sends of a node's runtime: \<open>None\<close> while the channel is full.\<close>

definition send_completion :: "NodeCompletion \<Rightarrow> controller_loop \<Rightarrow> controller_loop option" where
  "send_completion r cl =
     (if int (length (cl_completionCh cl)) < c_chanSize (cl_controller cl)
      then Some (cl\<lparr>cl_completionCh := cl_completionCh cl @ [r]\<rparr>) else None)"

definition send_stopped :: "NodeStopped \<Rightarrow> controller_loop \<Rightarrow> controller_loop option" where
  "send_stopped s cl =
     (if int (length (cl_stoppedCh cl)) < c_chanSize (cl_controller cl)
      then Some (cl\<lparr>cl_stoppedCh := cl_stoppedCh cl @ [s]\<rparr>) else None)"

text \<open>
  One turn of the loop of \<open>run\<close>, for each case of its \<open>select\<close>. When several are ready any of them
  may be taken. The channels are never closed.
\<close>

definition run_ctx_done :: "controller_loop \<Rightarrow> controller_loop option" where
  "run_ctx_done cl = (if \<not> cl_done cl \<and> cl_cancelled cl then Some (cl\<lparr>cl_done := True\<rparr>) else None)"

definition run_completion :: "time \<Rightarrow> controller_loop \<Rightarrow> controller_loop option" where
  "run_completion now cl =
     (case cl_completionCh cl of
        [] \<Rightarrow> None
      | r # rs \<Rightarrow>
          if cl_done cl then None
          else Some (cl\<lparr>cl_controller := handleCompletion now r (cl_controller cl), cl_completionCh := rs\<rparr>))"

definition run_stopped :: "controller_loop \<Rightarrow> controller_loop option" where
  "run_stopped cl =
     (case cl_stoppedCh cl of
        [] \<Rightarrow> None
      | s # ss \<Rightarrow>
          if cl_done cl then None
          else Some (cl\<lparr>cl_controller := handleNodeStopped s (cl_controller cl), cl_stoppedCh := ss\<rparr>))"

datatype loop_step =
    SendsCompletion NodeCompletion | SendsStopped NodeStopped
  | Initiates time u64 bool | StopCalled | CtxCancelled
  | TakesCompletion time | TakesStopped | TakesCtxDone

primrec loop_exec :: "loop_step \<Rightarrow> controller_loop \<Rightarrow> controller_loop option" where
  "loop_exec (SendsCompletion r) cl = send_completion r cl"
| "loop_exec (SendsStopped s) cl = send_stopped s cl"
| "loop_exec (Initiates now e thenStop) cl = Some (cl\<lparr>cl_controller := track_checkpoint now e thenStop (cl_controller cl)\<rparr>)"
| "loop_exec StopCalled cl = Some (Controller_Stop cl)"
| "loop_exec CtxCancelled cl = Some (cl\<lparr>cl_cancelled := True\<rparr>)"
| "loop_exec (TakesCompletion now) cl = run_completion now cl"
| "loop_exec TakesStopped cl = run_stopped cl"
| "loop_exec TakesCtxDone cl = run_ctx_done cl"

primrec loop_run :: "loop_step list \<Rightarrow> controller_loop \<Rightarrow> controller_loop option" where
  "loop_run [] cl = Some cl"
| "loop_run (ev # evs) cl = (case loop_exec ev cl of None \<Rightarrow> None | Some cl \<Rightarrow> loop_run evs cl)"

section \<open>Lemmas\<close>

text \<open>The reports that were sent in a run, and those that a history of the controller has handled.\<close>

definition sent_completions :: "loop_step list \<Rightarrow> NodeCompletion list" where
  "sent_completions evs = concat (map (\<lambda>ev. case ev of SendsCompletion r \<Rightarrow> [r] | _ \<Rightarrow> []) evs)"

definition sent_stops :: "loop_step list \<Rightarrow> NodeStopped list" where
  "sent_stops evs = concat (map (\<lambda>ev. case ev of SendsStopped s \<Rightarrow> [s] | _ \<Rightarrow> []) evs)"

definition handled_completions :: "controller_event list \<Rightarrow> NodeCompletion list" where
  "handled_completions h = concat (map (\<lambda>ev. case ev of EvCompletion _ r \<Rightarrow> [r] | _ \<Rightarrow> []) h)"

definition handled_stops :: "controller_event list \<Rightarrow> NodeStopped list" where
  "handled_stops h = concat (map (\<lambda>ev. case ev of EvStopped s \<Rightarrow> [s] | _ \<Rightarrow> []) h)"

definition takes :: "loop_step \<Rightarrow> bool" where
  "takes ev \<longleftrightarrow> (case ev of TakesCompletion _ \<Rightarrow> True | TakesStopped \<Rightarrow> True | _ \<Rightarrow> False)"

lemma sent_simps [simp]:
  "sent_completions [] = []" "sent_stops [] = []"
  "sent_completions (ev # evs) = (case ev of SendsCompletion r \<Rightarrow> [r] | _ \<Rightarrow> []) @ sent_completions evs"
  "sent_stops (ev # evs) = (case ev of SendsStopped s \<Rightarrow> [s] | _ \<Rightarrow> []) @ sent_stops evs"
  "sent_completions (evs @ evs') = sent_completions evs @ sent_completions evs'"
  "sent_stops (evs @ evs') = sent_stops evs @ sent_stops evs'"
  by (simp_all add: sent_completions_def sent_stops_def)

lemma handled_simps [simp]:
  "handled_completions [] = []" "handled_stops [] = []"
  "handled_completions (h @ [ev]) = handled_completions h @ (case ev of EvCompletion _ r \<Rightarrow> [r] | _ \<Rightarrow> [])"
  "handled_stops (h @ [ev]) = handled_stops h @ (case ev of EvStopped s \<Rightarrow> [s] | _ \<Rightarrow> [])"
  by (simp_all add: handled_completions_def handled_stops_def)

lemma loop_run_append: "loop_run (evs @ evs') cl = (case loop_run evs cl of None \<Rightarrow> None | Some cl \<Rightarrow> loop_run evs' cl)"
  by (induction evs arbitrary: cl) (simp_all split: option.split)

lemma chanSize_frame [simp]:
  "c_chanSize (checkQuiescenceLocked c) = c_chanSize c" "c_chanSize (handleCompletion now r c) = c_chanSize c"
  "c_chanSize (handleNodeStopped s c) = c_chanSize c" "c_chanSize (track_checkpoint now e ts c) = c_chanSize c"
  by (simp_all add: checkQuiescenceLocked_def handleCompletion_def handleNodeStopped_def track_checkpoint_def Let_def split: option.splits)

lemmas loop_defs = send_completion_def send_stopped_def run_completion_def run_stopped_def run_ctx_done_def Controller_Stop_def

text \<open>Between the start and any later state lies a history of the controller that has handled the reports in order.\<close>

definition loop_rel :: "bool \<Rightarrow> Controller \<Rightarrow> loop_step list \<Rightarrow> controller_event list \<Rightarrow> controller_loop \<Rightarrow> bool" where
  "loop_rel pc c0 evs h cl \<longleftrightarrow> cl_controller cl = fold controller_step h c0 \<and>
     sent_completions evs = handled_completions h @ cl_completionCh cl \<and> sent_stops evs = handled_stops h @ cl_stoppedCh cl \<and>
     c_chanSize (cl_controller cl) = c_chanSize c0 \<and>
     int (length (cl_completionCh cl)) \<le> c_chanSize c0 \<and> int (length (cl_stoppedCh cl)) \<le> c_chanSize c0 \<and>
     (cl_done cl \<longrightarrow> cl_cancelled cl) \<and> (cl_cancelled cl \<longrightarrow> pc \<or> StopCalled \<in> set evs \<or> CtxCancelled \<in> set evs)"

lemma loop_rel_step:
  assumes "loop_rel pc c0 evs h cl" "loop_exec ev cl = Some cl'"
  shows "\<exists>h'. loop_rel pc c0 (evs @ [ev]) h' cl'"
proof (cases ev)
  case (SendsCompletion r)
  with assms show ?thesis by (intro exI [of _ h]) (auto simp: loop_rel_def loop_defs split: if_splits)
next
  case (SendsStopped s)
  with assms show ?thesis by (intro exI [of _ h]) (auto simp: loop_rel_def loop_defs split: if_splits)
next
  case (Initiates now e ts)
  with assms show ?thesis by (intro exI [of _ "h @ [EvInitiate now e ts]"]) (auto simp: loop_rel_def)
next
  case StopCalled
  with assms show ?thesis by (intro exI [of _ h]) (auto simp: loop_rel_def loop_defs)
next
  case CtxCancelled
  with assms show ?thesis by (intro exI [of _ h]) (auto simp: loop_rel_def)
next
  case (TakesCompletion now)
  then obtain r rs where "cl_completionCh cl = r # rs" "\<not> cl_done cl"
    "cl' = cl\<lparr>cl_controller := handleCompletion now r (cl_controller cl), cl_completionCh := rs\<rparr>"
    using assms(2) by (auto simp: loop_defs split: list.splits if_splits)
  with assms(1) TakesCompletion show ?thesis by (intro exI [of _ "h @ [EvCompletion now r]"]) (auto simp: loop_rel_def)
next
  case TakesStopped
  then obtain s ss where "cl_stoppedCh cl = s # ss" "\<not> cl_done cl"
    "cl' = cl\<lparr>cl_controller := handleNodeStopped s (cl_controller cl), cl_stoppedCh := ss\<rparr>"
    using assms(2) by (auto simp: loop_defs split: list.splits if_splits)
  with assms(1) TakesStopped show ?thesis by (intro exI [of _ "h @ [EvStopped s]"]) (auto simp: loop_rel_def)
next
  case TakesCtxDone
  with assms show ?thesis by (intro exI [of _ h]) (auto simp: loop_rel_def loop_defs split: if_splits)
qed

lemma loop_rel_run:
  "loop_run evs cl = Some cl' \<Longrightarrow> loop_rel pc c0 pre h cl \<Longrightarrow> \<exists>h'. loop_rel pc c0 (pre @ evs) h' cl'"
proof (induction evs arbitrary: pre h cl)
  case (Cons ev evs)
  then obtain cl1 where cl1: "loop_exec ev cl = Some cl1" "loop_run evs cl1 = Some cl'" by (auto split: option.splits)
  obtain h1 where "loop_rel pc c0 (pre @ [ev]) h1 cl1" using loop_rel_step [OF Cons.prems(2) cl1(1)] by blast
  from Cons.IH [OF cl1(2) this] show ?case by simp
qed auto

lemma loop_rel_start: "0 \<le> c_chanSize c \<Longrightarrow> loop_rel pc c [] [] (Controller_Start pc c)"
  by (simp add: loop_rel_def Controller_Start_def)

text \<open>A loop that has not ended can take all that waits in the channels.\<close>

lemma loop_drains:
  "\<not> cl_done cl \<Longrightarrow> \<exists>more cl'. list_all takes more \<and> loop_run more cl = Some cl' \<and> cl_completionCh cl' = [] \<and> cl_stoppedCh cl' = []"
proof (induction "length (cl_completionCh cl) + length (cl_stoppedCh cl)" arbitrary: cl rule: less_induct)
  case less
  have step: ?case if ev: "takes ev" "loop_exec ev cl = Some cl1" "\<not> cl_done cl1"
      and less_work: "length (cl_completionCh cl1) + length (cl_stoppedCh cl1) < length (cl_completionCh cl) + length (cl_stoppedCh cl)"
    for ev cl1
  proof -
    obtain more cl' where "list_all takes more" "loop_run more cl1 = Some cl'" "cl_completionCh cl' = []" "cl_stoppedCh cl' = []"
      using less.hyps [OF less_work ev(3)] by blast
    with ev(1,2) show ?case by (intro exI [of _ "ev # more"] exI [of _ cl']) simp
  qed
  show ?case
  proof (cases "cl_completionCh cl")
    case (Cons r rs)
    with less.prems show ?thesis by (intro step [of "TakesCompletion 0" "cl\<lparr>cl_controller := handleCompletion 0 r (cl_controller cl), cl_completionCh := rs\<rparr>"]) (simp_all add: takes_def run_completion_def)
  next
    case Nil
    show ?thesis
    proof (cases "cl_stoppedCh cl")
      case (Cons s ss)
      with less.prems show ?thesis by (intro step [of TakesStopped "cl\<lparr>cl_controller := handleNodeStopped s (cl_controller cl), cl_stoppedCh := ss\<rparr>"]) (simp_all add: takes_def run_stopped_def)
    next
      case Nil
      with \<open>cl_completionCh cl = []\<close> show ?thesis by (intro exI [of _ "[]"]) simp
    qed
  qed
qed

lemma takes_send: "list_all takes evs \<Longrightarrow> sent_completions evs = [] \<and> sent_stops evs = []"
  by (induction evs) (auto simp: takes_def split: loop_step.splits)

definition sample_controller_config :: ControllerConfig where
  "sample_controller_config = \<lparr>cfg_NodeIDs = [''a'', ''b''], cfg_SourceIDs = [''a''], cfg_SinkIDs = [''b''],
     cfg_OnCheckpointComplete = True, cfg_OnQuiescence = True, cfg_CompletionBufferSize = 0\<rparr>"

section \<open>Properties\<close>

text \<open>
  C7. The controller's loop loses, doubles and reorders nothing while it runs. In every interleaving of
  the nodes' reports, new checkpoints, \<open>Stop\<close> and the turns of the loop, the controller's state is that of a history
  of locked steps in which the reports handled, followed by those waiting in the channels, are the
  reports sent, in order; no channel holds more than its capacity; the loop ends only after \<open>Stop\<close> or
  the cancellation of its context; and until then it can take all that waits, after which every report
  sent has been handled.
\<close>

theorem controller_loop_history:
  assumes "loop_run evs (Controller_Start pc (NewController cfg)) = Some cl"
  shows "(\<exists>h. cl_controller cl = fold controller_step h (NewController cfg) \<and>
      sent_completions evs = handled_completions h @ cl_completionCh cl \<and> sent_stops evs = handled_stops h @ cl_stoppedCh cl) \<and>
    int (length (cl_completionCh cl)) \<le> c_chanSize (NewController cfg) \<and> int (length (cl_stoppedCh cl)) \<le> c_chanSize (NewController cfg) \<and>
    (if Stop_returns cl then pc \<or> StopCalled \<in> set evs \<or> CtxCancelled \<in> set evs
     else \<exists>more cl' h. list_all takes more \<and> loop_run more cl = Some cl' \<and>
       cl_controller cl' = fold controller_step h (NewController cfg) \<and>
       sent_completions evs = handled_completions h \<and> sent_stops evs = handled_stops h)"
proof -
  let ?c = "NewController cfg"
  have size: "0 \<le> c_chanSize ?c" by (simp add: NewController_def Let_def)
  obtain h where h: "loop_rel pc ?c evs h cl"
    using loop_rel_run [OF assms loop_rel_start [OF size]] by auto
  have "\<exists>more cl' h. list_all takes more \<and> loop_run more cl = Some cl' \<and>
      cl_controller cl' = fold controller_step h ?c \<and>
      sent_completions evs = handled_completions h \<and> sent_stops evs = handled_stops h" if runs: "\<not> cl_done cl"
  proof -
    obtain more cl' where more: "list_all takes more" "loop_run more cl = Some cl'" "cl_completionCh cl' = []" "cl_stoppedCh cl' = []"
      using loop_drains [OF runs] by blast
    obtain h' where "loop_rel pc ?c (evs @ more) h' cl'" using loop_rel_run [OF more(2) h] by blast
    with more takes_send [OF more(1)] show ?thesis by (auto simp: loop_rel_def)
  qed
  with h show ?thesis by (auto simp: loop_rel_def Stop_returns_def)
qed

theorem controller_loop_history_witness:
  "\<exists>cl h. loop_run [SendsStopped \<lparr>ns_NodeID = ''a''\<rparr>, StopCalled, SendsStopped \<lparr>ns_NodeID = ''b''\<rparr>, TakesStopped]
       (Controller_Start False (NewController sample_controller_config)) = Some cl \<and>
     cl_controller cl = fold controller_step h (NewController sample_controller_config) \<and>
     handled_stops h = [\<lparr>ns_NodeID = ''a''\<rparr>] \<and> cl_stoppedCh cl = [\<lparr>ns_NodeID = ''b''\<rparr>]"
proof -
  let ?evs = "[SendsStopped \<lparr>ns_NodeID = ''a''\<rparr>, StopCalled, SendsStopped \<lparr>ns_NodeID = ''b''\<rparr>, TakesStopped]"
  obtain cl where run: "loop_run ?evs (Controller_Start False (NewController sample_controller_config)) = Some cl"
    and ch: "cl_stoppedCh cl = [\<lparr>ns_NodeID = ''b''\<rparr>]"
    by (simp add: loop_defs Controller_Start_def NewController_def sample_controller_config_def)
  with controller_loop_history [OF run] show ?thesis by auto
qed

end
