(* ===== verification/Shutdown.thy ===== *)
theory Shutdown
  imports Delivery Controller_Loop
begin

text \<open>
  How a pipeline ends: the monitor goroutine of \<open>Start\<close> in \<open>internal/engine/pipeline.go\<close> with the goroutines
  it starts and waits for, beside the loop of the controller and the ends of the nodes' main loops.
\<close>

section \<open>State and steps\<close>

text \<open>
  A node's main loop runs; has taken a snapshot and forwarded the barrier and is about to report the checkpoint; is in
  the error handler and sends a dead letter; has returned with an error or none and is about to report its stop, which is deferred before the closing of
  \<open>done\<close>; has ended; and its error has been collected. \<open>sd_dlBuf\<close> is the dead-letter buffer, and
  \<open>sd_dlRuns\<close> holds while the dead-letter runtime reads it. \<open>sd_begun\<close> is a history variable: how many
  reports of checkpoints the nodes have begun.
\<close>

datatype 'u node_end = Runs | Completes u64 bytes | Letters "'u Message" | Reports "error option" | Ended "error option" | Collected

datatype monitor_point = WaitsForNodes | WaitsForController | AtDeadLetter | AtFinish | MonitorEnded

record ('s, 'u) shutdown =
  sd_pipe :: "('s, 'u) Pipeline"
  sd_ids :: "string list"
  sd_loop :: controller_loop
  sd_world :: "'u World"
  sd_nodes :: "'u node_end list"
  sd_dlBuf :: "'u Message Buffer option"
  sd_dlRuns :: bool
  sd_begun :: nat
  sd_errs :: "error option list"
  sd_monitor :: monitor_point

definition shutdown_start :: "bool \<Rightarrow> 'u World \<Rightarrow> ('s, 'u) Pipeline \<Rightarrow> ('s, 'u) shutdown" where
  "shutdown_start ctx_cancelled w p =
     \<lparr>sd_pipe = Pipeline_Start ctx_cancelled p, sd_ids = map (\<lambda>rt. Node_ID (nr_node rt)) (p_runtimes p),
      sd_loop = Controller_Start ctx_cancelled (p_controller p), sd_world = w,
      sd_nodes = map (\<lambda>_. Runs) (p_runtimes p),
      sd_dlBuf = map_option ((!) (p_buffers p)) (p_dlBuffer p), sd_dlRuns = (p_dlRuntime p \<noteq> None), sd_begun = 0, sd_errs = [], sd_monitor = WaitsForNodes\<rparr>"

text \<open>The context of the controller's loop is derived from that of the pipeline.\<close>

definition put_pipe :: "('s, 'u) Pipeline \<Rightarrow> ('s, 'u) shutdown \<Rightarrow> ('s, 'u) shutdown" where
  "put_pipe p st =
     st\<lparr>sd_pipe := p, sd_loop := (sd_loop st)\<lparr>cl_cancelled := (cl_cancelled (sd_loop st) \<or> p_cancel p = Some True)\<rparr>\<rparr>"

text \<open>A call of the API; it may start a checkpoint in the controller.\<close>

definition sd_call :: "api_call \<Rightarrow> ('s, 'u) shutdown \<Rightarrow> ('s, 'u) shutdown" where
  "sd_call c st =
     (let p = fst (api_step c ((sd_pipe st)\<lparr>p_controller := cl_controller (sd_loop st)\<rparr>))
      in put_pipe p (st\<lparr>sd_loop := (sd_loop st)\<lparr>cl_controller := p_controller p\<rparr>\<rparr>))"

text \<open>The ends of the nodes: reports of checkpoints and of the stop, each waiting for room in its channel.\<close>

definition node_snapshots :: "nat \<Rightarrow> u64 \<Rightarrow> bytes \<Rightarrow> ('s, 'u) shutdown \<Rightarrow> ('s, 'u) shutdown option" where
  "node_snapshots i e state st =
     (if i < length (sd_nodes st) \<and> sd_nodes st ! i = Runs
      then Some (st\<lparr>sd_nodes := (sd_nodes st)[i := Completes e state], sd_begun := sd_begun st + 1\<rparr>) else None)"

definition node_completes :: "nat \<Rightarrow> ('s, 'u) shutdown \<Rightarrow> ('s, 'u) shutdown option" where
  "node_completes i st =
     (case (if i < length (sd_nodes st) then sd_nodes st ! i else Runs) of
        Completes e state \<Rightarrow>
          map_option (\<lambda>cl. st\<lparr>sd_loop := cl, sd_nodes := (sd_nodes st)[i := Runs]\<rparr>)
            (send_completion \<lparr>nc_NodeID = sd_ids st ! i, nc_Epoch = e, nc_State = state\<rparr> (sd_loop st))
      | _ \<Rightarrow> None)"

definition node_returns :: "nat \<Rightarrow> error option \<Rightarrow> ('s, 'u) shutdown \<Rightarrow> ('s, 'u) shutdown option" where
  "node_returns i err st =
     (if i < length (sd_nodes st) \<and> sd_nodes st ! i = Runs
      then Some (st\<lparr>sd_nodes := (sd_nodes st)[i := Reports err]\<rparr>) else None)"

definition node_reports :: "nat \<Rightarrow> ('s, 'u) shutdown \<Rightarrow> ('s, 'u) shutdown option" where
  "node_reports i st =
     (case (if i < length (sd_nodes st) then sd_nodes st ! i else Runs) of
        Reports err \<Rightarrow>
          map_option (\<lambda>cl. st\<lparr>sd_loop := cl, sd_nodes := (sd_nodes st)[i := Ended err]\<rparr>)
            (send_stopped \<lparr>ns_NodeID = sd_ids st ! i\<rparr> (sd_loop st))
      | _ \<Rightarrow> None)"

text \<open>
  A node that fails under the dead-letter strategy sends a letter without a context. The dead-letter runtime
  takes letters until it ends, by an error of its sink or a cancelled context for instance.
\<close>

definition node_fails :: "nat \<Rightarrow> 'u DataMessage \<Rightarrow> error \<Rightarrow> ('s, 'u) shutdown \<Rightarrow> ('s, 'u) shutdown option" where
  "node_fails i msg err st =
     (if i < length (sd_nodes st) \<and> sd_nodes st ! i = Runs \<and> sd_dlBuf st \<noteq> None
      then Some (st\<lparr>sd_nodes := (sd_nodes st)[i := Letters (dead_letter (sd_ids st ! i) msg err)]\<rparr>) else None)"

definition send_letter :: "'u Message \<Rightarrow> ('s, 'u) shutdown \<Rightarrow> ('s, 'u) shutdown option" where
  "send_letter m st =
     (case sd_dlBuf st of
        None \<Rightarrow> None
      | Some buf \<Rightarrow> (case Buffer_Send False None m buf of SendOk buf' \<Rightarrow> Some (st\<lparr>sd_dlBuf := Some buf'\<rparr>) | _ \<Rightarrow> None))"

definition node_letters :: "nat \<Rightarrow> ('s, 'u) shutdown \<Rightarrow> ('s, 'u) shutdown option" where
  "node_letters i st =
     (case (if i < length (sd_nodes st) then sd_nodes st ! i else Runs) of
        Letters m \<Rightarrow> send_letter m (st\<lparr>sd_nodes := (sd_nodes st)[i := Runs]\<rparr>)
      | _ \<Rightarrow> None)"

definition letter_taken :: "('s, 'u) shutdown \<Rightarrow> ('s, 'u) shutdown option" where
  "letter_taken st =
     (case (if sd_dlRuns st then sd_dlBuf st else None) of
        None \<Rightarrow> None
      | Some buf \<Rightarrow> (case Buffer_Recv False None buf of RecvOk m buf' \<Rightarrow> Some (st\<lparr>sd_dlBuf := Some buf'\<rparr>) | _ \<Rightarrow> None))"

text \<open>
  The goroutines of the monitor: one per node waits for it and passes its error on, in a channel with
  room for all; one takes the errors.
\<close>

definition monitor_collects :: "nat \<Rightarrow> ('s, 'u) shutdown \<Rightarrow> ('s, 'u) shutdown option" where
  "monitor_collects i st =
     (case (if i < length (sd_nodes st) then sd_nodes st ! i else Runs) of
        Ended err \<Rightarrow> Some (st\<lparr>sd_nodes := (sd_nodes st)[i := Collected], sd_errs := sd_errs st @ [err]\<rparr>)
      | _ \<Rightarrow> None)"

definition error_goroutine :: "('s, 'u) shutdown \<Rightarrow> ('s, 'u) shutdown option" where
  "error_goroutine st =
     (case sd_errs st of
        [] \<Rightarrow> None
      | err # errs \<Rightarrow> Some (put_pipe (monitor_error err (sd_pipe st)) (st\<lparr>sd_errs := errs\<rparr>)))"

text \<open>
  The monitor itself: it waits for all nodes, stops the controller and waits for its loop, sends a stop
  signal to the dead-letter runtime, without a context, and sets the final state. The argument tells
  whether the ten seconds for the dead-letter runtime pass before it has ended.
\<close>

definition Pipeline_monitor :: "bool \<Rightarrow> ('s, 'u) shutdown \<Rightarrow> ('s, 'u) shutdown option" where
  "Pipeline_monitor timed_out st =
     (case sd_monitor st of
        WaitsForNodes \<Rightarrow>
          if list_all ((=) Collected) (sd_nodes st)
          then Some (st\<lparr>sd_loop := Controller_Stop (sd_loop st), sd_monitor := WaitsForController\<rparr>) else None
      | WaitsForController \<Rightarrow> if Stop_returns (sd_loop st) then Some (st\<lparr>sd_monitor := AtDeadLetter\<rparr>) else None
      | AtDeadLetter \<Rightarrow>
          map_option (\<lambda>st.
              case monitor_dead_letter timed_out (sd_pipe st) (sd_world st) of (p, w) \<Rightarrow>
                st\<lparr>sd_pipe := p, sd_world := w, sd_dlRuns := (sd_dlRuns st \<and> timed_out), sd_monitor := AtFinish\<rparr>)
            (if sd_dlBuf st = None then Some st else send_letter (NewSignalMessage NewStopSignal) st)
      | AtFinish \<Rightarrow> Some (st\<lparr>sd_pipe := monitor_finish (sd_pipe st), sd_monitor := MonitorEnded\<rparr>)
      | MonitorEnded \<Rightarrow> None)"

datatype 'u shutdown_step =
    Call api_call | CancelParent
  | NodeSnapshots nat u64 bytes | NodeCompletes nat | NodeReturns nat "error option" | NodeReports nat
  | NodeFails nat "'u DataMessage" error | NodeLetters nat | LetterTaken | DeadLetterEnds
  | Collects nat | TakesError | MonitorStep bool
  | LoopCompletion time | LoopStopped | LoopCtxDone

text \<open>The turns of the controller's loop are those of \<open>Controller_Loop\<close>.\<close>

definition loop_turn :: "loop_step \<Rightarrow> ('s, 'u) shutdown \<Rightarrow> ('s, 'u) shutdown option" where
  "loop_turn ev st = map_option (\<lambda>cl. st\<lparr>sd_loop := cl\<rparr>) (loop_exec ev (sd_loop st))"

primrec sd_exec :: "'u shutdown_step \<Rightarrow> ('s, 'u) shutdown \<Rightarrow> ('s, 'u) shutdown option" where
  "sd_exec (Call c) st = Some (sd_call c st)"
| "sd_exec CancelParent st = Some (put_pipe (Pipeline_cancel (sd_pipe st)) st)"
| "sd_exec (NodeSnapshots i e state) st = node_snapshots i e state st"
| "sd_exec (NodeCompletes i) st = node_completes i st"
| "sd_exec (NodeReturns i err) st = node_returns i err st"
| "sd_exec (NodeReports i) st = node_reports i st"
| "sd_exec (NodeFails i msg err) st = node_fails i msg err st"
| "sd_exec (NodeLetters i) st = node_letters i st"
| "sd_exec LetterTaken st = letter_taken st"
| "sd_exec DeadLetterEnds st = Some (st\<lparr>sd_dlRuns := False\<rparr>)"
| "sd_exec (Collects i) st = monitor_collects i st"
| "sd_exec TakesError st = error_goroutine st"
| "sd_exec (MonitorStep timed_out) st = Pipeline_monitor timed_out st"
| "sd_exec (LoopCompletion now) st = loop_turn (TakesCompletion now) st"
| "sd_exec LoopStopped st = loop_turn TakesStopped st"
| "sd_exec LoopCtxDone st = loop_turn TakesCtxDone st"

primrec sd_run :: "'u shutdown_step list \<Rightarrow> ('s, 'u) shutdown \<Rightarrow> ('s, 'u) shutdown option" where
  "sd_run [] st = Some st"
| "sd_run (ev # evs) st = (case sd_exec ev st of None \<Rightarrow> None | Some st \<Rightarrow> sd_run evs st)"

section \<open>Lemmas\<close>

lemma sd_run_append: "sd_run (evs @ evs') st = (case sd_run evs st of None \<Rightarrow> None | Some st \<Rightarrow> sd_run evs' st)"
  by (induction evs arbitrary: st) (simp_all split: option.split)

lemma sd_run_induct:
  assumes "sd_run evs st = Some st'" "P st" "\<And>ev st st'. P st \<Longrightarrow> sd_exec ev st = Some st' \<Longrightarrow> P st'"
  shows "P st'"
  using assms(1,2)
proof (induction evs arbitrary: st)
  case (Cons ev evs)
  then show ?case using assms(3) by (auto split: option.splits)
qed simp

text \<open>The calls of the API touch the controller only by starting a checkpoint, and never the life of the pipeline's goroutines.\<close>

lemma api_controller:
  "p_controller (fst (api_step c p)) = p_controller p \<or>
     (\<exists>now e ts. p_controller (fst (api_step c p)) = track_checkpoint now e ts (p_controller p))"
proof (cases c)
  case (CallStop env now)
  then show ?thesis
    by (simp add: Pipeline_Stop_def Pipeline_State_def compareAndSwapState_def Let_def split: prod.splits) blast
qed (auto simp: Pipeline_Start_def Pipeline_Pause_def Pipeline_Resume_def Pipeline_Terminate_def Pipeline_State_def
      Pipeline_cancel_def compareAndSwapState_def storeState_def Let_def split: prod.splits call_end.splits option.splits)

lemma api_state:
  "p_state (fst (api_step c p)) \<in> moves (p_state p)"
  "p_state p \<noteq> PipelineInitializing \<Longrightarrow> p_done (fst (api_step c p)) = p_done p"
  by (cases c; cases "p_state p"; simp add: call_states)+

lemma put_pipe_simps [simp]:
  "sd_pipe (put_pipe p st) = p" "sd_ids (put_pipe p st) = sd_ids st" "sd_world (put_pipe p st) = sd_world st"
  "sd_begun (put_pipe p st) = sd_begun st" "sd_dlBuf (put_pipe p st) = sd_dlBuf st" "sd_dlRuns (put_pipe p st) = sd_dlRuns st"
  "sd_nodes (put_pipe p st) = sd_nodes st" "sd_errs (put_pipe p st) = sd_errs st" "sd_monitor (put_pipe p st) = sd_monitor st"
  "cl_controller (sd_loop (put_pipe p st)) = cl_controller (sd_loop st)" "cl_done (sd_loop (put_pipe p st)) = cl_done (sd_loop st)"
  "cl_completionCh (sd_loop (put_pipe p st)) = cl_completionCh (sd_loop st)"
  "cl_stoppedCh (sd_loop (put_pipe p st)) = cl_stoppedCh (sd_loop st)"
  by (simp_all add: put_pipe_def)

lemma sd_call_simps [simp]:
  "sd_ids (sd_call c st) = sd_ids st" "sd_nodes (sd_call c st) = sd_nodes st" "sd_errs (sd_call c st) = sd_errs st"
  "sd_begun (sd_call c st) = sd_begun st" "sd_dlBuf (sd_call c st) = sd_dlBuf st" "sd_dlRuns (sd_call c st) = sd_dlRuns st"
  "sd_monitor (sd_call c st) = sd_monitor st" "sd_world (sd_call c st) = sd_world st" "cl_done (sd_loop (sd_call c st)) = cl_done (sd_loop st)"
  "cl_completionCh (sd_loop (sd_call c st)) = cl_completionCh (sd_loop st)"
  "cl_stoppedCh (sd_loop (sd_call c st)) = cl_stoppedCh (sd_loop st)"
  by (simp_all add: sd_call_def Let_def)

lemma sd_call_controller:
  "cl_controller (sd_loop (sd_call c st)) = cl_controller (sd_loop st) \<or>
     (\<exists>now e ts. cl_controller (sd_loop (sd_call c st)) = track_checkpoint now e ts (cl_controller (sd_loop st)))"
  using api_controller [of c "(sd_pipe st)\<lparr>p_controller := cl_controller (sd_loop st)\<rparr>"] by (simp add: sd_call_def Let_def)

lemma sd_call_pipe:
  "p_state (sd_pipe (sd_call c st)) \<in> moves (p_state (sd_pipe st))"
  "p_state (sd_pipe st) \<noteq> PipelineInitializing \<Longrightarrow> p_done (sd_pipe (sd_call c st)) = p_done (sd_pipe st)"
  using api_state [where c = c and p = "(sd_pipe st)\<lparr>p_controller := cl_controller (sd_loop st)\<rparr>"] by (simp_all add: sd_call_def Let_def)

lemma moves_terminal: "s' \<in> moves s \<Longrightarrow> terminal s \<Longrightarrow> terminal s'" "s' \<in> moves s \<Longrightarrow> s \<noteq> PipelineInitializing \<Longrightarrow> s' \<noteq> PipelineInitializing"
  by (cases s; auto simp: terminal_def)+


definition past :: "'u node_end \<Rightarrow> bool" where
  "past e \<longleftrightarrow> (case e of Ended _ \<Rightarrow> True | Collected \<Rightarrow> True | _ \<Rightarrow> False)"

definition reported :: "('s, 'u) shutdown \<Rightarrow> nat" where
  "reported st = sum_list (map (\<lambda>e. if past e then 1 else 0) (sd_nodes st))"

definition completing :: "'u node_end \<Rightarrow> nat" where
  "completing e = (case e of Completes _ _ \<Rightarrow> 1 | _ \<Rightarrow> 0)"

lemma completing_simps [simp]:
  "completing Runs = 0" "completing (Reports err) = 0" "completing (Ended err) = 0" "completing Collected = 0" "completing (Completes e s) = 1" "completing (Letters m) = 0"
  by (simp_all add: completing_def)

lemma past_simps [simp]: "\<not> past Runs" "\<not> past (Completes k s)" "\<not> past (Letters m)" "\<not> past (Reports e)" "past (Ended e)" "past Collected"
  by (simp_all add: past_def)

definition writes_letter :: "'u node_end \<Rightarrow> bool" where
  "writes_letter e \<longleftrightarrow> (case e of Letters _ \<Rightarrow> True | _ \<Rightarrow> False)"

lemma writes_letter_simps [simp]:
  "\<not> writes_letter Runs" "\<not> writes_letter (Completes k s)" "\<not> writes_letter (Reports e)" "\<not> writes_letter (Ended e)"
  "\<not> writes_letter Collected" "writes_letter (Letters m)"
  by (simp_all add: writes_letter_def)

lemma no_letter_update: "list_all (\<lambda>e. \<not> writes_letter e) xs \<Longrightarrow> \<not> writes_letter x \<Longrightarrow> list_all (\<lambda>e. \<not> writes_letter e) (xs[i := x])"
  using set_update_subset_insert [of xs i x] by (auto simp: list_all_iff)

text \<open>The steps, by what they change.\<close>

lemma sd_exec_cases:
  assumes "sd_exec ev st = Some st'"
  obtains (call) c where "ev = Call c" "st' = sd_call c st"
    | (cancel) "ev = CancelParent" "st' = put_pipe (Pipeline_cancel (sd_pipe st)) st"
    | (snapshots) i e state where "ev = NodeSnapshots i e state" "i < length (sd_nodes st)" "sd_nodes st ! i = Runs"
        "st' = st\<lparr>sd_nodes := (sd_nodes st)[i := Completes e state], sd_begun := sd_begun st + 1\<rparr>"
    | (completes) i e state where "ev = NodeCompletes i" "i < length (sd_nodes st)" "sd_nodes st ! i = Completes e state"
        "int (length (cl_completionCh (sd_loop st))) < c_chanSize (cl_controller (sd_loop st))"
        "st' = st\<lparr>sd_loop := (sd_loop st)\<lparr>cl_completionCh := cl_completionCh (sd_loop st) @
           [\<lparr>nc_NodeID = sd_ids st ! i, nc_Epoch = e, nc_State = state\<rparr>]\<rparr>, sd_nodes := (sd_nodes st)[i := Runs]\<rparr>"
    | (returns) i err where "ev = NodeReturns i err" "i < length (sd_nodes st)" "sd_nodes st ! i = Runs"
        "st' = st\<lparr>sd_nodes := (sd_nodes st)[i := Reports err]\<rparr>"
    | (reports) i err where "ev = NodeReports i" "i < length (sd_nodes st)" "sd_nodes st ! i = Reports err"
        "int (length (cl_stoppedCh (sd_loop st))) < c_chanSize (cl_controller (sd_loop st))"
        "st' = st\<lparr>sd_loop := (sd_loop st)\<lparr>cl_stoppedCh := cl_stoppedCh (sd_loop st) @ [\<lparr>ns_NodeID = sd_ids st ! i\<rparr>]\<rparr>,
           sd_nodes := (sd_nodes st)[i := Ended err]\<rparr>"
    | (fails) i msg err where "ev = NodeFails i msg err" "i < length (sd_nodes st)" "sd_nodes st ! i = Runs" "sd_dlBuf st \<noteq> None"
        "st' = st\<lparr>sd_nodes := (sd_nodes st)[i := Letters (dead_letter (sd_ids st ! i) msg err)]\<rparr>"
    | (letter) i m buf where "ev = NodeLetters i" "i < length (sd_nodes st)" "sd_nodes st ! i = Letters m" "sd_dlBuf st = Some buf"
        "\<not> b_closed buf" "int (length (b_ch buf)) < b_capacity buf"
        "st' = st\<lparr>sd_nodes := (sd_nodes st)[i := Runs],
           sd_dlBuf := Some (buf\<lparr>b_ch := b_ch buf @ [m], b_sendCount := b_sendCount buf + 1\<rparr>)\<rparr>"
    | (taken) buf' where "ev = LetterTaken" "sd_dlRuns st" "st' = st\<lparr>sd_dlBuf := Some buf'\<rparr>" "sd_dlBuf st \<noteq> None"
    | (dlends) "ev = DeadLetterEnds" "st' = st\<lparr>sd_dlRuns := False\<rparr>"
    | (collects) i err where "ev = Collects i" "i < length (sd_nodes st)" "sd_nodes st ! i = Ended err"
        "st' = st\<lparr>sd_nodes := (sd_nodes st)[i := Collected], sd_errs := sd_errs st @ [err]\<rparr>"
    | (error) err errs where "ev = TakesError" "sd_errs st = err # errs"
        "st' = put_pipe (monitor_error err (sd_pipe st)) (st\<lparr>sd_errs := errs\<rparr>)"
    | (stops) timed_out where "ev = MonitorStep timed_out" "sd_monitor st = WaitsForNodes" "list_all ((=) Collected) (sd_nodes st)"
        "st' = st\<lparr>sd_loop := Controller_Stop (sd_loop st), sd_monitor := WaitsForController\<rparr>"
    | (stopped) timed_out where "ev = MonitorStep timed_out" "sd_monitor st = WaitsForController" "Stop_returns (sd_loop st)"
        "st' = st\<lparr>sd_monitor := AtDeadLetter\<rparr>"
    | (letters) timed_out p w buf d where "ev = MonitorStep timed_out" "sd_monitor st = AtDeadLetter"
        "monitor_dead_letter timed_out (sd_pipe st) (sd_world st) = (p, w)" "buf = None \<longleftrightarrow> sd_dlBuf st = None"
        "st' = st\<lparr>sd_dlBuf := buf, sd_pipe := p, sd_world := w, sd_dlRuns := d, sd_monitor := AtFinish\<rparr>"
    | (finishes) timed_out where "ev = MonitorStep timed_out" "sd_monitor st = AtFinish"
        "st' = st\<lparr>sd_pipe := monitor_finish (sd_pipe st), sd_monitor := MonitorEnded\<rparr>"
    | (turn) l cl where "ev \<in> {LoopStopped, LoopCtxDone} \<union> range LoopCompletion" "l \<in> {TakesStopped, TakesCtxDone} \<union> range TakesCompletion"
        "loop_exec l (sd_loop st) = Some cl" "st' = st\<lparr>sd_loop := cl\<rparr>"
proof (cases ev)
  case (Call c)
  with assms show ?thesis by (intro call) auto
next
  case CancelParent
  with assms show ?thesis by (intro cancel) auto
next
  case (NodeSnapshots i e state)
  with assms show ?thesis by (intro snapshots) (auto simp: node_snapshots_def split: if_splits)
next
  case (NodeCompletes i)
  with assms obtain e state where "i < length (sd_nodes st)" "sd_nodes st ! i = Completes e state"
    by (auto simp: node_completes_def split: if_splits node_end.splits)
  with assms NodeCompletes show ?thesis
    by (intro completes [of i e state]) (auto simp: node_completes_def send_completion_def split: if_splits)
next
  case (NodeReturns i err)
  with assms show ?thesis by (intro returns) (auto simp: node_returns_def split: if_splits)
next
  case (NodeReports i)
  with assms obtain err where "i < length (sd_nodes st)" "sd_nodes st ! i = Reports err"
    by (auto simp: node_reports_def split: if_splits node_end.splits)
  with assms NodeReports show ?thesis by (intro reports [of i err]) (auto simp: node_reports_def send_stopped_def split: if_splits)
next
  case (NodeFails i msg err)
  with assms show ?thesis by (intro fails) (auto simp: node_fails_def split: if_splits)
next
  case (NodeLetters i)
  with assms obtain m where i: "i < length (sd_nodes st)" "sd_nodes st ! i = Letters m"
    by (auto simp: node_letters_def split: if_splits node_end.splits)
  with assms NodeLetters obtain buf buf' where buf: "sd_dlBuf st = Some buf" "Buffer_Send False None m buf = SendOk buf'"
    "st' = st\<lparr>sd_nodes := (sd_nodes st)[i := Runs], sd_dlBuf := Some buf'\<rparr>"
    by (auto simp: node_letters_def send_letter_def split: option.splits send_outcome.splits)
  with Buffer_Send_Ok [OF buf(2)] NodeLetters i show ?thesis by (intro letter [of i m buf]) auto
next
  case LetterTaken
  with assms show ?thesis by (auto simp: letter_taken_def intro: taken split: if_splits option.splits recv_outcome.splits)
next
  case DeadLetterEnds
  with assms show ?thesis by (intro dlends) auto
next
  case (Collects i)
  with assms obtain err where "i < length (sd_nodes st)" "sd_nodes st ! i = Ended err"
    by (auto simp: monitor_collects_def split: if_splits node_end.splits)
  with assms Collects show ?thesis by (intro collects [of i err]) (auto simp: monitor_collects_def)
next
  case TakesError
  with assms obtain err errs where "sd_errs st = err # errs" by (auto simp: error_goroutine_def split: list.splits)
  with assms TakesError show ?thesis by (intro error [of err errs]) (auto simp: error_goroutine_def)
next
  case (MonitorStep timed_out)
  obtain p w where pw: "monitor_dead_letter timed_out (sd_pipe st) (sd_world st) = (p, w)" by fastforce
  show ?thesis
  proof (cases "sd_monitor st")
    case WaitsForNodes
    with assms MonitorStep show ?thesis by (intro stops) (auto simp: Pipeline_monitor_def split: if_splits)
  next
    case WaitsForController
    with assms MonitorStep show ?thesis by (intro stopped) (auto simp: Pipeline_monitor_def split: if_splits)
  next
    case AtDeadLetter
    with assms MonitorStep obtain st1 where st1: "(if sd_dlBuf st = None then Some st else send_letter (NewSignalMessage NewStopSignal) st) = Some st1"
      "st' = (case monitor_dead_letter timed_out (sd_pipe st1) (sd_world st1) of (p, w) \<Rightarrow>
        st1\<lparr>sd_pipe := p, sd_world := w, sd_dlRuns := (sd_dlRuns st1 \<and> timed_out), sd_monitor := AtFinish\<rparr>)"
      by (auto simp: Pipeline_monitor_def)
    obtain buf where buf: "st1 = st\<lparr>sd_dlBuf := buf\<rparr>" "buf = None \<longleftrightarrow> sd_dlBuf st = None"
    proof (cases "sd_dlBuf st")
      case None
      with st1(1) that [of None] show ?thesis by simp
    next
      case (Some b)
      with st1(1) show ?thesis by (auto simp: send_letter_def intro: that split: send_outcome.splits)
    qed
    then show ?thesis using st1(2) pw MonitorStep AtDeadLetter by (intro letters [OF _ _ pw buf(2)]) auto
  next
    case AtFinish
    with assms MonitorStep show ?thesis by (intro finishes) (auto simp: Pipeline_monitor_def)
  next
    case MonitorEnded
    with assms MonitorStep show ?thesis by (simp add: Pipeline_monitor_def)
  qed
next
  case (LoopCompletion now)
  with assms obtain cl where "loop_exec (TakesCompletion now) (sd_loop st) = Some cl" "st' = st\<lparr>sd_loop := cl\<rparr>"
    by (auto simp: loop_turn_def)
  with LoopCompletion show ?thesis by (intro turn [of "TakesCompletion now" cl]) auto
next
  case LoopStopped
  with assms obtain cl where "loop_exec TakesStopped (sd_loop st) = Some cl" "st' = st\<lparr>sd_loop := cl\<rparr>"
    by (auto simp: loop_turn_def)
  with LoopStopped show ?thesis by (intro turn [of TakesStopped cl]) auto
next
  case LoopCtxDone
  with assms obtain cl where "loop_exec TakesCtxDone (sd_loop st) = Some cl" "st' = st\<lparr>sd_loop := cl\<rparr>"
    by (auto simp: loop_turn_def)
  with LoopCtxDone show ?thesis by (intro turn [of TakesCtxDone cl]) auto
qed

text \<open>A turn of the loop by itself.\<close>

lemma loop_turn_effect:
  assumes "loop_exec l cl = Some cl'" "l \<in> {TakesStopped, TakesCtxDone} \<union> range TakesCompletion"
  shows "\<not> cl_done cl" "c_chanSize (cl_controller cl') = c_chanSize (cl_controller cl)"
    "length (cl_stoppedCh cl') \<le> length (cl_stoppedCh cl)" "length (cl_completionCh cl') \<le> length (cl_completionCh cl)"
  using assms by (auto simp: loop_defs split: list.splits if_splits)

section \<open>Invariants\<close>

definition sd_inv :: "('s, 'u) shutdown \<Rightarrow> bool" where
  "sd_inv st \<longleftrightarrow> length (sd_nodes st) = length (sd_ids st) \<and> c_chanSize (cl_controller (sd_loop st)) = 64 \<and>
     length (cl_stoppedCh (sd_loop st)) \<le> reported st \<and>
     length (cl_completionCh (sd_loop st)) + sum_list (map completing (sd_nodes st)) \<le> sd_begun st \<and>
     (sd_dlBuf st = None \<longrightarrow> list_all (\<lambda>e. \<not> writes_letter e) (sd_nodes st)) \<and>
     (sd_monitor st \<noteq> WaitsForNodes \<longrightarrow> list_all ((=) Collected) (sd_nodes st) \<and> cl_cancelled (sd_loop st)) \<and>
     (sd_monitor st \<in> {AtDeadLetter, AtFinish, MonitorEnded} \<longrightarrow> cl_done (sd_loop st)) \<and>
     p_done (sd_pipe st) = Some (sd_monitor st = MonitorEnded) \<and> p_state (sd_pipe st) \<noteq> PipelineInitializing \<and>
     (sd_monitor st = MonitorEnded \<longrightarrow> terminal (p_state (sd_pipe st)))"

lemma monitor_error_frame:
  "p_done (monitor_error e p) = p_done p" "p_state (monitor_error e p) \<in> {p_state p, PipelineError}"
  by (auto simp: monitor_error_def storeState_def)

text \<open>What a step of a node changes in the counts.\<close>

lemma node_update:
  assumes "i < length (sd_nodes st)"
  shows "sum_list (map (\<lambda>e. if past e then 1 else 0) ((sd_nodes st)[i := x])) + (if past (sd_nodes st ! i) then 1 else 0 :: nat) =
      sum_list (map (\<lambda>e. if past e then 1 else 0) (sd_nodes st)) + (if past x then 1 else 0)"
    and "sum_list (map completing ((sd_nodes st)[i := x])) + completing (sd_nodes st ! i) =
      sum_list (map completing (sd_nodes st)) + completing x"
  by (rule sum_list_update_plus [OF assms])+

lemma sd_inv_step:
  assumes inv: "sd_inv st" and ex: "sd_exec ev st = Some st'"
  shows "sd_inv st'"
  using ex
proof (cases rule: sd_exec_cases)
  case (call c)
  have "c_chanSize (cl_controller (sd_loop (sd_call c st))) = c_chanSize (cl_controller (sd_loop st))"
    using sd_call_controller [of c st] by auto
  moreover have "cl_cancelled (sd_loop st) \<longrightarrow> cl_cancelled (sd_loop (sd_call c st))"
    by (simp add: sd_call_def put_pipe_def Let_def)
  ultimately show ?thesis
    using inv sd_call_pipe [where c = c and st = st] moves_terminal [OF sd_call_pipe(1) [where c = c and st = st]]
    by (simp add: sd_inv_def call reported_def)
next
  case cancel
  with inv show ?thesis by (simp add: sd_inv_def reported_def put_pipe_def)
next
  case (snapshots i e state)
  have "sd_monitor st = WaitsForNodes"
    using inv snapshots(2,3) by (cases "sd_monitor st") (auto simp: sd_inv_def list_all_length)
  with inv snapshots node_update [OF snapshots(2), of "Completes e state"]
  show ?thesis by (simp add: sd_inv_def reported_def no_letter_update)
next
  case (completes i e state)
  have "sd_monitor st = WaitsForNodes"
    using inv completes(2,3) by (cases "sd_monitor st") (auto simp: sd_inv_def list_all_length)
  with inv completes node_update [OF completes(2), of "Runs"]
  show ?thesis by (simp add: sd_inv_def reported_def no_letter_update)
next
  case (returns i err)
  have "sd_monitor st = WaitsForNodes"
    using inv returns(2,3) by (cases "sd_monitor st") (auto simp: sd_inv_def list_all_length)
  with inv returns node_update [OF returns(2), of "Reports err"]
  show ?thesis by (simp add: sd_inv_def reported_def no_letter_update)
next
  case (reports i err)
  have "sd_monitor st = WaitsForNodes"
    using inv reports(2,3) by (cases "sd_monitor st") (auto simp: sd_inv_def list_all_length)
  with inv reports node_update [OF reports(2), of "Ended err"]
  show ?thesis by (simp add: sd_inv_def reported_def no_letter_update)
next
  case (fails i msg err)
  have "sd_monitor st = WaitsForNodes"
    using inv fails(2,3) by (cases "sd_monitor st") (auto simp: sd_inv_def list_all_length)
  with inv fails node_update [OF fails(2), of "Letters (dead_letter (sd_ids st ! i) msg err)"]
  show ?thesis by (auto simp: sd_inv_def reported_def)
next
  case (letter i m buf)
  have "sd_monitor st = WaitsForNodes"
    using inv letter(2,3) by (cases "sd_monitor st") (auto simp: sd_inv_def list_all_length)
  with inv letter node_update [OF letter(2), of Runs]
  show ?thesis by (simp add: sd_inv_def reported_def)
next
  case (taken buf')
  with inv show ?thesis by (simp add: sd_inv_def reported_def)
next
  case dlends
  with inv show ?thesis by (simp add: sd_inv_def reported_def)
next
  case (collects i err)
  have "sd_monitor st = WaitsForNodes"
    using inv collects(2,3) by (cases "sd_monitor st") (auto simp: sd_inv_def list_all_length)
  with inv collects node_update [OF collects(2), of "Collected"]
  show ?thesis by (simp add: sd_inv_def reported_def no_letter_update)
next
  case (error err errs)
  have "p_state (sd_pipe st) \<noteq> PipelineInitializing \<Longrightarrow> p_state (monitor_error err (sd_pipe st)) \<noteq> PipelineInitializing"
    "terminal (p_state (sd_pipe st)) \<Longrightarrow> terminal (p_state (monitor_error err (sd_pipe st)))"
    using monitor_error_frame(2) [of err "sd_pipe st"] by (auto simp: terminal_def)
  with inv error monitor_error_frame(1) [of err "sd_pipe st"] show ?thesis
    by (simp add: sd_inv_def reported_def put_pipe_def)
next
  case (stops timed_out)
  with inv show ?thesis by (simp add: sd_inv_def reported_def Controller_Stop_def)
next
  case (stopped timed_out)
  with inv show ?thesis by (simp add: sd_inv_def reported_def Stop_returns_def)
next
  case (letters timed_out p w buf d)
  then have "p_done p = p_done (sd_pipe st)" "p_state p = p_state (sd_pipe st)"
    by (auto simp: monitor_dead_letter_def split: option.splits if_splits)
  with inv letters show ?thesis by (simp add: sd_inv_def reported_def no_letter_update)
next
  case (finishes timed_out)
  have "terminal (p_state (monitor_finish (sd_pipe st)))" "p_done (monitor_finish (sd_pipe st)) = Some True"
    by (auto simp: monitor_finish_def Pipeline_State_def storeState_def terminal_def Let_def)
  with inv finishes show ?thesis by (auto simp: sd_inv_def reported_def terminal_def)
next
  case (turn l cl)
  have "cl_done (sd_loop st) \<longrightarrow> cl_done cl" "cl_cancelled (sd_loop st) \<longrightarrow> cl_cancelled cl"
    using turn(2,3) by (auto simp: loop_defs split: list.splits if_splits)
  with inv turn loop_turn_effect [OF turn(3,2)] show ?thesis by (auto simp: sd_inv_def reported_def)
qed


lemma built_controller:
  assumes "Build ord b = Inr p"
  shows "c_chanSize (p_controller p) = 64" "c_completeCalls (p_controller p) = []" "p_stopEpoch p = 0"
    "p_state p = PipelineInitializing"
  using assms by (auto simp: Build_def NewController_def Let_def split: option.splits)

lemma sd_inv_start:
  assumes "Build ord b = Inr p"
  shows "sd_inv (shutdown_start pc w p)"
  using built_controller [OF assms]
  by (simp add: sd_inv_def shutdown_start_def Controller_Start_def reported_def Start_state comp_def sum_list_map_remove_zero list_all_iff)

lemma sd_inv_run:
  assumes "Build ord b = Inr p" "sd_run evs (shutdown_start pc w p) = Some st"
  shows "sd_inv st"
  using assms(2) by (rule sd_run_induct) (rule sd_inv_start [OF assms(1)], rule sd_inv_step)

lemma Wait_ended: "sd_inv st \<Longrightarrow> Pipeline_Wait (sd_pipe st) = Returns None \<longleftrightarrow> sd_monitor st = MonitorEnded"
  by (simp add: sd_inv_def Pipeline_Wait_def)

text \<open>Nodes that have reported are nodes, and each fills at most one place of the channel.\<close>

lemma reported_le: "reported st \<le> length (sd_nodes st)"
proof -
  have "sum_list (map (\<lambda>e. if past e then 1 else 0) xs) \<le> length xs" for xs
    by (induction xs) auto
  then show ?thesis by (simp add: reported_def)
qed

lemma reported_less:
  assumes "i < length (sd_nodes st)" "\<not> past (sd_nodes st ! i)"
  shows "reported st < length (sd_nodes st)"
  using sum_list_update_plus [OF assms(1), of "\<lambda>e. if past e then 1 else 0" Collected] assms(2)
    reported_le [of "st\<lparr>sd_nodes := (sd_nodes st)[i := Collected]\<rparr>"]
  by (simp add: reported_def)

section \<open>The shutdown of a small pipeline\<close>

primrec node_rank :: "'u node_end \<Rightarrow> nat" where
  "node_rank Runs = 3"
| "node_rank (Completes e s) = 4"
| "node_rank (Letters m) = 4"
| "node_rank (Reports e) = 2"
| "node_rank (Ended e) = 1"
| "node_rank Collected = 0"

primrec monitor_rank :: "monitor_point \<Rightarrow> nat" where
  "monitor_rank WaitsForNodes = 4"
| "monitor_rank WaitsForController = 3"
| "monitor_rank AtDeadLetter = 2"
| "monitor_rank AtFinish = 1"
| "monitor_rank MonitorEnded = 0"

definition shutdown_rank :: "('s, 'u) shutdown \<Rightarrow> nat" where
  "shutdown_rank st = sum_list (map node_rank (sd_nodes st)) + monitor_rank (sd_monitor st) + (if cl_done (sd_loop st) then 0 else 1)"

definition snapshot_step :: "'u shutdown_step \<Rightarrow> bool" where
  "snapshot_step ev \<longleftrightarrow> (case ev of NodeSnapshots _ _ _ \<Rightarrow> True | _ \<Rightarrow> False)"

lemma begun_same: "sd_exec ev st = Some st' \<Longrightarrow> \<not> snapshot_step ev \<Longrightarrow> sd_begun st' = sd_begun st"
  by (cases rule: sd_exec_cases, assumption) (simp_all add: snapshot_step_def)

lemma no_buffer_step: "sd_exec ev st = Some st' \<Longrightarrow> sd_dlBuf st = None \<Longrightarrow> sd_dlBuf st' = None"
  by (cases rule: sd_exec_cases, assumption) simp_all

lemma shutdown_advances:
  fixes st :: "('s, 'u) shutdown"
  assumes inv: "sd_inv st" and few: "length (sd_nodes st) \<le> 64" "sd_begun st \<le> 64" "sd_dlBuf st = None" and going: "sd_monitor st \<noteq> MonitorEnded"
  obtains ev st' where "sd_exec ev st = Some st'" "shutdown_rank st' < shutdown_rank st" "\<not> snapshot_step ev"
proof (cases "list_all ((=) Collected) (sd_nodes st)")
  case False
  then obtain i where i: "i < length (sd_nodes st)" "sd_nodes st ! i \<noteq> Collected" by (auto simp: list_all_length)
  note sums = sum_list_update_plus [OF i(1), of node_rank]
  consider "sd_nodes st ! i = Runs" | e state where "sd_nodes st ! i = Completes e state" | err where "sd_nodes st ! i = Reports err" | err where "sd_nodes st ! i = Ended err"
    using i inv few(3) by (cases "sd_nodes st ! i") (auto simp: sd_inv_def list_all_length)
  then show ?thesis
  proof cases
    case 1
    with i sums [of "Reports None"] show ?thesis
      by (intro that [of "NodeReturns i None"]) (auto simp: node_returns_def shutdown_rank_def snapshot_step_def)
  next
    case 2
    have "completing (sd_nodes st ! i) \<le> sum_list (map completing (sd_nodes st))"
      using i(1) by (intro member_le_sum_list) auto
    then have "length (cl_completionCh (sd_loop st)) < 64" using inv few(2) 2 by (simp add: sd_inv_def)
    then have "int (length (cl_completionCh (sd_loop st))) < c_chanSize (cl_controller (sd_loop st))" using inv by (simp add: sd_inv_def)
    with 2 i sums [of Runs] show ?thesis
      by (intro that [of "NodeCompletes i"]) (auto simp: node_completes_def send_completion_def shutdown_rank_def snapshot_step_def)
  next
    case 3
    have "length (cl_stoppedCh (sd_loop st)) < 64"
      using inv few(1) reported_less [OF i(1)] 3 by (simp add: sd_inv_def)
    then have "int (length (cl_stoppedCh (sd_loop st))) < c_chanSize (cl_controller (sd_loop st))" using inv by (simp add: sd_inv_def)
    with 3 i sums [of "Ended err"] show ?thesis
      by (intro that [of "NodeReports i"]) (auto simp: node_reports_def send_stopped_def shutdown_rank_def snapshot_step_def)
  next
    case 4
    with i sums [of Collected] show ?thesis
      by (intro that [of "Collects i"]) (auto simp: monitor_collects_def shutdown_rank_def snapshot_step_def)
  qed
next
  case True
  obtain p w where pw: "monitor_dead_letter False (sd_pipe st) (sd_world st) = (p, w)" by fastforce
  note defs = Pipeline_monitor_def Stop_returns_def Controller_Stop_def shutdown_rank_def snapshot_step_def
  show ?thesis
  proof (cases "sd_monitor st")
    case WaitsForNodes
    with True show ?thesis by (intro that [of "MonitorStep False"]) (auto simp: defs)
  next
    case WaitsForController
    show ?thesis
    proof (cases "cl_done (sd_loop st)")
      case True
      with WaitsForController show ?thesis by (intro that [of "MonitorStep False"]) (auto simp: defs)
    next
      case False
      with WaitsForController inv show ?thesis
        by (intro that [of LoopCtxDone]) (auto simp: sd_inv_def loop_turn_def run_ctx_done_def shutdown_rank_def snapshot_step_def)
    qed
  next
    case AtDeadLetter
    with pw few(3) show ?thesis by (intro that [of "MonitorStep False"]) (auto simp: defs)
  next
    case AtFinish
    then show ?thesis by (intro that [of "MonitorStep False"]) (auto simp: defs)
  qed (use going in simp)
qed

lemma shutdown_ends:
  "sd_inv st \<Longrightarrow> length (sd_nodes st) \<le> 64 \<Longrightarrow> sd_begun st \<le> 64 \<Longrightarrow> sd_dlBuf st = None \<Longrightarrow> \<exists>more st'. sd_run more st = Some st' \<and> sd_monitor st' = MonitorEnded \<and> sd_inv st'"
proof (induction "shutdown_rank st" arbitrary: st rule: less_induct)
  case less
  show ?case
  proof (cases "sd_monitor st = MonitorEnded")
    case True
    with less.prems show ?thesis by (intro exI [of _ "[]"]) simp
  next
    case False
    obtain ev st1 where ev: "sd_exec ev st = Some st1" "shutdown_rank st1 < shutdown_rank st" "\<not> snapshot_step ev"
      by (rule shutdown_advances [OF less.prems False])
    have inv: "sd_inv st1" by (rule sd_inv_step [OF less.prems(1) ev(1)])
    have "length (sd_nodes st1) = length (sd_nodes st)" using ev(1) by (cases rule: sd_exec_cases) simp_all
    then obtain more st' where "sd_run more st1 = Some st'" "sd_monitor st' = MonitorEnded" "sd_inv st'"
      using less.hyps [OF ev(2) inv] less.prems(2-4) begun_same [OF ev(1,3)] no_buffer_step [OF ev(1)] by auto
    with ev(1) show ?thesis by (intro exI [of _ "ev # more"]) simp
  qed
qed

section \<open>The shutdown of a large pipeline\<close>

text \<open>After the end of the controller's loop every report of a stop stays in the channel.\<close>

definition loop_ended :: "('s, 'u) shutdown \<Rightarrow> bool" where
  "loop_ended st \<longleftrightarrow> cl_done (sd_loop st) \<and> length (cl_stoppedCh (sd_loop st)) = reported st \<and> reported st \<le> 64 \<and>
     c_completeCalls (cl_controller (sd_loop st)) = []"

lemma loop_ended_exec:
  assumes inv: "sd_inv st" and le: "loop_ended st" and ex: "sd_exec ev st = Some st'"
  shows "loop_ended st'"
  using ex
proof (cases rule: sd_exec_cases)
  case (call c)
  have "c_completeCalls (cl_controller (sd_loop (sd_call c st))) = c_completeCalls (cl_controller (sd_loop st))"
    using sd_call_controller [of c st] by (auto simp: track_checkpoint_def)
  with le call show ?thesis by (simp add: loop_ended_def reported_def)
next
  case (snapshots i e state)
  with le sum_list_update_plus [of i "sd_nodes st" "\<lambda>e. if past e then 1 else 0" "Completes e state"]
  show ?thesis by (simp add: loop_ended_def reported_def)
next
  case (completes i e state)
  with le sum_list_update_plus [of i "sd_nodes st" "\<lambda>e. if past e then 1 else 0" Runs]
  show ?thesis by (simp add: loop_ended_def reported_def)
next
  case (returns i err)
  with le sum_list_update_plus [of i "sd_nodes st" "\<lambda>e. if past e then 1 else 0" "Reports err"]
  show ?thesis by (simp add: loop_ended_def reported_def)
next
  case (reports i err)
  with le inv sum_list_update_plus [of i "sd_nodes st" "\<lambda>e. if past e then 1 else 0" "Ended err"]
  show ?thesis by (simp add: loop_ended_def reported_def sd_inv_def)
next
  case (fails i msg err)
  with le sum_list_update_plus [of i "sd_nodes st" "\<lambda>e. if past e then 1 else 0" "Letters (dead_letter (sd_ids st ! i) msg err)"]
  show ?thesis by (simp add: loop_ended_def reported_def)
next
  case (letter i m buf)
  with le sum_list_update_plus [of i "sd_nodes st" "\<lambda>e. if past e then 1 else 0" Runs]
  show ?thesis by (simp add: loop_ended_def reported_def)
next
  case (collects i err)
  with le sum_list_update_plus [of i "sd_nodes st" "\<lambda>e. if past e then 1 else 0" Collected]
  show ?thesis by (simp add: loop_ended_def reported_def)
next
  case (turn l cl)
  with le loop_turn_effect(1) [OF turn(3,2)] show ?thesis by (simp add: loop_ended_def)
qed (use le in \<open>simp_all add: loop_ended_def reported_def Controller_Stop_def\<close>)

lemma loop_ended_run:
  assumes "sd_run evs st = Some st'" "sd_inv st" "loop_ended st"
  shows "sd_inv st' \<and> loop_ended st'"
  using assms(1)
  by (rule sd_run_induct [where P = "\<lambda>st. sd_inv st \<and> loop_ended st"]) (use assms(2,3) sd_inv_step loop_ended_exec in blast)+

lemma large_never_ends:
  assumes "loop_ended st" "sd_inv st" "64 < length (sd_nodes st)"
  shows "sd_monitor st \<noteq> MonitorEnded"
proof
  assume "sd_monitor st = MonitorEnded"
  then have "list_all ((=) Collected) (sd_nodes st)" using assms(2) by (simp add: sd_inv_def)
  then have "map (\<lambda>e. if past e then 1 else 0) (sd_nodes st) = replicate (length (sd_nodes st)) (1 :: nat)"
    by (auto simp: list_eq_iff_nth_eq list_all_length)
  then have "reported st = length (sd_nodes st)" by (simp add: reported_def sum_list_replicate)
  with assms(1,3) show False by (simp add: loop_ended_def)
qed

lemma sd_run_length: "sd_run evs st = Some st' \<Longrightarrow> length (sd_nodes st') = length (sd_nodes st)"
  by (erule sd_run_induct) (auto elim: sd_exec_cases)

lemma cancelled_start:
  fixes p :: "('s, 'u) Pipeline"
  assumes "Build ord b = Inr p"
  obtains st where "sd_run [CancelParent, LoopCtxDone] (shutdown_start pc w p) = Some st" "loop_ended st" "sd_begun st \<le> 64"
proof -
  have "p_cancel (Pipeline_cancel (Pipeline_Start pc p)) = Some True"
    using built_controller(4) [OF assms] by (simp add: Pipeline_Start_def compareAndSwapState_def Pipeline_cancel_def)
  then show ?thesis
    using built_controller [OF assms]
    by (intro that [of "the (sd_run [CancelParent, LoopCtxDone] (shutdown_start pc w p))"])
      (simp_all add: shutdown_start_def put_pipe_def loop_turn_def run_ctx_done_def Controller_Start_def loop_ended_def reported_def comp_def)
qed


section \<open>A dead-letter runtime that has ended\<close>

text \<open>A node waits with a letter, the buffer is full and nobody reads it.\<close>

definition blocked :: "nat \<Rightarrow> ('s, 'u) shutdown \<Rightarrow> bool" where
  "blocked i st \<longleftrightarrow> i < length (sd_nodes st) \<and> writes_letter (sd_nodes st ! i) \<and> \<not> sd_dlRuns st \<and>
     (\<exists>buf. sd_dlBuf st = Some buf \<and> b_capacity buf \<le> int (length (b_ch buf)))"

lemma blocked_not_collected:
  assumes "blocked i st" "sd_inv st"
  shows "sd_monitor st = WaitsForNodes"
proof (rule ccontr)
  assume "sd_monitor st \<noteq> WaitsForNodes"
  then have "sd_nodes st ! i = Collected" using assms by (auto simp: sd_inv_def blocked_def list_all_length)
  with assms(1) show False by (simp add: blocked_def)
qed

lemma blocked_exec:
  assumes inv: "sd_inv st" and bl: "blocked i st" and ex: "sd_exec ev st = Some st'"
  shows "blocked i st'"
proof -
  have mon: "sd_monitor st = WaitsForNodes" by (rule blocked_not_collected [OF bl inv])
  have other: "sd_nodes st ! j \<noteq> sd_nodes st ! i \<Longrightarrow> j \<noteq> i" for j by blast
  show ?thesis
    using ex
  proof (cases rule: sd_exec_cases)
    case (letter j m buf)
    with bl show ?thesis by (auto simp: blocked_def)
  qed (use bl mon in \<open>auto simp: blocked_def nth_list_update\<close>)
qed

lemma blocked_run:
  assumes "sd_run evs st = Some st'" "sd_inv st" "blocked i st"
  shows "sd_inv st' \<and> blocked i st'"
  using assms(1)
  by (rule sd_run_induct [where P = "\<lambda>st. sd_inv st \<and> blocked i st"]) (use assms(2,3) sd_inv_step blocked_exec in blast)+

lemma letters_fill:
  assumes "0 < length (sd_nodes st)" "sd_nodes st ! 0 = Runs" "sd_dlBuf st = Some buf" "\<not> b_closed buf"
    "int (length (b_ch buf) + k) \<le> b_capacity buf"
  shows "\<exists>st' buf'. sd_run (concat (replicate k [NodeFails 0 msg err, NodeLetters 0])) st = Some st' \<and> sd_nodes st' = sd_nodes st \<and>
    sd_dlRuns st' = sd_dlRuns st \<and> sd_begun st' = sd_begun st \<and>
    sd_dlBuf st' = Some buf' \<and> b_capacity buf' = b_capacity buf \<and> length (b_ch buf') = length (b_ch buf) + k"
  using assms
proof (induction k arbitrary: st buf)
  case 0
  then show ?case by simp
next
  case (Suc k)
  let ?m = "dead_letter (sd_ids st ! 0) msg err"
  let ?buf1 = "buf\<lparr>b_ch := b_ch buf @ [?m], b_sendCount := b_sendCount buf + 1\<rparr>"
  let ?st1 = "st\<lparr>sd_dlBuf := Some ?buf1\<rparr>"
  have "(sd_nodes st)[0 := Runs] = sd_nodes st" using Suc.prems(2) by (metis list_update_id)
  then have "sd_run [NodeFails 0 msg err, NodeLetters 0] st = Some ?st1"
    using Suc.prems by (simp add: node_fails_def node_letters_def send_letter_def Buffer_Send_def Let_def)
  moreover obtain st' buf' where "sd_run (concat (replicate k [NodeFails 0 msg err, NodeLetters 0])) ?st1 = Some st'" "sd_nodes st' = sd_nodes ?st1"
    "sd_dlRuns st' = sd_dlRuns ?st1" "sd_begun st' = sd_begun ?st1" "sd_dlBuf st' = Some buf'" "b_capacity buf' = b_capacity ?buf1"
    "length (b_ch buf') = length (b_ch ?buf1) + k"
    using Suc.IH [of ?st1 ?buf1] Suc.prems by auto
  ultimately show ?case by (simp only: replicate_Suc concat.simps sd_run_append) simp
qed

section \<open>A graceful stop\<close>

text \<open>What a node does that handles the barrier of a final checkpoint: it reports its state, returns and reports its stop.\<close>

definition node_ends :: "u64 \<Rightarrow> nat \<Rightarrow> 'u shutdown_step list" where
  "node_ends e i = [NodeSnapshots i e [], NodeCompletes i, NodeReturns i (Some Canceled), NodeReports i, Collects i]"

definition monitor_ends :: "'u shutdown_step list" where
  "monitor_ends = [MonitorStep False, LoopCtxDone, MonitorStep False, MonitorStep False, MonitorStep False]"

text \<open>The state when the first \<open>k\<close> nodes have done so and the controller's loop has not had a turn.\<close>

definition ended_nodes :: "u64 \<Rightarrow> nat \<Rightarrow> ('s, 'u) shutdown \<Rightarrow> ('s, 'u) shutdown" where
  "ended_nodes e k st =
     st\<lparr>sd_loop := (sd_loop st)\<lparr>
          cl_completionCh := map (\<lambda>i. \<lparr>nc_NodeID = sd_ids st ! i, nc_Epoch = e, nc_State = []\<rparr>) [0..<k],
          cl_stoppedCh := map (\<lambda>i. \<lparr>ns_NodeID = sd_ids st ! i\<rparr>) [0..<k]\<rparr>,
        sd_nodes := replicate k Collected @ replicate (length (sd_nodes st) - k) Runs,
        sd_begun := sd_begun st + k, sd_errs := replicate k (Some Canceled)\<rparr>"

lemma nodes_end:
  fixes st :: "('s, 'u) shutdown"
  assumes start: "sd_nodes st = replicate n Runs" "sd_errs st = []" "cl_completionCh (sd_loop st) = []" "cl_stoppedCh (sd_loop st) = []"
    and size: "int n \<le> c_chanSize (cl_controller (sd_loop st))"
  shows "k \<le> n \<Longrightarrow> sd_run (concat (map (node_ends e) [0..<k])) st = Some (ended_nodes e k st)"
proof (induction k)
  case 0
  with start show ?case by (simp add: ended_nodes_def)
next
  case (Suc k)
  have "replicate (n - k) Runs = Runs # replicate (n - Suc k) Runs" using Suc.prems by (cases "n - k") (auto simp: Suc_diff_Suc)
  then have nodes: "sd_nodes (ended_nodes e k st) = replicate k Collected @ Runs # replicate (n - Suc k) Runs"
    by (simp add: ended_nodes_def start)
  have "sd_run (node_ends e k) (ended_nodes e k st) = Some (ended_nodes e (Suc k) st)"
    using Suc.prems size start nodes
    by (simp add: node_ends_def node_snapshots_def node_completes_def node_returns_def node_reports_def monitor_collects_def send_completion_def
        send_stopped_def list_update_append nth_append)
      (simp add: ended_nodes_def replicate_append_same [symmetric] start)
  with Suc show ?case by (simp add: sd_run_append)
qed


lemma letters_step:
  assumes "sd_monitor st = AtDeadLetter" "\<forall>buf. sd_dlBuf st = Some buf \<longrightarrow> \<not> b_closed buf \<and> int (length (b_ch buf)) < b_capacity buf"
  shows "\<exists>buf p w d. Pipeline_monitor timed_out st =
      Some (st\<lparr>sd_dlBuf := buf, sd_pipe := p, sd_world := w, sd_dlRuns := d, sd_monitor := AtFinish\<rparr>) \<and>
    p_state p = p_state (sd_pipe st)"
proof -
  obtain p w where pw: "monitor_dead_letter timed_out (sd_pipe st) (sd_world st) = (p, w)" by fastforce
  then have "p_state p = p_state (sd_pipe st)" by (auto simp: monitor_dead_letter_def split: option.splits if_splits)
  moreover obtain buf where "(if sd_dlBuf st = None then Some st else send_letter (NewSignalMessage NewStopSignal) st) = Some (st\<lparr>sd_dlBuf := buf\<rparr>)"
  proof (cases "sd_dlBuf st")
    case None
    then show ?thesis by (intro that [of None]) simp
  next
    case (Some b)
    with assms(2) show ?thesis
      by (intro that [of "Some (b\<lparr>b_ch := b_ch b @ [NewSignalMessage NewStopSignal], b_sendCount := b_sendCount b + 1\<rparr>)"])
        (simp add: send_letter_def Buffer_Send_def Let_def)
  qed
  ultimately show ?thesis
    using assms(1) pw by (intro exI [of _ buf] exI [of _ p] exI [of _ w] exI [of _ "sd_dlRuns st \<and> timed_out"]) (simp_all add: Pipeline_monitor_def)
qed

lemma start_buffer:
  assumes "Build ord b = Inr p"
  shows "\<forall>buf. sd_dlBuf (shutdown_start pc w p) = Some buf \<longrightarrow> \<not> b_closed buf \<and> b_ch buf = [] \<and> b_capacity buf = 128"
    and "sd_dlBuf (shutdown_start pc w p) = None \<longleftrightarrow> p_dlRuntime p = None"
  using assms by (auto simp: shutdown_start_def Build_def NewBuffer_def DefaultBufferCapacity_def Let_def nth_append split: option.splits if_splits)

text \<open>After \<open>Stop\<close>, all nodes end as they should, and the loop's \<open>select\<close> takes the cancelled context.\<close>

lemma graceful_stop:
  fixes p :: "('s, 'u) Pipeline"
  assumes built: "Build ord b = Inr p" and few: "length (p_runtimes p) \<le> 64"
    and st0: "st0 = sd_call (CallStop env now) (shutdown_start False w p)"
    and evs: "evs = concat (map (node_ends 1) [0..<length (p_runtimes p)]) @ monitor_ends"
  obtains st where "sd_run evs st0 = Some st" "sd_monitor st = MonitorEnded" "loop_ended st"
    "p_state (sd_pipe st) = PipelineStopped" "cl_controller (sd_loop st) = track_checkpoint now 1 True (p_controller p)"
proof -
  let ?n = "length (p_runtimes p)"
  note ctrl = built_controller [OF built]
  have con: "cl_controller (sd_loop st0) = track_checkpoint now 1 True (p_controller p)"
    and state: "p_state (sd_pipe st0) = PipelineStopping" and mon: "sd_monitor st0 = WaitsForNodes" "\<not> cl_done (sd_loop st0)"
    using ctrl
    by (simp_all add: st0 sd_call_def shutdown_start_def Controller_Start_def Stop_state Start_state Let_def put_pipe_def)
      (simp add: Pipeline_Stop_def Pipeline_Start_def Pipeline_State_def compareAndSwapState_def Let_def split: prod.splits)
  have start: "sd_nodes st0 = replicate ?n Runs" "sd_errs st0 = []" "cl_completionCh (sd_loop st0) = []" "cl_stoppedCh (sd_loop st0) = []"
    by (simp_all add: st0 shutdown_start_def Controller_Start_def map_replicate_const)
  let ?st1 = "ended_nodes 1 ?n st0"
  have size: "int ?n \<le> c_chanSize (cl_controller (sd_loop st0))" using few ctrl(1) by (simp add: con)
  have run1: "sd_run (concat (map (node_ends 1) [0..<?n])) st0 = Some ?st1"
    by (rule nodes_end [OF start size]) simp
  have st1: "list_all ((=) Collected) (sd_nodes ?st1)" "sd_monitor ?st1 = WaitsForNodes" "\<not> cl_done (sd_loop ?st1)"
    "p_state (sd_pipe ?st1) = PipelineStopping" "cl_controller (sd_loop ?st1) = track_checkpoint now 1 True (p_controller p)"
    "length (cl_stoppedCh (sd_loop ?st1)) = ?n" "reported ?st1 = ?n"
    using start mon state con by (simp_all add: ended_nodes_def list_all_iff reported_def sum_list_replicate)
  let ?st2 = "?st1\<lparr>sd_loop := (sd_loop ?st1)\<lparr>cl_cancelled := True, cl_done := True\<rparr>, sd_monitor := AtDeadLetter\<rparr>"
  have run2: "sd_run [MonitorStep False, LoopCtxDone, MonitorStep False] ?st1 = Some ?st2"
    using st1(1-3) by (simp add: Pipeline_monitor_def Controller_Stop_def Stop_returns_def loop_turn_def run_ctx_done_def)
  have "sd_dlBuf ?st2 = sd_dlBuf (shutdown_start False w p)" by (simp add: st0 ended_nodes_def)
  then have room: "\<forall>buf. sd_dlBuf ?st2 = Some buf \<longrightarrow> \<not> b_closed buf \<and> int (length (b_ch buf)) < b_capacity buf"
    using start_buffer(1) [OF built, of False w] by simp
  have at: "sd_monitor ?st2 = AtDeadLetter" by simp
  obtain buf q w' d where q: "Pipeline_monitor False ?st2 =
      Some (?st2\<lparr>sd_dlBuf := buf, sd_pipe := q, sd_world := w', sd_dlRuns := d, sd_monitor := AtFinish\<rparr>)"
    "p_state q = p_state (sd_pipe ?st2)"
    using letters_step [OF at room, of False] by blast
  have qs: "p_state q = PipelineStopping" using q(2) st1(4) by simp
  let ?st3 = "?st2\<lparr>sd_dlBuf := buf, sd_pipe := q, sd_world := w', sd_dlRuns := d, sd_monitor := AtFinish\<rparr>"
  let ?st = "?st3\<lparr>sd_pipe := monitor_finish q, sd_monitor := MonitorEnded\<rparr>"
  have run3: "sd_run [MonitorStep False, MonitorStep False] ?st2 = Some ?st"
  proof -
    have "Pipeline_monitor False ?st3 = Some ?st" by (simp add: Pipeline_monitor_def)
    with q(1) show ?thesis by (simp only: sd_run.simps sd_exec.simps option.case)
  qed
  have me: "monitor_ends = [MonitorStep False, LoopCtxDone, MonitorStep False] @ [MonitorStep False, MonitorStep False]"
    by (simp add: monitor_ends_def)
  have "sd_run evs st0 = Some ?st" by (simp only: evs me sd_run_append run1 run2 run3 option.case)
  then show ?thesis
  proof (rule that)
    show "loop_ended ?st" using st1(5-7) few ctrl(2) by (simp add: loop_ended_def reported_def track_checkpoint_def)
    show "p_state (sd_pipe ?st) = PipelineStopped" using qs by (simp add: monitor_finish_def Pipeline_State_def storeState_def Let_def)
  qed (simp_all add: st1(5))
qed

section \<open>Which pipelines can shut down\<close>

lemma built_nonempty:
  fixes b :: "('s, 'u) GraphBuilder"
  assumes ok: "builder_ok b" "orders_ok ord b" and built: "Build ord b = Inr p"
  shows "p_runtimes p \<noteq> []"
proof
  assume "p_runtimes p = []"
  then have none: "bo_sources ord = []" "bo_operators ord = []" "bo_sinks ord = []"
    using build_nodes_wired(1) [OF ok built] by simp_all
  have "g_nodes (gb_graph b) \<noteq> []"
    using built by (auto simp: Build_def Validate_def Let_def split: option.splits if_splits)
  then have "node_type (gb_graph b) (fst (hd (g_nodes (gb_graph b)))) \<noteq> None"
    by (cases "g_nodes (gb_graph b)") (auto simp: node_type_def)
  then obtain n where "node_type (gb_graph b) n \<noteq> None" ..
  then show False
    using orders_nodes(1,3,5) [OF ok] none by (cases "the (node_type (gb_graph b) n)") auto
qed

lemma can_end:
  assumes built: "Build ord b = Inr p" and few: "length (p_runtimes p) \<le> 64" "p_dlRuntime p = None"
    and run: "sd_run evs (shutdown_start pc w p) = Some st" "sd_begun st \<le> 64"
  shows "\<exists>more st'. sd_run more st = Some st' \<and> Pipeline_Wait (sd_pipe st') = Returns None"
proof -
  have "length (sd_nodes st) \<le> 64" using few(1) sd_run_length [OF run(1)] by (simp add: shutdown_start_def)
  moreover have "sd_dlBuf st = None"
    using run(1) by (rule sd_run_induct) (use start_buffer(2) [OF built] few(2) no_buffer_step in auto)
  ultimately show ?thesis
    using shutdown_ends [OF sd_inv_run [OF built run(1)] _ run(2)] Wait_ended by blast
qed

lemma large_stuck:
  fixes p :: "('s, 'u) Pipeline"
  assumes built: "Build ord b = Inr p" and many: "64 < length (p_runtimes p)"
  shows "\<exists>evs st. sd_run evs (shutdown_start pc w p) = Some st \<and> sd_begun st \<le> 64 \<and>
    (\<forall>more st'. sd_run more st = Some st' \<longrightarrow> Pipeline_Wait (sd_pipe st') \<noteq> Returns None)"
proof -
  obtain st where st: "sd_run [CancelParent, LoopCtxDone] (shutdown_start pc w p) = Some st" "loop_ended st" "sd_begun st \<le> 64"
    by (rule cancelled_start [OF built])
  have "Pipeline_Wait (sd_pipe st') \<noteq> Returns None" if more: "sd_run more st = Some st'" for more st'
  proof -
    have "sd_inv st'" "loop_ended st'" using loop_ended_run [OF more sd_inv_run [OF built st(1)] st(2)] by blast+
    moreover have "64 < length (sd_nodes st')"
      using sd_run_length [OF st(1)] sd_run_length [OF more] many by (simp add: shutdown_start_def)
    ultimately show ?thesis using large_never_ends [of st'] by (simp add: Wait_ended)
  qed
  with st show ?thesis by blast
qed

lemma letters_stuck:
  fixes p :: "('s, 'u) Pipeline"
  assumes built: "Build ord b = Inr p" and dl: "p_dlRuntime p \<noteq> None" "p_runtimes p \<noteq> []"
  shows "\<exists>evs st. sd_run evs (shutdown_start pc w p) = Some st \<and> sd_begun st \<le> 64 \<and>
    (\<forall>more st'. sd_run more st = Some st' \<longrightarrow> Pipeline_Wait (sd_pipe st') \<noteq> Returns None)"
proof -
  let ?start = "shutdown_start pc w p" and ?msg = "DataMessage [] AnyNil 0" and ?err = Canceled
  let ?st1 = "?start\<lparr>sd_dlRuns := False\<rparr>" and ?fill = "concat (replicate 128 [NodeFails 0 ?msg ?err, NodeLetters 0])"
  obtain buf where buf: "sd_dlBuf ?start = Some buf" "\<not> b_closed buf" "b_ch buf = []" "b_capacity buf = 128"
    using start_buffer [OF built, of pc w] dl by auto
  have nodes: "0 < length (sd_nodes ?start)" "sd_nodes ?start ! 0 = Runs" using dl by (auto simp: shutdown_start_def)
  obtain st2 buf2 where st2: "sd_run ?fill ?st1 = Some st2" "sd_nodes st2 = sd_nodes ?st1" "\<not> sd_dlRuns st2" "sd_begun st2 = sd_begun ?st1"
    "sd_dlBuf st2 = Some buf2" "b_capacity buf2 = 128" "length (b_ch buf2) = 128"
    using letters_fill [of ?st1 buf 128 ?msg ?err] nodes buf by auto
  let ?evs = "DeadLetterEnds # ?fill @ [NodeFails 0 ?msg ?err]"
  let ?st = "st2\<lparr>sd_nodes := (sd_nodes st2)[0 := Letters (dead_letter (sd_ids st2 ! 0) ?msg ?err)]\<rparr>"
  have "sd_run ?evs ?start = Some ?st"
    using st2(1,2,5) nodes by (simp add: sd_run_append node_fails_def)
  moreover have "sd_begun ?st \<le> 64" using st2(4) by (simp add: shutdown_start_def)
  moreover have "Pipeline_Wait (sd_pipe st') \<noteq> Returns None" if more: "sd_run more ?st = Some st'" for more st'
  proof -
    have "blocked 0 ?st" using st2 nodes by (simp add: blocked_def)
    with blocked_run [OF more sd_inv_run [OF built \<open>sd_run ?evs ?start = Some ?st\<close>]] have "sd_inv st'" "blocked 0 st'" by blast+
    with blocked_not_collected [of 0 st'] show ?thesis by (simp add: Wait_ended)
  qed
  ultimately show ?thesis by blast
qed

lemma two_runtimes:
  assumes "Build two_order (fold build_step two_calls (NewGraphBuilder ''p'')) = Inr p"
  shows "length (p_runtimes p) = 2" "p_dlRuntime p = None"
proof -
  have "builder_ok (fold build_step two_calls (NewGraphBuilder ''p''))" by (rule build_calls_ok [OF builder_ok_new])
  from arg_cong [OF build_nodes_wired(1) [OF this two_orders_ok assms], of length]
  show "length (p_runtimes p) = 2" by (simp add: two_order_def)
  have "build_dlSink (fold build_step two_calls (NewGraphBuilder ''p'')) = None"
    by (simp add: build_dlSink_def build_errCfg_def two_calls_def AddSource_def AddSink_def Connect_def NewGraphBuilder_def
        NewGraph_def AddNode_def AddEdge_def NewEdge_def Let_def)
  with assms show "p_dlRuntime p = None" by (auto simp: Build_def Let_def split: option.splits)
qed

section \<open>The test harness\<close>

text \<open>
  \<open>Run\<close> of \<open>internal/engine/test_harness.go\<close>: what happens until its \<open>select\<close> decides, and after a
  timeout, when it has cancelled the context, in the two seconds it then waits. \<open>t\<close> is when \<open>Wait\<close>
  returned, if it has; the deferred cancellation comes after the result.
\<close>

definition TestHarness_Run ::
  "TestHarness \<Rightarrow> bool \<Rightarrow> duration \<Rightarrow> duration \<Rightarrow> string \<Rightarrow> 'u shutdown_step list \<Rightarrow> 'u shutdown_step list \<Rightarrow> 'u World \<Rightarrow>
     ('s, 'u) Pipeline \<Rightarrow> (('s, 'u) shutdown \<times> TestHarnessResult) option" where
  "TestHarness_Run h pick t elapsed stacks before grace w p =
     (case sd_run before (shutdown_start False w p) of
        None \<Rightarrow> None
      | Some st \<Rightarrow>
          let done_at = (if Pipeline_Wait (sd_pipe st) = Returns None then Some t else None);
              result = (\<lambda>st. Harness_Run h pick done_at elapsed stacks (sd_pipe st))
          in if hr_Completed (result st) then Some (st, result st)
             else map_option (\<lambda>st. (st, result st)) (sd_run (CancelParent # grace) st))"

text \<open>A run that the harness reports as completed has ended everything.\<close>

lemma harness_completed:
  assumes "Build ord b = Inr p" "TestHarness_Run h pick t elapsed stacks before grace w p = Some (st, r)" "hr_Completed r"
  shows "sd_monitor st = MonitorEnded \<and> terminal (hr_FinalState r) \<and> \<not> hr_Deadlocked r"
proof -
  obtain st1 where st1: "sd_run before (shutdown_start False w p) = Some st1"
    using assms(2) by (auto simp: TestHarness_Run_def split: option.splits)
  have inv: "sd_inv st1" by (rule sd_inv_run [OF assms(1) st1])
  have "Pipeline_Wait (sd_pipe st1) = Returns None \<and> st = st1 \<and> r = Harness_Run h pick (Some t) elapsed stacks (sd_pipe st1)"
    using assms(2,3) st1
    by (auto simp: TestHarness_Run_def Harness_Run_def Let_def split: if_splits)
  with inv assms(3) show ?thesis
    by (auto simp: Wait_ended sd_inv_def Harness_Run_def Pipeline_State_def Let_def split: if_splits)
qed

section \<open>Properties\<close>

text \<open>
  C33. \<open>Wait\<close> returns last. In every interleaving of calls of the API, the ends of the nodes, the goroutines of the
  monitor and the loop of the controller: when \<open>Wait\<close> returns, every node has ended, its stop has
  been reported and its error collected, the controller's loop has ended, and the pipeline is in a terminal state.
\<close>

theorem wait_after_shutdown:
  assumes "Build ord b = Inr p" "sd_run evs (shutdown_start pc w p) = Some st" "Pipeline_Wait (sd_pipe st) = Returns None"
  shows "length (sd_nodes st) = length (p_runtimes p) \<and> list_all ((=) Collected) (sd_nodes st) \<and>
    Stop_returns (sd_loop st) \<and> terminal (p_state (sd_pipe st))"
proof -
  have inv: "sd_inv st" by (rule sd_inv_run [OF assms(1,2)])
  with assms(3) have "sd_monitor st = MonitorEnded" by (simp add: Wait_ended)
  with inv sd_run_length [OF assms(2)] show ?thesis by (simp add: sd_inv_def Stop_returns_def shutdown_start_def)
qed

theorem wait_after_shutdown_witness:
  "\<exists>p evs st. Build two_order (fold build_step two_calls (NewGraphBuilder ''p'')) = Inr p \<and>
     sd_run evs (shutdown_start False quiet_world p) = Some st \<and> Pipeline_Wait (sd_pipe st) = Returns None \<and>
     list_all ((=) Collected) (sd_nodes st) \<and> Stop_returns (sd_loop st)"
proof -
  obtain p where p: "Build two_order (fold build_step two_calls (NewGraphBuilder ''p'')) = Inr p"
    using two_builds by blast
  let ?st0 = "shutdown_start False quiet_world p"
  have "length (sd_nodes ?st0) \<le> 64" "sd_begun ?st0 \<le> 64" "sd_dlBuf ?st0 = None"
    using two_runtimes [OF p] start_buffer(2) [OF p, of False quiet_world] by (simp_all add: shutdown_start_def)
  then obtain evs st where run: "sd_run evs ?st0 = Some st" "sd_monitor st = MonitorEnded" "sd_inv st"
    using shutdown_ends [OF sd_inv_start [OF p]] by blast
  then have "Pipeline_Wait (sd_pipe st) = Returns None" by (simp add: Wait_ended)
  with wait_after_shutdown [OF p run(1)] p run(1) show ?thesis by blast
qed





end
