(* ===== verification/Concurrent.thy ===== *)
theory Concurrent
  imports Operators "HOL-Library.Multiset"
begin

text \<open>
  Concurrent operators, \<open>internal/engine/concurrent.go\<close>: a
  wrapper that processes messages on a bounded pool of goroutines. A state has the semaphore, the
  wait group, the error of the workers and the workers themselves, each at a point of its body. The
  wrapped operator has to be safe for concurrent use: its calls take effect one at a time. What
  interleaves is the dispatch of messages and the steps of the workers.

  \<open>co_dispatched\<close> and \<open>co_processed\<close> are history variables: the calls given to workers, and those the
  wrapped operator has carried out, in order.
\<close>

section \<open>State\<close>

datatype 'u worker =
    WorkerCall "'u DataMessage" "'u runtimeCollector"
  | WorkerFailed error
  | WorkerRelease
  | WorkerFinish

record ('s, 'u) ConcurrentOperator =
  co_inner :: "('s, 'u) Operator"
  co_state :: 's
  co_concurrency :: int
  co_sem :: nat
  co_wg :: int
  co_lastErr :: "error option"
  co_workers :: "'u worker list"
  co_dispatched :: "('u DataMessage \<times> 'u runtimeCollector) list"
  co_processed :: "('u DataMessage \<times> 'u runtimeCollector) list"

definition NewConcurrentOperator :: "('s, 'u) Operator \<Rightarrow> 's \<Rightarrow> int \<Rightarrow> ('s, 'u) ConcurrentOperator" where
  "NewConcurrentOperator op s concurrency =
     (let concurrency = (if concurrency < 1 then 1 else concurrency)
      in \<lparr>co_inner = op, co_state = s, co_concurrency = concurrency, co_sem = 0, co_wg = 0, co_lastErr = None,
          co_workers = [], co_dispatched = [], co_processed = []\<rparr>)"

definition Concurrency :: "('s, 'u) ConcurrentOperator \<Rightarrow> int" where
  "Concurrency co = co_concurrency co"

section \<open>Operations\<close>

datatype ('s, 'u) dispatch_outcome = Dispatched "('s, 'u) ConcurrentOperator" | DispatchErr error | DispatchBlocks

text \<open>With a free slot and a cancelled context \<open>pick\<close> decides.\<close>

definition Concurrent_ProcessMessage ::
  "bool \<Rightarrow> error option \<Rightarrow> 'u DataMessage \<Rightarrow> 'u runtimeCollector \<Rightarrow> ('s, 'u) ConcurrentOperator \<Rightarrow> ('s, 'u) dispatch_outcome" where
  "Concurrent_ProcessMessage pick ctx msg c co =
     (case co_lastErr co of
        Some err \<Rightarrow> DispatchErr err
      | None \<Rightarrow>
          let free = int (co_sem co) < co_concurrency co;
              go = Dispatched (co\<lparr>co_sem := co_sem co + 1, co_wg := co_wg co + 1,
                                  co_workers := co_workers co @ [WorkerCall msg c],
                                  co_dispatched := co_dispatched co @ [(msg, c)]\<rparr>)
          in case ctx of
               None \<Rightarrow> if free then go else DispatchBlocks
             | Some err \<Rightarrow> if free \<and> pick then go else DispatchErr err)"

text \<open>
  One step of the worker at position \<open>k\<close>; \<open>None\<close> when there is none, when it would wait, or when its
  call panics.
\<close>

definition worker_step ::
  "nat \<Rightarrow> ('s, 'u) ConcurrentOperator \<Rightarrow> 'u World \<Rightarrow> (('s, 'u) ConcurrentOperator \<times> 'u World) option" where
  "worker_step k co w =
     (if k < length (co_workers co) then
        (case co_workers co ! k of
           WorkerCall msg c \<Rightarrow>
             (case op_ProcessMessage (co_inner co) msg c (co_state co) w of
                None \<Rightarrow> None
              | Some (s, w, err) \<Rightarrow>
                  Some (co\<lparr>co_state := s,
                           co_workers := (co_workers co)[k := case err of None \<Rightarrow> WorkerRelease | Some e \<Rightarrow> WorkerFailed e],
                           co_processed := co_processed co @ [(msg, c)]\<rparr>, w))
         | WorkerFailed e \<Rightarrow>
             Some (co\<lparr>co_lastErr := (if co_lastErr co = None then Some e else co_lastErr co),
                      co_workers := (co_workers co)[k := WorkerRelease]\<rparr>, w)
         | WorkerRelease \<Rightarrow>
             if co_sem co = 0 then None
             else Some (co\<lparr>co_sem := co_sem co - 1, co_workers := (co_workers co)[k := WorkerFinish]\<rparr>, w)
         | WorkerFinish \<Rightarrow>
             Some (co\<lparr>co_wg := co_wg co - 1, co_workers := take k (co_workers co) @ drop (Suc k) (co_workers co)\<rparr>, w))
      else None)"

definition drainError :: "('s, 'u) ConcurrentOperator \<Rightarrow> error option \<times> ('s, 'u) ConcurrentOperator" where
  "drainError co = (co_lastErr co, co\<lparr>co_lastErr := None\<rparr>)"

text \<open>\<open>Wait\<close> lets the caller go on when the counter is zero; \<open>None\<close> is a caller that waits.\<close>

definition Concurrent_HandleWatermark ::
  "WatermarkSignal \<Rightarrow> 'u runtimeCollector \<Rightarrow> ('s, 'u) ConcurrentOperator \<Rightarrow> 'u World \<Rightarrow>
     (('s, 'u) ConcurrentOperator \<times> 'u World \<times> error option) option option" where
  "Concurrent_HandleWatermark wm c co w =
     (if co_wg co \<noteq> 0 then None
      else case drainError co of
             (Some err, co) \<Rightarrow> Some (Some (co, w, Some err))
           | (None, co) \<Rightarrow>
               Some (map_option (\<lambda>(s, w, err). (co\<lparr>co_state := s\<rparr>, w, err))
                       (op_HandleWatermark (co_inner co) wm c (co_state co) w)))"

definition Concurrent_HandleCheckpoint ::
  "BarrierSignal \<Rightarrow> ('s, 'u) ConcurrentOperator \<Rightarrow> (('s, 'u) ConcurrentOperator \<times> (error + bytes)) option" where
  "Concurrent_HandleCheckpoint barrier co =
     (if co_wg co \<noteq> 0 then None
      else case drainError co of
             (Some err, co) \<Rightarrow> Some (co, Inl err)
           | (None, co) \<Rightarrow>
               (case op_HandleCheckpoint (co_inner co) barrier (co_state co) of
                  (s, r) \<Rightarrow> Some (co\<lparr>co_state := s\<rparr>, r)))"

definition Concurrent_OnStart :: "('s, 'u) ConcurrentOperator \<Rightarrow> ('s, 'u) ConcurrentOperator \<times> error option" where
  "Concurrent_OnStart co = (case op_OnStart (co_inner co) (co_state co) of (s, err) \<Rightarrow> (co\<lparr>co_state := s\<rparr>, err))"

definition Concurrent_OnClose :: "('s, 'u) ConcurrentOperator \<Rightarrow> (('s, 'u) ConcurrentOperator \<times> error option) option" where
  "Concurrent_OnClose co =
     (if co_wg co \<noteq> 0 then None
      else case op_OnClose (co_inner co) (co_state co) of (s, err) \<Rightarrow> Some (co\<lparr>co_state := s\<rparr>, err))"

definition Concurrent_Drain ::
  "bool \<Rightarrow> error option \<Rightarrow> ('s, 'u) ConcurrentOperator \<Rightarrow> (error option \<times> ('s, 'u) ConcurrentOperator) option" where
  "Concurrent_Drain pick ctx co =
     (let completed = co_wg co = 0
      in case ctx of
           None \<Rightarrow> if completed then Some (drainError co) else None
         | Some err \<Rightarrow> if completed \<and> pick then Some (drainError co) else Some (Some err, co))"

section \<open>Histories\<close>

inductive conc_step ::
  "('s, 'u) ConcurrentOperator \<times> 'u World \<Rightarrow> ('s, 'u) ConcurrentOperator \<times> 'u World \<Rightarrow> bool" where
  dispatch: "Concurrent_ProcessMessage pick ctx msg c co = Dispatched co' \<Longrightarrow> conc_step (co, w) (co', w)"
| worker: "worker_step k co w = Some (co', w') \<Longrightarrow> conc_step (co, w) (co', w')"

inductive conc_run ::
  "('s, 'u) ConcurrentOperator \<times> 'u World \<Rightarrow> ('s, 'u) ConcurrentOperator \<times> 'u World \<Rightarrow> bool" where
  here: "conc_run x x"
| more: "conc_run x y \<Longrightarrow> conc_step y z \<Longrightarrow> conc_run x z"

inductive_cases conc_stepE: "conc_step (co, w) (co', w')"

section \<open>Invariants\<close>

definition holds_slot :: "'u worker \<Rightarrow> bool" where
  "holds_slot x \<longleftrightarrow> x \<noteq> WorkerFinish"

definition pending_calls :: "'u worker list \<Rightarrow> ('u DataMessage \<times> 'u runtimeCollector) list" where
  "pending_calls ws = List.map_filter (\<lambda>x. case x of WorkerCall msg c \<Rightarrow> Some (msg, c) | _ \<Rightarrow> None) ws"

text \<open>The calls one after the other, errors noted; \<open>None\<close> if one panics.\<close>

primrec sequentially ::
  "('s, 'u) Operator \<Rightarrow> ('u DataMessage \<times> 'u runtimeCollector) list \<Rightarrow> 's \<Rightarrow> 'u World \<Rightarrow>
     ('s \<times> 'u World \<times> error list) option" where
  "sequentially op [] s w = Some (s, w, [])"
| "sequentially op (call # calls) s w =
     (case op_ProcessMessage op (fst call) (snd call) s w of
        None \<Rightarrow> None
      | Some (s, w, err) \<Rightarrow>
          (case sequentially op calls s w of
             None \<Rightarrow> None
           | Some (s, w, errs) \<Rightarrow> Some (s, w, (case err of None \<Rightarrow> errs | Some e \<Rightarrow> e # errs))))"

definition failures :: "'u worker list \<Rightarrow> error list" where
  "failures ws = List.map_filter (\<lambda>x. case x of WorkerFailed e \<Rightarrow> Some e | _ \<Rightarrow> None) ws"

definition conc_inv :: "('s, 'u) Operator \<Rightarrow> 's \<Rightarrow> 'u World \<Rightarrow> ('s, 'u) ConcurrentOperator \<Rightarrow> 'u World \<Rightarrow> bool" where
  "conc_inv op s0 w0 co w \<longleftrightarrow>
     co_inner co = op \<and>
     co_sem co = length (filter holds_slot (co_workers co)) \<and>
     int (co_sem co) \<le> co_concurrency co \<and>
     co_wg co = int (length (co_workers co)) \<and>
     mset (co_dispatched co) = mset (co_processed co) + mset (pending_calls (co_workers co)) \<and>
     (\<exists>errs. sequentially op (co_processed co) s0 w0 = Some (co_state co, w, errs) \<and>
        (errs = [] \<longleftrightarrow> co_lastErr co = None \<and> failures (co_workers co) = []) \<and>
        set (failures (co_workers co)) \<subseteq> set errs \<and>
        (\<forall>e. co_lastErr co = Some e \<longrightarrow> e \<in> set errs))"

lemma worker_lists [simp]:
  "pending_calls (xs @ ys) = pending_calls xs @ pending_calls ys" "pending_calls [] = []"
  "pending_calls (x # xs) = (case x of WorkerCall msg c \<Rightarrow> [(msg, c)] | _ \<Rightarrow> []) @ pending_calls xs"
  "failures (xs @ ys) = failures xs @ failures ys" "failures [] = []"
  "failures (x # xs) = (case x of WorkerFailed e \<Rightarrow> [e] | _ \<Rightarrow> []) @ failures xs"
  by (simp_all add: pending_calls_def failures_def map_filter_def split: worker.splits)

lemma sequentially_snoc:
  "sequentially op calls s w = Some (s1, w1, errs) \<Longrightarrow>
   sequentially op (calls @ [call]) s w =
     (case op_ProcessMessage op (fst call) (snd call) s1 w1 of
        None \<Rightarrow> None
      | Some (s2, w2, err) \<Rightarrow> Some (s2, w2, errs @ (case err of None \<Rightarrow> [] | Some e \<Rightarrow> [e])))"
proof (induction calls arbitrary: s w errs)
  case Nil
  then show ?case by (auto split: option.splits)
next
  case (Cons x calls)
  obtain s' w' err where p: "op_ProcessMessage op (fst x) (snd x) s w = Some (s', w', err)"
    using Cons.prems by (cases "op_ProcessMessage op (fst x) (snd x) s w") auto
  obtain errs' where q: "sequentially op calls s' w' = Some (s1, w1, errs')" "errs = (case err of None \<Rightarrow> errs' | Some e \<Rightarrow> e # errs')"
    using Cons.prems p by (cases "sequentially op calls s' w'") auto
  from Cons.IH [OF q(1)] p q(2) show ?case by (auto split: option.splits)
qed

lemma dispatch_inv:
  assumes "conc_inv op s0 w0 co w" "Concurrent_ProcessMessage pick ctx msg c co = Dispatched co'"
  shows "conc_inv op s0 w0 co' w"
proof -
  have "int (co_sem co) < co_concurrency co \<and>
      co' = co\<lparr>co_sem := co_sem co + 1, co_wg := co_wg co + 1, co_workers := co_workers co @ [WorkerCall msg c],
               co_dispatched := co_dispatched co @ [(msg, c)]\<rparr>"
    using assms(2) by (auto simp: Concurrent_ProcessMessage_def Let_def split: option.splits if_splits)
  with assms(1) show ?thesis by (auto simp: conc_inv_def holds_slot_def)
qed

lemma worker_inv:
  assumes inv: "conc_inv op s0 w0 co w" and step: "worker_step k co w = Some (co', w')"
  shows "conc_inv op s0 w0 co' w'"
proof -
  define xs ys a where "xs = take k (co_workers co)" and "ys = drop (Suc k) (co_workers co)" and "a = co_workers co ! k"
  have k: "k < length (co_workers co)" using step by (auto simp: worker_step_def split: if_splits)
  then have ws: "co_workers co = xs @ a # ys" by (simp add: xs_def ys_def a_def id_take_nth_drop)
  have upd: "(co_workers co)[k := b] = xs @ b # ys" for b
    using k by (simp add: xs_def ys_def upd_conv_take_nth_drop)
  obtain errs where errs: "sequentially op (co_processed co) s0 w0 = Some (co_state co, w, errs)"
    "errs = [] \<longleftrightarrow> co_lastErr co = None \<and> failures (co_workers co) = []" "set (failures (co_workers co)) \<subseteq> set errs"
    "\<And>e. co_lastErr co = Some e \<Longrightarrow> e \<in> set errs"
    and op: "co_inner co = op" using inv by (auto simp: conc_inv_def)
  show ?thesis
  proof (cases a)
    case (WorkerCall msg c)
    then obtain s err where call: "op_ProcessMessage op msg c (co_state co) w = Some (s, w', err)"
      and co': "co' = co\<lparr>co_state := s, co_workers := xs @ (case err of None \<Rightarrow> WorkerRelease | Some e \<Rightarrow> WorkerFailed e) # ys,
                       co_processed := co_processed co @ [(msg, c)]\<rparr>"
      using step k upd op by (auto simp: worker_step_def a_def split: option.splits)
    have "sequentially op (co_processed co @ [(msg, c)]) s0 w0 = Some (s, w', errs @ (case err of None \<Rightarrow> [] | Some e \<Rightarrow> [e]))"
      using sequentially_snoc [OF errs(1), of "(msg, c)"] call by simp
    then show ?thesis
      using inv errs(2-4) co' ws WorkerCall
      by (cases err) (auto simp: conc_inv_def holds_slot_def)
  next
    case (WorkerFailed e)
    then have "w' = w" "co' = co\<lparr>co_lastErr := (if co_lastErr co = None then Some e else co_lastErr co),
        co_workers := xs @ WorkerRelease # ys\<rparr>"
      using step k upd by (auto simp: worker_step_def a_def)
    then show ?thesis
      using inv errs ws WorkerFailed by (auto simp: conc_inv_def holds_slot_def)
  next
    case WorkerRelease
    then have "w' = w" "co' = co\<lparr>co_sem := co_sem co - 1, co_workers := xs @ WorkerFinish # ys\<rparr>"
      using step k upd by (auto simp: worker_step_def a_def split: if_splits)
    then show ?thesis
      using inv errs ws WorkerRelease by (auto simp: conc_inv_def holds_slot_def)
  next
    case WorkerFinish
    then have "w' = w" "co' = co\<lparr>co_wg := co_wg co - 1, co_workers := xs @ ys\<rparr>"
      using step k by (auto simp: worker_step_def a_def xs_def ys_def)
    then show ?thesis
      using inv errs ws WorkerFinish by (auto simp: conc_inv_def holds_slot_def)
  qed
qed

lemma conc_run_inv:
  assumes "conc_run x y" "conc_inv op s0 w0 (fst x) (snd x)"
  shows "conc_inv op s0 w0 (fst y) (snd y)"
  using assms
proof (induction rule: conc_run.induct)
  case (more x y z)
  from more.hyps(2) more.IH [OF more.prems] show ?case
    by (induction rule: conc_step.induct) (auto intro: dispatch_inv worker_inv)
qed

lemma conc_inv_new: "conc_inv op s w (NewConcurrentOperator op s n) w"
  by (simp add: conc_inv_def NewConcurrentOperator_def Let_def)

lemma conc_inv_reachable:
  assumes "conc_run (NewConcurrentOperator op s n, w) (co, w')"
  shows "conc_inv op s w co w'"
  using conc_run_inv [OF assms, of op s w] conc_inv_new [of op s w n] by simp

lemma conc_run_concurrency: "conc_run x y \<Longrightarrow> co_concurrency (fst y) = co_concurrency (fst x)"
proof (induction rule: conc_run.induct)
  case (more x y z)
  from more.hyps(2) have "co_concurrency (fst z) = co_concurrency (fst y)"
    by (induction rule: conc_step.induct)
      (auto simp: Concurrent_ProcessMessage_def worker_step_def Let_def split: option.splits if_splits worker.splits)
  with more.IH show ?case by simp
qed simp

text \<open>The steps that the workers still have to make.\<close>

primrec remaining :: "'u worker \<Rightarrow> nat" where
  "remaining (WorkerCall msg c) = 4"
| "remaining (WorkerFailed e) = 3"
| "remaining WorkerRelease = 2"
| "remaining WorkerFinish = 1"

definition work :: "('s, 'u) ConcurrentOperator \<Rightarrow> nat" where
  "work co = sum_list (map remaining (co_workers co))"

lemma worker_step_work:
  assumes "worker_step k co w = Some (co', w')"
  shows "work co' < work co"
proof -
  define xs ys a where "xs = take k (co_workers co)" and "ys = drop (Suc k) (co_workers co)" and "a = co_workers co ! k"
  have k: "k < length (co_workers co)" using assms by (auto simp: worker_step_def split: if_splits)
  then have ws: "co_workers co = xs @ a # ys" by (simp add: xs_def ys_def a_def id_take_nth_drop)
  have upd: "(co_workers co)[k := b] = xs @ b # ys" for b
    using k by (simp add: xs_def ys_def upd_conv_take_nth_drop)
  obtain b where b: "co_workers co' = xs @ b @ ys" "sum_list (map remaining b) < remaining a"
  proof (cases a)
    case (WorkerCall msg c)
    with assms k upd that [of "[WorkerRelease]"] that [of "[WorkerFailed _]"] show ?thesis
      by (auto simp: worker_step_def a_def split: option.splits)
  next
    case (WorkerFailed e)
    with assms k upd that [of "[WorkerRelease]"] show ?thesis by (auto simp: worker_step_def a_def)
  next
    case WorkerRelease
    with assms k upd that [of "[WorkerFinish]"] show ?thesis by (auto simp: worker_step_def a_def split: if_splits)
  next
    case WorkerFinish
    with assms k that [of "[]"] show ?thesis by (auto simp: worker_step_def a_def xs_def ys_def)
  qed
  then show ?thesis by (simp add: work_def ws)
qed

definition op_returns :: "('s, 'u) Operator \<Rightarrow> bool" where
  "op_returns op \<longleftrightarrow> (\<forall>msg c s w. op_ProcessMessage op msg c s w \<noteq> None)"

lemma worker_enabled:
  assumes "conc_inv op s0 w0 co w" "op_returns op" "k < length (co_workers co)"
  shows "worker_step k co w \<noteq> None"
proof (cases "co_workers co ! k")
  case (WorkerCall msg c)
  with assms show ?thesis
    by (auto simp: worker_step_def conc_inv_def op_returns_def split: option.splits)
next
  case WorkerRelease
  then have "WorkerRelease \<in> set (filter holds_slot (co_workers co))"
    using assms(3) by (auto simp: holds_slot_def) (metis nth_mem)
  then have "co_sem co \<noteq> 0" using assms(1) by (auto simp: conc_inv_def filter_empty_conv)
  with WorkerRelease assms(3) show ?thesis by (simp add: worker_step_def)
qed (use assms(3) in \<open>simp_all add: worker_step_def\<close>)

text \<open>A checkpoint leaves no worker, no slot taken and no error behind.\<close>

lemma checkpoint_renews:
  assumes "conc_inv op s0 w0 co w" "Concurrent_HandleCheckpoint barrier co = Some (co', r)"
  shows "co_concurrency co = max 1 n \<Longrightarrow>
    co'\<lparr>co_dispatched := [], co_processed := []\<rparr> = NewConcurrentOperator op (co_state co') n"
  using assms
  by (auto simp: Concurrent_HandleCheckpoint_def conc_inv_def drainError_def NewConcurrentOperator_def max_def
      split: if_splits option.splits prod.splits)

section \<open>Properties\<close>



text \<open>A pool of two over a counting operator, with one message dispatched and processed.\<close>

definition tally :: "(nat, unit) Operator" where
  "tally = BaseOperator\<lparr>op_ProcessMessage := (\<lambda>msg c s w. Some (Suc s, w, None)),
     op_HandleCheckpoint := (\<lambda>b s. (s, Inr [of_nat s]))\<rparr>"

definition idle_world :: "unit World" where
  "idle_world = \<lparr>w_sent = [], w_outcome = (\<lambda>_. None), w_sends = 0, w_timers = None, w_counts = [],
     w_clock = int, w_reads = 0\<rparr>"

definition tally_call :: "unit DataMessage \<times> unit runtimeCollector" where
  "tally_call = (DataMessage ''k'' AnyNil 0,
     \<lparr>rc_outputs = [], rc_portOutputs = [], rc_timerMgr = False, rc_nodeID = ''t'', rc_onError = None\<rparr>)"

definition tally_done :: "(nat, unit) ConcurrentOperator" where
  "tally_done = (NewConcurrentOperator tally 0 2)\<lparr>co_state := 1, co_dispatched := [tally_call], co_processed := [tally_call]\<rparr>"

lemma tally_run: "conc_run (NewConcurrentOperator tally 0 2, idle_world) (tally_done, idle_world)"
proof -
  let ?new = "NewConcurrentOperator tally 0 2" and ?c = "fst tally_call" and ?d = "snd tally_call"
  let ?co1 = "?new\<lparr>co_sem := 1, co_wg := 1, co_workers := [WorkerCall ?c ?d], co_dispatched := [tally_call]\<rparr>"
  let ?co2 = "?co1\<lparr>co_state := 1, co_workers := [WorkerRelease], co_processed := [tally_call]\<rparr>"
  let ?co3 = "?co2\<lparr>co_sem := 0, co_workers := [WorkerFinish]\<rparr>"
  have "Concurrent_ProcessMessage True None ?c ?d ?new = Dispatched ?co1"
    by (simp add: Concurrent_ProcessMessage_def NewConcurrentOperator_def)
  then have 1: "conc_step (?new, idle_world) (?co1, idle_world)" by (rule conc_step.dispatch)
  have 2: "conc_step (?co1, idle_world) (?co2, idle_world)"
    by (rule conc_step.worker [of 0]) (simp add: worker_step_def NewConcurrentOperator_def tally_def)
  have 3: "conc_step (?co2, idle_world) (?co3, idle_world)"
    by (rule conc_step.worker [of 0]) (simp add: worker_step_def NewConcurrentOperator_def)
  have 4: "conc_step (?co3, idle_world) (tally_done, idle_world)"
    by (rule conc_step.worker [of 0]) (simp add: worker_step_def NewConcurrentOperator_def tally_done_def)
  show ?thesis by (rule conc_run.more [OF conc_run.more [OF conc_run.more [OF conc_run.more [OF conc_run.here 1] 2] 3] 4])
qed



end
