(* ===== verification/Nodes_Concurrent.thy ===== *)
theory Nodes_Concurrent
  imports Concurrent
begin

text \<open>
  The wrapper that \<open>Concurrent\<close> of \<open>nodes/nodes.go\<close> makes: a second implementation of the bounded
  pool, which keeps its limit only as the capacity of the semaphore and has no \<open>Drain\<close>. It is
  translated on its own, without history variables; \<open>forget\<close> takes a state of the engine's
  wrapper to one of this wrapper, and every operation is that of the engine under \<open>forget\<close>.
\<close>

section \<open>State\<close>

record ('s, 'u) concurrentOp =
  cn_inner :: "('s, 'u) Operator"
  cn_state :: 's
  cn_semCap :: int
  cn_sem :: nat
  cn_wg :: int
  cn_err :: "error option"
  cn_workers :: "'u worker list"

definition nodes_Concurrent :: "('s, 'u) Operator \<Rightarrow> 's \<Rightarrow> int \<Rightarrow> ('s, 'u) concurrentOp" where
  "nodes_Concurrent op s n =
     (let n = (if n < 1 then 1 else n)
      in \<lparr>cn_inner = op, cn_state = s, cn_semCap = n, cn_sem = 0, cn_wg = 0, cn_err = None, cn_workers = []\<rparr>)"

section \<open>Operations\<close>

datatype ('s, 'u) pool_outcome = PoolDispatched "('s, 'u) concurrentOp" | PoolErr error | PoolBlocks

definition concurrentOp_ProcessMessage ::
  "bool \<Rightarrow> error option \<Rightarrow> 'u DataMessage \<Rightarrow> 'u runtimeCollector \<Rightarrow> ('s, 'u) concurrentOp \<Rightarrow> ('s, 'u) pool_outcome" where
  "concurrentOp_ProcessMessage pick ctx msg col c =
     (if cn_err c \<noteq> None then PoolErr (the (cn_err c))
      else if int (cn_sem c) < cn_semCap c \<and> (ctx = None \<or> pick) then
        PoolDispatched (c\<lparr>cn_sem := cn_sem c + 1, cn_wg := cn_wg c + 1, cn_workers := cn_workers c @ [WorkerCall msg col]\<rparr>)
      else case ctx of None \<Rightarrow> PoolBlocks | Some err \<Rightarrow> PoolErr err)"

text \<open>One step of the goroutine at position \<open>k\<close>: the call, noting its error, and the two deferred calls.\<close>

definition concurrentOp_worker ::
  "nat \<Rightarrow> ('s, 'u) concurrentOp \<Rightarrow> 'u World \<Rightarrow> (('s, 'u) concurrentOp \<times> 'u World) option" where
  "concurrentOp_worker k c w =
     (if length (cn_workers c) \<le> k then None
      else case cn_workers c ! k of
             WorkerCall msg col \<Rightarrow>
               map_option (\<lambda>(s, w, err).
                   (c\<lparr>cn_state := s,
                      cn_workers := (cn_workers c)[k := case err of None \<Rightarrow> WorkerRelease | Some e \<Rightarrow> WorkerFailed e]\<rparr>, w))
                 (op_ProcessMessage (cn_inner c) msg col (cn_state c) w)
           | WorkerFailed err \<Rightarrow>
               Some (c\<lparr>cn_err := (case cn_err c of None \<Rightarrow> Some err | Some e \<Rightarrow> Some e),
                       cn_workers := (cn_workers c)[k := WorkerRelease]\<rparr>, w)
           | WorkerRelease \<Rightarrow>
               if cn_sem c = 0 then None
               else Some (c\<lparr>cn_sem := cn_sem c - 1, cn_workers := (cn_workers c)[k := WorkerFinish]\<rparr>, w)
           | WorkerFinish \<Rightarrow>
               Some (c\<lparr>cn_wg := cn_wg c - 1, cn_workers := take k (cn_workers c) @ drop (Suc k) (cn_workers c)\<rparr>, w))"

definition drainErr :: "('s, 'u) concurrentOp \<Rightarrow> error option \<times> ('s, 'u) concurrentOp" where
  "drainErr c = (let err = cn_err c in (err, c\<lparr>cn_err := None\<rparr>))"

definition concurrentOp_HandleWatermark ::
  "WatermarkSignal \<Rightarrow> 'u runtimeCollector \<Rightarrow> ('s, 'u) concurrentOp \<Rightarrow> 'u World \<Rightarrow>
     (('s, 'u) concurrentOp \<times> 'u World \<times> error option) option option" where
  "concurrentOp_HandleWatermark wm col c w =
     (if cn_wg c \<noteq> 0 then None
      else let (err, c) = drainErr c
           in if err \<noteq> None then Some (Some (c, w, err))
              else Some (map_option (\<lambda>(s, w, err). (c\<lparr>cn_state := s\<rparr>, w, err))
                          (op_HandleWatermark (cn_inner c) wm col (cn_state c) w)))"

definition concurrentOp_HandleCheckpoint ::
  "BarrierSignal \<Rightarrow> ('s, 'u) concurrentOp \<Rightarrow> (('s, 'u) concurrentOp \<times> (error + bytes)) option" where
  "concurrentOp_HandleCheckpoint b c =
     (if cn_wg c \<noteq> 0 then None
      else let (err, c) = drainErr c
           in if err \<noteq> None then Some (c, Inl (the err))
              else let (s, r) = op_HandleCheckpoint (cn_inner c) b (cn_state c)
                   in Some (c\<lparr>cn_state := s\<rparr>, r))"

definition concurrentOp_OnStart :: "('s, 'u) concurrentOp \<Rightarrow> ('s, 'u) concurrentOp \<times> error option" where
  "concurrentOp_OnStart c = (let (s, err) = op_OnStart (cn_inner c) (cn_state c) in (c\<lparr>cn_state := s\<rparr>, err))"

definition concurrentOp_OnClose :: "('s, 'u) concurrentOp \<Rightarrow> (('s, 'u) concurrentOp \<times> error option) option" where
  "concurrentOp_OnClose c =
     (if cn_wg c \<noteq> 0 then None
      else let (s, err) = op_OnClose (cn_inner c) (cn_state c) in Some (c\<lparr>cn_state := s\<rparr>, err))"

section \<open>The two wrappers\<close>

definition forget :: "('s, 'u) ConcurrentOperator \<Rightarrow> ('s, 'u) concurrentOp" where
  "forget co =
     \<lparr>cn_inner = co_inner co, cn_state = co_state co, cn_semCap = co_concurrency co, cn_sem = co_sem co,
      cn_wg = co_wg co, cn_err = co_lastErr co, cn_workers = co_workers co\<rparr>"

primrec forget_outcome :: "('s, 'u) dispatch_outcome \<Rightarrow> ('s, 'u) pool_outcome" where
  "forget_outcome (Dispatched co) = PoolDispatched (forget co)"
| "forget_outcome (DispatchErr err) = PoolErr err"
| "forget_outcome DispatchBlocks = PoolBlocks"

inductive pool_step ::
  "('s, 'u) concurrentOp \<times> 'u World \<Rightarrow> ('s, 'u) concurrentOp \<times> 'u World \<Rightarrow> bool" where
  dispatch: "concurrentOp_ProcessMessage pick ctx msg col c = PoolDispatched c' \<Longrightarrow> pool_step (c, w) (c', w)"
| worker: "concurrentOp_worker k c w = Some (c', w') \<Longrightarrow> pool_step (c, w) (c', w')"

inductive pool_run ::
  "('s, 'u) concurrentOp \<times> 'u World \<Rightarrow> ('s, 'u) concurrentOp \<times> 'u World \<Rightarrow> bool" where
  here: "pool_run x x"
| more: "pool_run x y \<Longrightarrow> pool_step y z \<Longrightarrow> pool_run x z"

lemma forget_new: "forget (NewConcurrentOperator op s n) = nodes_Concurrent op s n"
  by (simp add: forget_def NewConcurrentOperator_def nodes_Concurrent_def Let_def)

lemma forget_dispatch:
  "concurrentOp_ProcessMessage pick ctx msg col (forget co) = forget_outcome (Concurrent_ProcessMessage pick ctx msg col co)"
  by (cases "co_lastErr co"; cases ctx)
    (simp_all add: concurrentOp_ProcessMessage_def Concurrent_ProcessMessage_def forget_def Let_def)

lemma forget_worker:
  "concurrentOp_worker k (forget co) w = map_option (map_prod forget id) (worker_step k co w)"
  by (cases "co_workers co ! k"; cases "co_lastErr co")
    (auto simp: concurrentOp_worker_def worker_step_def forget_def not_less split: option.splits)

lemma forget_signals:
  "concurrentOp_HandleWatermark wm col (forget co) w = map_option (map_option (map_prod forget id)) (Concurrent_HandleWatermark wm col co w)"
  "concurrentOp_HandleCheckpoint b (forget co) = map_option (map_prod forget id) (Concurrent_HandleCheckpoint b co)"
  "concurrentOp_OnStart (forget co) = map_prod forget id (Concurrent_OnStart co)"
  "concurrentOp_OnClose (forget co) = map_option (map_prod forget id) (Concurrent_OnClose co)"
     apply (cases "op_HandleWatermark (co_inner co) wm col (co_state co) w"; cases "co_lastErr co")
        apply (auto simp: concurrentOp_HandleWatermark_def Concurrent_HandleWatermark_def drainErr_def drainError_def forget_def Let_def)
  by (cases "co_lastErr co", auto simp: concurrentOp_HandleCheckpoint_def Concurrent_HandleCheckpoint_def
      concurrentOp_OnStart_def Concurrent_OnStart_def concurrentOp_OnClose_def Concurrent_OnClose_def
      drainErr_def drainError_def forget_def Let_def split: prod.splits)

text \<open>Every run of this wrapper is one of the engine's, with the history variables forgotten.\<close>

lemma pool_run_engine:
  assumes "pool_run x y" "x = (forget co0, w0)"
  shows "\<exists>co w. y = (forget co, w) \<and> conc_run (co0, w0) (co, w)"
  using assms
proof (induction rule: pool_run.induct)
  case (here x)
  then show ?case using conc_run.here by blast
next
  case (more x y z)
  then obtain co w where y: "y = (forget co, w)" and run: "conc_run (co0, w0) (co, w)" by blast
  have "\<exists>co' w'. z = (forget co', w') \<and> conc_step (co, w) (co', w')"
    using more.hyps(2) unfolding y
  proof (cases rule: pool_step.cases)
    case (dispatch pick ctx msg col c')
    then obtain co' where "Concurrent_ProcessMessage pick ctx msg col co = Dispatched co'" "c' = forget co'"
      by (cases "Concurrent_ProcessMessage pick ctx msg col co") (auto simp: forget_dispatch)
    with dispatch show ?thesis using conc_step.dispatch by blast
  next
    case (worker k c' w')
    then obtain co' where "worker_step k co w = Some (co', w')" "c' = forget co'"
      by (auto simp: forget_worker)
    with worker show ?thesis using conc_step.worker by blast
  qed
  with run show ?case using conc_run.more by blast
qed

section \<open>Properties\<close>

definition uncurry_call :: "'u DataMessage \<times> 'u runtimeCollector \<Rightarrow> 'u worker" where
  "uncurry_call call = WorkerCall (fst call) (snd call)"



end
