(* ===== verification/Spec2Isabelle.thy ===== *)
theory Spec2Isabelle
  imports Progress Shutdown Nodes_Concurrent
begin

text \<open>
  A model of the stream processor \<^verbatim>\<open>go-stream-processor\<close> and the theorems that make it correct.

  The program. A user builds a graph of sources, operators and sinks with the fluent builder
  (\<^verbatim>\<open>src/internal/engine/builder.go\<close>). \<open>Build\<close> validates the graph (\<^verbatim>\<open>graph.go\<close>), makes a bounded buffer
  per edge (\<^verbatim>\<open>buffer.go\<close>), wraps every node in an adapter and a runtime (\<^verbatim>\<open>operator.go\<close>, \<^verbatim>\<open>runtime.go\<close>),
  and returns a pipeline (\<^verbatim>\<open>pipeline.go\<close>) with a checkpoint controller (\<^verbatim>\<open>controller.go\<close>). Every runtime
  merges its input buffers and handles one message at a time: data goes to the operator, which emits
  through a collector; watermarks go through a holder that takes the minimum over the inputs
  (\<^verbatim>\<open>watermark.go\<close>); barriers through an aligner (\<^verbatim>\<open>barrier_aligner.go\<close>), after which the operator is
  snapshotted, the barrier forwarded and the state reported to the controller; stop signals are
  counted and forwarded with the last. When every node has reported an epoch, the controller calls
  back, and the checkpoint manager (\<^verbatim>\<open>checkpoint_manager.go\<close>) saves the states through a backend
  (\<^verbatim>\<open>checkpoint_backend.go\<close>). Control messages pause, resume, checkpoint and terminate a node.

  The theories, each beside the code it models (files of \<^verbatim>\<open>src/internal/engine\<close> unless said otherwise):

  \<^item> \<open>Prelude\<close>, \<open>Go_Std\<close>, \<open>Go_OS\<close>: Go's types, maps, errors, integers and byte orders, the functions
    of its standard library that the code uses, and the file-system calls of the disk backend, any of
    which can fail.
  \<^item> \<open>Message\<close> (\<^verbatim>\<open>message.go\<close>, \<^verbatim>\<open>control.go\<close>), \<open>Buffer\<close> (\<^verbatim>\<open>buffer.go\<close>): data, signals, control messages;
    channels with capacity, context and closing, interleaved as a step relation.
  \<^item> \<open>State_Store\<close> (\<^verbatim>\<open>state_store.go\<close>), \<open>Timer\<close> (\<^verbatim>\<open>timer.go\<close>): the keyed store and the timer queue with
    their snapshot formats, to the byte, and what corrupt input does.
  \<^item> \<open>Barrier_Aligner\<close>, \<open>Watermark\<close>: alignment of barriers and the output watermark.
  \<^item> \<open>Graph\<close> (\<^verbatim>\<open>graph.go\<close>): validation, and the depth-first search for cycles as a terminating function.
  \<^item> \<open>Controller\<close>, \<open>Controller_Loop\<close>: completion reports and stops, over all histories; the goroutine
    that takes them from bounded channels.
  \<^item> \<open>Checkpoint_Backend\<close>, \<open>Checkpoint_Manager\<close>: saving, restoring and retention on the disk.
  \<^item> \<open>Collector\<close>, \<open>Errors\<close> (\<^verbatim>\<open>errors.go\<close>), \<open>Operators\<close> (\<^verbatim>\<open>operator.go\<close>, \<^verbatim>\<open>src/nodes/nodes.go\<close>),
    \<open>Timed_Operators\<close> (\<^verbatim>\<open>timer.go\<close>, \<^verbatim>\<open>hysteresis.go\<close>): what operator code can do to the engine, the
    error strategies, the adapters, and the built-in operators.
  \<^item> \<open>Runtime\<close>, \<open>Signals\<close>, \<open>Run_Loop\<close> (\<^verbatim>\<open>node.go\<close>, \<^verbatim>\<open>runtime.go\<close>): the handlers of a node, an abstract
    specification of the signals it forwards, and the interleaving of its goroutines.
  \<^item> \<open>Concurrent\<close> (\<^verbatim>\<open>concurrent.go\<close>), \<open>Nodes_Concurrent\<close> (\<^verbatim>\<open>src/nodes/nodes.go\<close>): the two worker pools.
  \<^item> \<open>Builder\<close>, \<open>Pipeline\<close>, \<open>Harness\<close> (\<^verbatim>\<open>test_harness.go\<close>): building, the life cycle, sample graphs.
  \<^item> \<open>Sending\<close>, \<open>Network\<close>: the running pipeline, all goroutines of all nodes and sources connected by
    the buffers, with sends that wait for room. \<open>Flow\<close>, \<open>Linear\<close>, \<open>Delivery\<close>: what a node does to the
    stream it takes in, and what linear pipelines deliver. \<open>Plain_Runs\<close>, \<open>Progress\<close>: runs without
    interference, and why they end with everything delivered. \<open>Shutdown\<close> (\<^verbatim>\<open>pipeline.go\<close>, the monitor):
    how a pipeline ends, with the loop of the controller, and \<open>Run\<close> of the test harness.

  Conventions. A Go map is an association list with distinct keys; a loop over one takes the order as
  an argument, and theorems hold for all orders. A Go error is a value of \<open>error\<close>; a panic and a
  call that waits are values too (\<open>None\<close>, or a constructor of an outcome type). Fixed-width integers
  are words. User code (sources, operators, type assertions on payloads) is an arbitrary record of
  functions over a state; what a theorem needs of it is the contract of a locale (\<open>data_emitter\<close>,
  \<open>stream_operator\<close>), which the built-in operators fulfil. A node acts on a \<open>World\<close> that logs what it sends and holds the answers of its
  environment: send results, readings of the clock; \<open>select\<close> with several ready cases takes an
  argument that decides. Goroutines are state machines whose interleavings are lists of events or
  inductive relations; handlers are atomic, since no other goroutine touches what they change.

  What is shown. Data structures: round trips and corruption (\<open>State_Store\<close>, \<open>Timer\<close>), exactly-once
  firing, FIFO buffers, minimum watermarks. Algorithms: validation and cycle detection are exact;
  alignment separates pre- from post-barrier messages. Operators: each built-in operator refines a
  function on streams. Nodes: the signals a node forwards are those of an abstract stream, watermarks
  increase, stop is forwarded once, errors follow the strategy; in every interleaving inputs are FIFO,
  the stop is reported once and a paused node rests. Pools: linearizable, terminating, equal in both
  packages. Pipelines: \<open>Build\<close> is exact and wires the graph, the life cycle is a state machine, and a
  completed checkpoint restores the last reported states. Running pipelines: in every interleaving
  nothing is lost, doubled or reordered between nodes, and a linear pipeline computes the composition
  of its operators on what its source sends. Undisturbed, it does so in boundedly many steps without a
  deadlock, for any sizes of the buffers, and its state becomes \<open>PipelineStopped\<close>. \<open>Wait\<close> returns only
  when all goroutines of nodes and controller have ended. Some theorems state what the code does
  where it departs from its documentation: post-barrier messages in a snapshot (\<open>checkpoint_round\<close>),
  the livelock of a paused node with an expired timer (\<open>paused_timer_livelock\<close>), idle inputs that
  never advance the watermark (\<open>all_idle_never_advances\<close>), a stop of a paused pipeline
  (\<open>stop_while_paused_stuck\<close>), pipelines of more than 64 nodes or with a dead-letter
  sink that cannot shut down (\<open>wait_returns_iff\<close>), a final checkpoint that is dropped (\<open>final_checkpoint_lost\<close>), a decoder that panics (\<open>decode_panics_iff\<close>).

  Bounds. No definition uses fuel: loops are structural or have a measure (bytes left in
  \<open>restore_loop\<close>, white nodes in \<open>dfs_neighbors\<close>), and \<open>steps_bound\<close> bounds the steps of an undisturbed linear
  pipeline. Instants are unbounded integers; the channel
  capacities are those of the code.

  Not modelled. \<^verbatim>\<open>src/stream_processor/stream_processor.go\<close> only re-exports names of the engine, and
  \<^verbatim>\<open>src/examples\<close> is a sample program. Log output, the text of errors beyond their format and
  arguments, the scheduling of goroutines beyond interleaving, and the memory model are left out;
  \<^verbatim>\<open>captureGoroutineStacks\<close> of \<^verbatim>\<open>test_harness.go\<close> is a call of the Go runtime. In \<open>Network\<close> a handler
  computes in one step what it sends; the sends then happen one by one, and the node goes on after the
  last. In \<open>Shutdown\<close> a main loop is the choice of when it reports and returns; what it does is in
  \<open>Run_Loop\<close>. A send that is cut off by a cancelled context is an answer of the node's \<open>World\<close>.
\<close>

section \<open>Checkpoints, from the reports of the nodes to a restarted pipeline\<close>

text \<open>The states of a completed checkpoint, as the callback of \<open>Build\<close> hands them to the manager.\<close>

definition callback_reports :: "string list \<Rightarrow> u64 \<Rightarrow> CheckpointInfo \<Rightarrow> NodeCompletion list" where
  "callback_reports ks e info =
     map (\<lambda>n. \<lparr>nc_NodeID = n, nc_Epoch = e, nc_State = the (map_of (ci_NodeStates info) n)\<rparr>) ks"

lemma fold_callback:
  "fold (\<lambda>n. CollectState \<lparr>nc_NodeID = n, nc_Epoch = e, nc_State = the (map_of (ci_NodeStates info) n)\<rparr>) ks m =
   fold CollectState (callback_reports ks e info) m"
  by (simp add: callback_reports_def fold_map comp_def)

lemma states_of_callback:
  assumes "range_order ks (ci_NodeStates info)"
  shows "states_of (filter (\<lambda>r. nc_Epoch r = e) (callback_reports ks e info)) = map_of (ci_NodeStates info)"
proof
  fix n
  have "filter (\<lambda>r. nc_Epoch r = e) (callback_reports ks e info) = callback_reports ks e info"
    by (simp add: callback_reports_def filter_id_conv)
  moreover have "distinct (rev ks)" "n \<in> set ks \<longleftrightarrow> map_of (ci_NodeStates info) n \<noteq> None"
    using assms range_order_mem [OF assms] by (simp_all add: range_order_def)
  ultimately show "states_of (filter (\<lambda>r. nc_Epoch r = e) (callback_reports ks e info)) n = map_of (ci_NodeStates info) n"
    by (auto simp: states_of_def callback_reports_def rev_map comp_def map_of_map_restrict restrict_map_def)
qed



end
